(* ===== verification/Prelude.thy ===== *)
theory Prelude
  imports Main "HOL-Library.Word" "HOL-Library.Multiset" "HOL-Library.Monad_Syntax"
begin

text \<open>
  What the component theories share: the machine integer types of the Rust sources, the
  \<open>Result\<close> type, the checked arithmetic of the standard library, and generic lemmas on
  words, lists and multisets.

  Conventions used throughout the development:
  \<^item> \<open>u8\<close>, \<open>u32\<close> and \<open>u64\<close> values are words of that width; a \<open>usize\<close> that counts or
    indexes is a natural number, with the 64-bit bound written out where the code checks it;
  \<^item> a method on \<open>&mut self\<close> takes the state and returns its result paired with the new state;
  \<^item> \<open>Result<T, E>\<close> is \<open>('t, 'e) result\<close>;
  \<^item> a panic (\<open>assert!\<close>, \<open>expect\<close>, \<open>unreachable!\<close>, an index out of range) is the value
    \<^const>\<open>None\<close> of an option wrapped around the result of the function that may panic.
\<close>

unbundle bit_operations_syntax

section \<open>Machine integers\<close>

type_synonym u8 = "8 word"
type_synonym u32 = "32 word"
type_synonym u64 = "64 word"

text \<open>The number of values of \<open>usize\<close> on the 64-bit target.\<close>

abbreviation usize_bound :: nat where
  "usize_bound \<equiv> 2 ^ 64"

section \<open>Result\<close>

datatype ('t, 'e) result = Ok 't | Err 'e

fun is_ok :: "('t, 'e) result \<Rightarrow> bool" where
  "is_ok (Ok _) = True"
| "is_ok (Err _) = False"

lemma is_ok_iff: "is_ok r \<longleftrightarrow> (\<exists>x. r = Ok x)"
  by (cases r) auto

text \<open>The operator \<open>?\<close> of the sources: continue with the value, or return the error.\<close>

fun and_then :: "('t, 'e) result \<Rightarrow> ('t \<Rightarrow> ('u, 'e) result) \<Rightarrow> ('u, 'e) result" where
  "and_then (Ok x) f = f x"
| "and_then (Err e) f = Err e"

text \<open>\<open>ok_or\<close>.\<close>

fun ok_or :: "'t option \<Rightarrow> 'e \<Rightarrow> ('t, 'e) result" where
  "ok_or (Some x) e = Ok x"
| "ok_or None e = Err e"

lemma and_then_Ok [simp]: "and_then r f = Ok y \<longleftrightarrow> (\<exists>x. r = Ok x \<and> f x = Ok y)"
  by (cases r) auto

lemma and_then_Err [simp]: "and_then r f = Err e \<longleftrightarrow> r = Err e \<or> (\<exists>x. r = Ok x \<and> f x = Err e)"
  by (cases r) auto

lemma ok_or_Ok [simp]: "ok_or r e = Ok y \<longleftrightarrow> r = Some y"
  by (cases r) auto

lemma ok_or_Err [simp]: "ok_or r e = Err x \<longleftrightarrow> r = None \<and> x = e"
  by (cases r) auto

section \<open>Checked arithmetic\<close>

text \<open>\<open>checked_add\<close> on the fixed-width unsigned types: \<^const>\<open>None\<close> on overflow.\<close>

definition checked_add :: "'a::len word \<Rightarrow> 'a word \<Rightarrow> 'a word option" where
  "checked_add a b = (if unat a + unat b < 2 ^ LENGTH('a) then Some (a + b) else None)"

lemma checked_add_SomeD:
  "checked_add a b = Some c \<Longrightarrow> unat c = unat a + unat b"
  by (auto simp: checked_add_def unat_word_ariths split: if_splits)

lemma checked_add_eq_Some:
  "unat (a :: 'a::len word) + unat b < 2 ^ LENGTH('a) \<Longrightarrow> checked_add a b = Some (a + b)"
  by (simp add: checked_add_def)

lemma checked_add_eq_None:
  "checked_add (a :: 'a::len word) b = None \<longleftrightarrow> 2 ^ LENGTH('a) \<le> unat a + unat b"
  by (auto simp: checked_add_def)

lemma unat_plus_fits:
  "unat (a :: 'a::len word) + unat b < 2 ^ LENGTH('a) \<Longrightarrow> unat (a + b) = unat a + unat b"
  by (simp add: unat_word_ariths)

lemma unat_minus_le: "b \<le> a \<Longrightarrow> unat (a - b) = unat a - unat b"
  by (rule unat_sub)

lemma unat_pos_iff: "0 < unat x \<longleftrightarrow> x \<noteq> 0"
  by (rule unat_gt_0)

lemma unat_plus_one: "(g :: 'a::len word) \<noteq> - 1 \<Longrightarrow> unat (g + 1) = unat g + 1"
  by (metis Suc_eq_plus1 add.commute eq_neg_iff_add_eq_0 unatSuc)

lemma less_plus_one_word: "(g :: 'a::len word) \<noteq> - 1 \<Longrightarrow> g < g + 1"
  by (simp add: word_less_nat_alt unat_plus_one)

lemma small_word_bits: "unat (w :: 'a::len word) < 2 ^ n \<Longrightarrow> bit w m \<Longrightarrow> m < n"
  by (metis bit_take_bit_iff take_bit_nat_eq_self_iff unsigned_take_bit_eq word_unat_eq_iff)

lemma word_bits_small: "(\<And>m. bit w m \<Longrightarrow> m < n) \<Longrightarrow> unat (w :: 'a::len word) < 2 ^ n"
proof -
  assume "\<And>m. bit w m \<Longrightarrow> m < n"
  then have "take_bit n w = w"
    by (intro bit_word_eqI) (auto simp: bit_take_bit_iff)
  then show ?thesis
    by (metis take_bit_nat_less_exp unsigned_take_bit_eq)
qed

text \<open>The same operations on \<open>usize\<close> values kept as natural numbers.\<close>

definition usize_add :: "nat \<Rightarrow> nat \<Rightarrow> nat option" where
  "usize_add a b = (if a + b < usize_bound then Some (a + b) else None)"

definition usize_mul :: "nat \<Rightarrow> nat \<Rightarrow> nat option" where
  "usize_mul a b = (if a * b < usize_bound then Some (a * b) else None)"

definition usize_sub :: "nat \<Rightarrow> nat \<Rightarrow> nat option" where
  "usize_sub a b = (if b \<le> a then Some (a - b) else None)"

lemma usize_add_Some [simp]: "usize_add a b = Some c \<longleftrightarrow> a + b < usize_bound \<and> c = a + b"
  by (auto simp: usize_add_def)

lemma usize_add_None [simp]: "usize_add a b = None \<longleftrightarrow> usize_bound \<le> a + b"
  by (auto simp: usize_add_def)

lemma usize_mul_Some [simp]: "usize_mul a b = Some c \<longleftrightarrow> a * b < usize_bound \<and> c = a * b"
  by (auto simp: usize_mul_def)

lemma usize_sub_Some [simp]: "usize_sub a b = Some c \<longleftrightarrow> b \<le> a \<and> c = a - b"
  by (auto simp: usize_sub_def)

lemma usize_sub_None [simp]: "usize_sub a b = None \<longleftrightarrow> a < b"
  by (auto simp: usize_sub_def)

section \<open>Arrays\<close>

text \<open>Indexing that panics out of range.\<close>

definition at :: "'b list \<Rightarrow> nat \<Rightarrow> 'b option" where
  "at xs i = (if i < length xs then Some (xs ! i) else None)"

text \<open>
  Singly linked lists threaded through an array: \<open>path nx h is\<close> holds when following \<open>nx\<close> from
  \<open>h\<close> visits exactly \<open>is\<close>.
\<close>

fun path :: "(nat \<Rightarrow> nat option) \<Rightarrow> nat option \<Rightarrow> nat list \<Rightarrow> bool" where
  "path nx h [] \<longleftrightarrow> h = None"
| "path nx h (i # is) \<longleftrightarrow> h = Some i \<and> path nx (nx i) is"

lemma path_cong: "(\<And>i. i \<in> set is \<Longrightarrow> nx' i = nx i) \<Longrightarrow> path nx' h is \<longleftrightarrow> path nx h is"
  by (induction "is" arbitrary: h) auto

lemma path_unique: "path nx h is \<Longrightarrow> path nx h js \<Longrightarrow> is = js"
  by (induction "is" arbitrary: h js) (case_tac js; auto)+

lemma path_snoc:
  "path nx h is \<Longrightarrow> is \<noteq> [] \<Longrightarrow> distinct is \<Longrightarrow> j \<notin> set is \<Longrightarrow> nx j = None \<Longrightarrow>
     path (nx(last is := Some j)) h (is @ [j])"
proof (induction "is" arbitrary: h)
  case (Cons i "is")
  show ?case
  proof (cases "is = []")
    case False
    then have "i \<noteq> last is"
      using Cons.prems(3) by auto
    then show ?thesis
      using Cons False by auto
  qed (use Cons.prems in auto)
qed simp

lemma path_last: "path nx h is \<Longrightarrow> is \<noteq> [] \<Longrightarrow> nx (last is) = None"
  by (induction "is" arbitrary: h) (auto split: if_splits)

section \<open>Counting in lists\<close>

lemma length_filter_update:
  "i < length xs \<Longrightarrow>
     length (filter P (xs[i := y])) + (if P (xs ! i) then 1 else 0) =
     length (filter P xs) + (if P y then 1 else 0)"
proof (induction xs arbitrary: i)
  case (Cons x xs)
  then show ?case
    by (cases i) (auto split: if_splits)
qed simp

lemma find_SomeD: "find P xs = Some x \<Longrightarrow> x \<in> set xs \<and> P x"
  by (induction xs) (auto split: if_splits)

section \<open>Sums over a finite index type\<close>

lemma sum_UNIV_update:
  fixes f :: "'a \<Rightarrow> nat" and ps :: "'k::finite \<Rightarrow> 'a"
  shows "(\<Sum>c\<in>UNIV. f ((ps(k := v)) c)) + f (ps k) = (\<Sum>c\<in>UNIV. f (ps c)) + f v"
proof -
  have "(\<Sum>c\<in>UNIV. f ((ps(k := v)) c)) = f v + (\<Sum>c\<in>UNIV - {k}. f ((ps(k := v)) c))"
    by (subst sum.remove [where x = k]) auto
  also have "(\<Sum>c\<in>UNIV - {k}. f ((ps(k := v)) c)) = (\<Sum>c\<in>UNIV - {k}. f (ps c))"
    by (rule sum.cong) auto
  finally show ?thesis
    by (subst (2) sum.remove [where x = k]) auto
qed

section \<open>Invariants of transition systems\<close>

text \<open>
  A component with a step relation states its invariant once in this locale: what holds
  initially and is kept by every step holds after any number of steps.
\<close>

locale inv_system =
  fixes init :: "'s \<Rightarrow> bool"
    and step :: "'s \<Rightarrow> 's \<Rightarrow> bool"
    and inv :: "'s \<Rightarrow> bool"
  assumes inv_init: "init s \<Longrightarrow> inv s"
    and inv_step: "inv s \<Longrightarrow> step s t \<Longrightarrow> inv t"
begin

lemma inv_steps: "step\<^sup>*\<^sup>* s t \<Longrightarrow> inv s \<Longrightarrow> inv t"
  by (induction rule: rtranclp_induct) (auto intro: inv_step)

lemma inv_reachable: "init s \<Longrightarrow> step\<^sup>*\<^sup>* s t \<Longrightarrow> inv t"
  by (blast intro: inv_init inv_steps)

end

text \<open>
  Names that die: once \<open>dead s k\<close> holds it holds in every later state. The components that hand
  out generation-stamped names (handles, timer tokens, work identities) interpret this.
\<close>

locale lifetimes = inv_system +
  fixes dead :: "'s \<Rightarrow> 'k \<Rightarrow> bool"
  assumes dead_step: "inv s \<Longrightarrow> step s t \<Longrightarrow> dead s k \<Longrightarrow> dead t k"
begin

lemma dead_forever: "step\<^sup>*\<^sup>* s t \<Longrightarrow> inv s \<Longrightarrow> dead s k \<Longrightarrow> dead t k"
proof (induction rule: rtranclp_induct)
  case (step t u)
  then show ?case
    using dead_step [of t u k] inv_steps [of s t] by blast
qed simp

end

end
