(* ===== verification/Monotonic_Id.thy ===== *)
theory Monotonic_Id
  imports Prelude
begin

text \<open>
  The identity sequence of \<open>shared/monotonic_id\<close>: a word whose value is the next identity,
  with 0 as the permanent exhausted state. \<open>allocate\<close> is one atomic read-modify-write, so a
  concurrent run is a sequence of \<open>allocate\<close> steps in some order.
\<close>

type_synonym atomic_id64 = u64

text \<open>\<open>AtomicId64::new\<close> asserts that the first identity is not zero.\<close>

definition AtomicId64_new :: "u64 \<Rightarrow> atomic_id64 option" where
  "AtomicId64_new first = (if first \<noteq> 0 then Some first else None)"

definition allocate :: "atomic_id64 \<Rightarrow> u64 option \<times> atomic_id64" where
  "allocate current = (if current \<noteq> 0 then (Some current, current + 1) else (None, current))"

text \<open>
  A run of \<open>n\<close> allocations from a source, with the results in the order the updates took
  effect.
\<close>

fun allocate_run :: "('s \<Rightarrow> 'k option \<times> 's) \<Rightarrow> nat \<Rightarrow> 's \<Rightarrow> 'k option list \<times> 's" where
  "allocate_run alloc 0 c = ([], c)"
| "allocate_run alloc (Suc n) c =
     (case alloc c of (r, c') \<Rightarrow>
        (case allocate_run alloc n c' of (rs, c'') \<Rightarrow> (r # rs, c'')))"

section \<open>The interface: a source of fresh identities\<close>

text \<open>
  What the users of an identity source rely on: \<open>left s\<close> are the identities the source can
  still issue, each one is issued at most once, and an exhausted source stays exhausted.
\<close>

locale identity_source =
  fixes alloc :: "'s \<Rightarrow> 'k option \<times> 's"
    and left :: "'s \<Rightarrow> 'k set"
  assumes issue: "alloc s = (Some k, s') \<Longrightarrow> k \<in> left s \<and> left s' = left s - {k}"
    and refuse: "alloc s = (None, s') \<Longrightarrow> left s = {} \<and> s' = s"
begin

lemma run_issues_left:
  "allocate_run alloc n s = (rs, s') \<Longrightarrow> Some k \<in> set rs \<Longrightarrow> k \<in> left s"
proof (induction n arbitrary: s rs s')
  case (Suc n)
  then obtain r s1 rs1 where
    first: "alloc s = (r, s1)" and rest: "allocate_run alloc n s1 = (rs1, s')"
    and rs: "rs = r # rs1"
    by (auto split: prod.splits)
  have sub: "left s1 \<subseteq> left s"
    using issue refuse first by (cases r) blast+
  show ?case
  proof (cases "r = Some k")
    case True
    then show ?thesis using issue first by blast
  next
    case False
    with Suc.prems rs have "Some k \<in> set rs1" by auto
    then show ?thesis using Suc.IH [OF rest] sub by blast
  qed
qed simp

lemma run_distinct:
  "allocate_run alloc n s = (rs, s') \<Longrightarrow> distinct (filter (\<lambda>r. r \<noteq> None) rs)"
proof (induction n arbitrary: s rs s')
  case (Suc n)
  then obtain r s1 rs1 where
    first: "alloc s = (r, s1)" and rest: "allocate_run alloc n s1 = (rs1, s')"
    and rs: "rs = r # rs1"
    by (auto split: prod.splits)
  have tail: "distinct (filter (\<lambda>r. r \<noteq> None) rs1)"
    by (rule Suc.IH [OF rest])
  have "r \<notin> set (filter (\<lambda>r. r \<noteq> None) rs1)"
  proof
    assume "r \<in> set (filter (\<lambda>r. r \<noteq> None) rs1)"
    then obtain k where k: "r = Some k" "Some k \<in> set rs1"
      by auto
    with first issue have "k \<notin> left s1" by blast
    with k run_issues_left [OF rest] show False by blast
  qed
  with tail rs show ?case by auto
qed simp

lemma run_refused:
  "alloc s = (None, s) \<Longrightarrow> allocate_run alloc n s = (replicate n None, s)"
  by (induction n) auto

end

section \<open>What an issued identity is\<close>

text \<open>
  The identities a sequence can still issue: none when exhausted, otherwise all words from
  the next one upwards.
\<close>

definition unissued :: "atomic_id64 \<Rightarrow> u64 set" where
  "unissued c = (if c = 0 then {} else {k. c \<le> k})"

lemma unissued_zero [simp]: "unissued 0 = {}"
  by (simp add: unissued_def)

lemma zero_not_unissued [simp]: "0 \<notin> unissued c"
  by (auto simp: unissued_def)

lemma allocate_None_iff [simp]: "fst (allocate c) = None \<longleftrightarrow> c = 0"
  by (simp add: allocate_def)

lemma allocate_Some_unissued: "allocate c = (Some k, c') \<Longrightarrow> k \<in> unissued c"
  by (auto simp: allocate_def unissued_def split: if_splits)

lemma allocate_Some_removes:
  assumes "allocate c = (Some k, c')"
  shows "unissued c' = unissued c - {k}"
proof -
  from assms have k: "k = c" "c' = c + 1" "c \<noteq> 0"
    by (auto simp: allocate_def split: if_splits)
  have "c + 1 = 0 \<Longrightarrow> c \<le> j \<Longrightarrow> j = c" for j
    by unat_arith
  moreover have "c + 1 \<noteq> 0 \<Longrightarrow> (c + 1 \<le> j) = (c \<le> j \<and> j \<noteq> c)" for j
    by unat_arith
  ultimately show ?thesis
    using k by (auto simp: unissued_def)
qed

lemma allocate_None_unchanged: "allocate c = (None, c') \<Longrightarrow> unissued c = {} \<and> c' = c"
  by (auto simp: allocate_def split: if_splits)

interpretation id64: identity_source allocate unissued
  by unfold_locales (simp_all add: allocate_Some_unissued allocate_Some_removes
      allocate_None_unchanged)

section \<open>Properties\<close>

text \<open>
  Claim C5. However many allocations run, and in whatever order their atomic updates take
  effect, no identity is issued twice and none is zero, and every identity issued is at
  least the current value of the counter.
\<close>

theorem allocate_run_unique:
  "let (rs, c') = allocate_run allocate n c in
     distinct (filter (\<lambda>r. r \<noteq> None) rs) \<and> Some 0 \<notin> set rs \<and>
     set rs \<subseteq> insert None (Some ` {k. c \<le> k})"
proof -
  obtain rs c' where run: "allocate_run allocate n c = (rs, c')"
    by fastforce
  have "Some k \<in> set rs \<Longrightarrow> k \<in> unissued c" for k
    using id64.run_issues_left [OF run] .
  moreover have "unissued c \<subseteq> {k. c \<le> k}" "0 \<notin> unissued c"
    by (auto simp: unissued_def)
  moreover have "r = None \<or> (\<exists>k. r = Some k)" for r :: "u64 option"
    by (cases r) auto
  ultimately have "set rs \<subseteq> insert None (Some ` {k. c \<le> k})" "Some 0 \<notin> set rs"
    by blast+
  with run id64.run_distinct [OF run] show ?thesis by simp
qed

text \<open>
  The largest identity is issued exactly once; from then on the sequence is
  exhausted for good and every later allocation is refused without changing the counter.
\<close>

theorem allocate_exhausts:
  "allocate_run allocate (Suc n) (- 1) = (Some (- 1) # replicate n None, 0)"
proof -
  have "allocate (- 1) = (Some (- 1), 0)"
    by (simp add: allocate_def)
  moreover have "allocate_run allocate n 0 = (replicate n None, 0)"
    by (rule id64.run_refused) (simp add: allocate_def)
  ultimately show ?thesis by simp
qed

end
