(* ===== verification/Memory_Pool.thy ===== *)
theory Memory_Pool
  imports Monotonic_Id
begin

text \<open>
  The page quota accounts of \<open>os/memory_pool\<close>. A pool splits its total into four columns
  (available, reserved, allocated, delegated); every movement between columns consumes or
  produces a token that cannot be copied. The theory holds the operations in the order of
  the source and what each of them does to one pool; the tree of pools is the theory
  \<open>Memory_Pool_Tree\<close>.
\<close>

section \<open>Data\<close>

definition MAX_DEPTH :: u32 where
  "MAX_DEPTH = 32"

datatype pool_id = PoolId u64

definition PoolId_new :: "u64 \<Rightarrow> pool_id option" where
  "PoolId_new raw = (if raw = 0 then None else Some (PoolId raw))"

type_synonym owner_key = u64

datatype pool_error =
    ZeroAmount
  | InvalidSplit
  | QuotaExceeded
  | DepthLimit
  | ArithmeticOverflow
  | IdentityExhausted
  | InvalidTopology
  | WrongOwner
  | InvariantViolation

text \<open>
  \<open>mint_owner_key\<close> draws from the static sequence \<open>NEXT_OWNER_KEY\<close>, which is an explicit
  argument here.
\<close>

definition mint_owner_key :: "atomic_id64 \<Rightarrow> (owner_key, pool_error) result \<times> atomic_id64" where
  "mint_owner_key keys =
     (case allocate keys of
        (Some k, keys') \<Rightarrow> (if k = 0 then Err IdentityExhausted else Ok k, keys')
      | (None, keys') \<Rightarrow> (Err IdentityExhausted, keys'))"

record pool_snapshot =
  snap_identity :: pool_id
  snap_parent_identity :: "pool_id option"
  snap_depth :: u32
  snap_total :: u64
  snap_available :: u64
  snap_reserved :: u64
  snap_allocated :: u64
  snap_delegated :: u64

definition closes :: "pool_snapshot \<Rightarrow> bool" where
  "closes s \<longleftrightarrow>
     Option.bind (Option.bind (checked_add (snap_available s) (snap_reserved s))
         (\<lambda>value. checked_add value (snap_allocated s)))
       (\<lambda>value. checked_add value (snap_delegated s)) = Some (snap_total s)"

text \<open>A failing operation hands the token it was given back with the error.\<close>

record 't token_error =
  te_error :: pool_error
  te_token :: 't

abbreviation TokenError :: "pool_error \<Rightarrow> 't \<Rightarrow> 't token_error" where
  "TokenError e t \<equiv> \<lparr>te_error = e, te_token = t\<rparr>"

record charge_reservation =
  cr_owner_key :: owner_key
  cr_owner :: pool_id
  cr_pages :: u64

record delegation_reservation =
  dr_parent_key :: owner_key
  dr_parent :: pool_id
  dr_child_depth :: u32
  dr_pages :: u64

record allocated_credit =
  ac_owner_key :: owner_key
  ac_owner :: pool_id
  ac_pages :: u64

record delegated_credit =
  dc_parent_key :: owner_key
  dc_parent :: pool_id
  dc_pages :: u64

record pool_state =
  owner_key :: owner_key
  identity :: pool_id
  parent_identity :: "pool_id option"
  depth :: u32
  total :: u64
  available :: u64
  reserved :: u64
  allocated :: u64
  delegated :: u64
  parent_credit :: "delegated_credit option"

record prepared_child =
  pc_parent_key :: owner_key
  pc_parent :: pool_id
  pc_pages :: u64
  pc_state :: pool_state

datatype account = Allocated | Delegated

section \<open>Allocated credit\<close>

definition split_credit ::
  "allocated_credit \<Rightarrow> u64 \<Rightarrow> (allocated_credit, pool_error) result \<times> allocated_credit" where
  "split_credit self pages =
     (if pages = 0 then (Err ZeroAmount, self)
      else if ac_pages self \<le> pages then (Err InvalidSplit, self)
      else (Ok \<lparr>ac_owner_key = ac_owner_key self, ac_owner = ac_owner self, ac_pages = pages\<rparr>,
            self\<lparr>ac_pages := ac_pages self - pages\<rparr>))"

definition merge_credit ::
  "allocated_credit \<Rightarrow> allocated_credit \<Rightarrow>
     (unit, allocated_credit token_error) result \<times> allocated_credit" where
  "merge_credit self other =
     (if ac_owner_key self \<noteq> ac_owner_key other then (Err (TokenError WrongOwner other), self)
      else case checked_add (ac_pages self) (ac_pages other) of
        None \<Rightarrow> (Err (TokenError ArithmeticOverflow other), self)
      | Some pages \<Rightarrow> (Ok (), self\<lparr>ac_pages := pages\<rparr>))"

section \<open>Construction\<close>

definition root ::
  "pool_id \<Rightarrow> u64 \<Rightarrow> atomic_id64 \<Rightarrow> (pool_state, pool_error) result \<times> atomic_id64" where
  "root ident tot keys =
     (if tot = 0 then (Err ZeroAmount, keys)
      else case mint_owner_key keys of
        (Err e, keys') \<Rightarrow> (Err e, keys')
      | (Ok k, keys') \<Rightarrow>
          (Ok \<lparr>owner_key = k, identity = ident, parent_identity = None, depth = 1,
               total = tot, available = tot, reserved = 0, allocated = 0, delegated = 0,
               parent_credit = None\<rparr>, keys'))"

definition prepare_child ::
  "pool_id \<Rightarrow> delegation_reservation \<Rightarrow> atomic_id64 \<Rightarrow>
     (prepared_child, delegation_reservation token_error) result \<times> atomic_id64" where
  "prepare_child ident r keys =
     (if ident = dr_parent r \<or> dr_child_depth r \<le> 1 \<or> MAX_DEPTH < dr_child_depth r \<or> dr_pages r = 0
      then (Err (TokenError InvalidTopology r), keys)
      else case mint_owner_key keys of
        (Err e, keys') \<Rightarrow> (Err (TokenError e r), keys')
      | (Ok k, keys') \<Rightarrow>
          (Ok \<lparr>pc_parent_key = dr_parent_key r, pc_parent = dr_parent r, pc_pages = dr_pages r,
               pc_state = \<lparr>owner_key = k, identity = ident,
                 parent_identity = Some (dr_parent r), depth = dr_child_depth r,
                 total = dr_pages r, available = dr_pages r, reserved = 0, allocated = 0,
                 delegated = 0, parent_credit = None\<rparr>\<rparr>, keys'))"

definition snapshot :: "pool_state \<Rightarrow> pool_snapshot" where
  "snapshot p =
     \<lparr>snap_identity = identity p, snap_parent_identity = parent_identity p,
      snap_depth = depth p, snap_total = total p, snap_available = available p,
      snap_reserved = reserved p, snap_allocated = allocated p,
      snap_delegated = delegated p\<rparr>"

definition is_fully_available :: "pool_state \<Rightarrow> bool" where
  "is_fully_available p \<longleftrightarrow>
     available p = total p \<and> reserved p = 0 \<and> allocated p = 0 \<and> delegated p = 0"

section \<open>Column movements\<close>

definition reserve :: "pool_state \<Rightarrow> u64 \<Rightarrow> (unit, pool_error) result \<times> pool_state" where
  "reserve p pages =
     (if pages = 0 then (Err ZeroAmount, p)
      else if available p < pages then (Err QuotaExceeded, p)
      else case checked_add (reserved p) pages of
        None \<Rightarrow> (Err ArithmeticOverflow, p)
      | Some r \<Rightarrow> (Ok (), p\<lparr>available := available p - pages, reserved := r\<rparr>))"

definition validate_credit ::
  "pool_state \<Rightarrow> owner_key \<Rightarrow> pool_id \<Rightarrow> u64 \<Rightarrow> (unit, pool_error) result" where
  "validate_credit p key owner pages =
     (if key \<noteq> owner_key p \<or> owner \<noteq> identity p then Err WrongOwner
      else if pages = 0 then Err ZeroAmount
      else Ok ())"

definition rollback ::
  "pool_state \<Rightarrow> owner_key \<Rightarrow> pool_id \<Rightarrow> u64 \<Rightarrow> (unit, pool_error) result \<times> pool_state" where
  "rollback p key owner pages =
     (case validate_credit p key owner pages of
        Err e \<Rightarrow> (Err e, p)
      | Ok _ \<Rightarrow>
          if reserved p < pages then (Err InvariantViolation, p)
          else case checked_add (available p) pages of
            None \<Rightarrow> (Err ArithmeticOverflow, p)
          | Some a \<Rightarrow>
              if total p < a then (Err InvariantViolation, p)
              else (Ok (), p\<lparr>reserved := reserved p - pages, available := a\<rparr>))"

text \<open>The column an \<open>Account\<close> value names, and its update.\<close>

fun account_of :: "pool_state \<Rightarrow> account \<Rightarrow> u64" where
  "account_of p Allocated = allocated p"
| "account_of p Delegated = delegated p"

fun set_account :: "pool_state \<Rightarrow> account \<Rightarrow> u64 \<Rightarrow> pool_state" where
  "set_account p Allocated v = p\<lparr>allocated := v\<rparr>"
| "set_account p Delegated v = p\<lparr>delegated := v\<rparr>"

definition commit_reserved ::
  "pool_state \<Rightarrow> owner_key \<Rightarrow> pool_id \<Rightarrow> u64 \<Rightarrow> account \<Rightarrow>
     (unit, pool_error) result \<times> pool_state" where
  "commit_reserved p key owner pages acc =
     (case validate_credit p key owner pages of
        Err e \<Rightarrow> (Err e, p)
      | Ok _ \<Rightarrow>
          if reserved p < pages then (Err InvariantViolation, p)
          else case checked_add (account_of p acc) pages of
            None \<Rightarrow> (Err ArithmeticOverflow, p)
          | Some v \<Rightarrow> (Ok (), set_account (p\<lparr>reserved := reserved p - pages\<rparr>) acc v))"

definition return_credit ::
  "pool_state \<Rightarrow> owner_key \<Rightarrow> pool_id \<Rightarrow> u64 \<Rightarrow> account \<Rightarrow>
     (unit, pool_error) result \<times> pool_state" where
  "return_credit p key owner pages acc =
     (case validate_credit p key owner pages of
        Err e \<Rightarrow> (Err e, p)
      | Ok _ \<Rightarrow>
          if account_of p acc < pages then (Err InvariantViolation, p)
          else case checked_add (available p) pages of
            None \<Rightarrow> (Err ArithmeticOverflow, p)
          | Some a \<Rightarrow>
              if total p < a then (Err InvariantViolation, p)
              else (Ok (), (set_account p acc (account_of p acc - pages))\<lparr>available := a\<rparr>))"

section \<open>Operations on tokens\<close>

definition reserve_charge ::
  "pool_state \<Rightarrow> u64 \<Rightarrow> (charge_reservation, pool_error) result \<times> pool_state" where
  "reserve_charge p pages =
     (case reserve p pages of
        (Err e, p') \<Rightarrow> (Err e, p')
      | (Ok _, p') \<Rightarrow>
          (Ok \<lparr>cr_owner_key = owner_key p', cr_owner = identity p', cr_pages = pages\<rparr>, p'))"

definition reserve_delegation ::
  "pool_state \<Rightarrow> u64 \<Rightarrow> (delegation_reservation, pool_error) result \<times> pool_state" where
  "reserve_delegation p pages =
     (if MAX_DEPTH \<le> depth p then (Err DepthLimit, p)
      else case reserve p pages of
        (Err e, p') \<Rightarrow> (Err e, p')
      | (Ok _, p') \<Rightarrow>
          (Ok \<lparr>dr_parent_key = owner_key p', dr_parent = identity p',
               dr_child_depth = depth p' + 1, dr_pages = pages\<rparr>, p'))"

text \<open>\<open>map_err(|error| TokenError::new(error, token))\<close>\<close>

fun with_token :: "'t \<Rightarrow> ('a, pool_error) result \<Rightarrow> ('a, 't token_error) result" where
  "with_token t (Ok x) = Ok x"
| "with_token t (Err e) = Err (TokenError e t)"

definition rollback_charge ::
  "pool_state \<Rightarrow> charge_reservation \<Rightarrow>
     (unit, charge_reservation token_error) result \<times> pool_state" where
  "rollback_charge p r =
     apfst (with_token r) (rollback p (cr_owner_key r) (cr_owner r) (cr_pages r))"

definition rollback_delegation ::
  "pool_state \<Rightarrow> delegation_reservation \<Rightarrow>
     (unit, delegation_reservation token_error) result \<times> pool_state" where
  "rollback_delegation p r =
     apfst (with_token r) (rollback p (dr_parent_key r) (dr_parent r) (dr_pages r))"

definition commit_charge ::
  "pool_state \<Rightarrow> charge_reservation \<Rightarrow>
     (allocated_credit, charge_reservation token_error) result \<times> pool_state" where
  "commit_charge p r =
     (case commit_reserved p (cr_owner_key r) (cr_owner r) (cr_pages r) Allocated of
        (Err e, p') \<Rightarrow> (Err (TokenError e r), p')
      | (Ok _, p') \<Rightarrow>
          (Ok \<lparr>ac_owner_key = owner_key p', ac_owner = identity p', ac_pages = cr_pages r\<rparr>, p'))"

definition commit_child ::
  "pool_state \<Rightarrow> prepared_child \<Rightarrow>
     (pool_state, prepared_child token_error) result \<times> pool_state" where
  "commit_child p prepared =
     (case commit_reserved p (pc_parent_key prepared) (pc_parent prepared) (pc_pages prepared)
             Delegated of
        (Err e, p') \<Rightarrow> (Err (TokenError e prepared), p')
      | (Ok _, p') \<Rightarrow>
          (Ok ((pc_state prepared)\<lparr>parent_credit :=
              Some \<lparr>dc_parent_key = owner_key p', dc_parent = identity p',
                    dc_pages = pc_pages prepared\<rparr>\<rparr>), p'))"

definition rollback_child ::
  "pool_state \<Rightarrow> prepared_child \<Rightarrow>
     (unit, prepared_child token_error) result \<times> pool_state" where
  "rollback_child p prepared =
     apfst (with_token prepared)
       (rollback p (pc_parent_key prepared) (pc_parent prepared) (pc_pages prepared))"

definition into_parent_credit ::
  "pool_state \<Rightarrow> (delegated_credit option, pool_state token_error) result" where
  "into_parent_credit p =
     (if \<not> is_fully_available p then Err (TokenError InvariantViolation p)
      else if \<not> (case (parent_identity p, parent_credit p) of
           (None, None) \<Rightarrow> True
         | (Some parent, Some credit) \<Rightarrow> dc_parent credit = parent \<and> dc_pages credit = total p
         | _ \<Rightarrow> False)
      then Err (TokenError InvariantViolation p)
      else Ok (parent_credit p))"

definition return_charge ::
  "pool_state \<Rightarrow> allocated_credit \<Rightarrow>
     (unit, allocated_credit token_error) result \<times> pool_state" where
  "return_charge p c =
     apfst (with_token c) (return_credit p (ac_owner_key c) (ac_owner c) (ac_pages c) Allocated)"

definition return_delegation ::
  "pool_state \<Rightarrow> delegated_credit \<Rightarrow>
     (unit, delegated_credit token_error) result \<times> pool_state" where
  "return_delegation p c =
     apfst (with_token c) (return_credit p (dc_parent_key c) (dc_parent c) (dc_pages c) Delegated)"

section \<open>One pool\<close>

text \<open>The closing equation, over natural numbers: nothing is lost to wrap-around.\<close>

definition columns :: "pool_state \<Rightarrow> nat" where
  "columns p = unat (available p) + unat (reserved p) + unat (allocated p) + unat (delegated p)"

definition closed :: "pool_state \<Rightarrow> bool" where
  "closed p \<longleftrightarrow> columns p = unat (total p)"

text \<open>What no column movement changes.\<close>

definition same_frame :: "pool_state \<Rightarrow> pool_state \<Rightarrow> bool" where
  "same_frame p q \<longleftrightarrow>
     owner_key q = owner_key p \<and> identity q = identity p \<and> total q = total p \<and>
     parent_identity q = parent_identity p \<and> parent_credit q = parent_credit p \<and>
     depth q = depth p"

lemma closes_snapshot: "closes (snapshot p) \<longleftrightarrow> closed p"
proof -
  have fits: "unat (total p) < 2 ^ 64" "unat (available p) < 2 ^ 64"
    using unsigned_less [of "total p"] unsigned_less [of "available p"] by simp_all
  show ?thesis
    unfolding closes_def closed_def columns_def snapshot_def
    using fits
    by (auto simp: checked_add_def unat_word_ariths word_unat_eq_iff split: if_splits)
qed

text \<open>The four column movements, inverted on success; an error changes nothing.\<close>

lemma reserve_OkD:
  "reserve p n = (Ok u, p') \<Longrightarrow>
     n \<noteq> 0 \<and> n \<le> available p \<and> unat (reserved p) + unat n < 2 ^ 64 \<and>
     p' = p\<lparr>available := available p - n, reserved := reserved p + n\<rparr>"
  by (auto simp: reserve_def checked_add_def split: if_splits)

lemma validate_credit_Ok [simp]:
  "validate_credit p k i n = Ok u \<longleftrightarrow> k = owner_key p \<and> i = identity p \<and> n \<noteq> 0"
  by (auto simp: validate_credit_def)

lemma rollback_OkD:
  "rollback p k i n = (Ok u, p') \<Longrightarrow>
     k = owner_key p \<and> i = identity p \<and> n \<noteq> 0 \<and> n \<le> reserved p \<and>
     unat (available p) + unat n \<le> unat (total p) \<and>
     p' = p\<lparr>reserved := reserved p - n, available := available p + n\<rparr>"
  by (auto simp: rollback_def checked_add_def word_less_nat_alt unat_word_ariths
      word_le_nat_alt split: result.splits if_splits)

lemma commit_reserved_OkD:
  "commit_reserved p k i n a = (Ok u, p') \<Longrightarrow>
     k = owner_key p \<and> i = identity p \<and> n \<noteq> 0 \<and> n \<le> reserved p \<and>
     unat (account_of p a) + unat n < 2 ^ 64 \<and>
     p' = set_account (p\<lparr>reserved := reserved p - n\<rparr>) a (account_of p a + n)"
  by (auto simp: commit_reserved_def checked_add_def word_less_nat_alt
      word_le_nat_alt split: result.splits if_splits)

lemma return_credit_OkD:
  "return_credit p k i n a = (Ok u, p') \<Longrightarrow>
     k = owner_key p \<and> i = identity p \<and> n \<noteq> 0 \<and> n \<le> account_of p a \<and>
     unat (available p) + unat n \<le> unat (total p) \<and>
     p' = (set_account p a (account_of p a - n))\<lparr>available := available p + n\<rparr>"
  by (auto simp: return_credit_def checked_add_def word_less_nat_alt unat_word_ariths
      word_le_nat_alt split: result.splits if_splits)

lemma movement_errors_unchanged:
  "reserve p n = (Err e, p') \<Longrightarrow> p' = p"
  "rollback p k i n = (Err e, p') \<Longrightarrow> p' = p"
  "commit_reserved p k i n a = (Err e, p') \<Longrightarrow> p' = p"
  "return_credit p k i n a = (Err e, p') \<Longrightarrow> p' = p"
  by (auto simp: reserve_def rollback_def commit_reserved_def return_credit_def
      split: result.splits option.splits if_splits)

lemma reserve_effect:
  assumes "reserve p n = (Ok u, p')"
  shows "same_frame p p'" "columns p' = columns p"
    "unat (reserved p') = unat (reserved p) + unat n"
    "allocated p' = allocated p" "delegated p' = delegated p" "n \<noteq> 0"
  using reserve_OkD [OF assms]
  by (auto simp: same_frame_def columns_def unat_minus_le unat_word_ariths word_le_nat_alt)

lemma rollback_effect:
  assumes "rollback p k i n = (Ok u, p')"
  shows "same_frame p p'" "columns p' = columns p"
    "unat (reserved p) = unat (reserved p') + unat n"
    "allocated p' = allocated p" "delegated p' = delegated p"
    "k = owner_key p" "i = identity p" "n \<noteq> 0"
proof -
  note ok = rollback_OkD [OF assms]
  have "unat (available p) + unat n < 2 ^ 64"
    using ok unsigned_less [of "total p"] by (auto intro: le_less_trans)
  then have "unat (available p + n) = unat (available p) + unat n"
    by (simp add: unat_word_ariths)
  then show "same_frame p p'" "columns p' = columns p"
    "unat (reserved p) = unat (reserved p') + unat n"
    "allocated p' = allocated p" "delegated p' = delegated p"
    "k = owner_key p" "i = identity p" "n \<noteq> 0"
    using ok by (auto simp: same_frame_def columns_def unat_minus_le word_le_nat_alt)
qed

lemma commit_reserved_effect:
  assumes "commit_reserved p k i n a = (Ok u, p')"
  shows "same_frame p p'" "columns p' = columns p"
    "unat (reserved p) = unat (reserved p') + unat n"
    "unat (account_of p' a) = unat (account_of p a) + unat n"
    "a' \<noteq> a \<Longrightarrow> account_of p' a' = account_of p a'"
    "k = owner_key p" "i = identity p" "n \<noteq> 0"
  using commit_reserved_OkD [OF assms]
  by (cases a; cases a';
      auto simp: same_frame_def columns_def unat_minus_le unat_word_ariths word_le_nat_alt)+

lemma return_credit_effect:
  assumes "return_credit p k i n a = (Ok u, p')"
  shows "same_frame p p'" "columns p' = columns p" "reserved p' = reserved p"
    "unat (account_of p a) = unat (account_of p' a) + unat n"
    "a' \<noteq> a \<Longrightarrow> account_of p' a' = account_of p a'"
    "k = owner_key p" "i = identity p" "n \<noteq> 0"
proof -
  note ok = return_credit_OkD [OF assms]
  have "unat (available p) + unat n < 2 ^ 64"
    using ok unsigned_less [of "total p"] by (auto intro: le_less_trans)
  then have "unat (available p + n) = unat (available p) + unat n"
    by (simp add: unat_word_ariths)
  then show "same_frame p p'" "columns p' = columns p" "reserved p' = reserved p"
    "unat (account_of p a) = unat (account_of p' a) + unat n"
    "a' \<noteq> a \<Longrightarrow> account_of p' a' = account_of p a'"
    "k = owner_key p" "i = identity p" "n \<noteq> 0"
    using ok by (cases a; cases a';
        auto simp: same_frame_def columns_def unat_minus_le word_le_nat_alt)+
qed

lemma with_token_Ok [simp]:
  "apfst (with_token t) x = (Ok u, p) \<longleftrightarrow> x = (Ok u, p)"
  by (cases x; cases "fst x") auto

lemma with_token_Err:
  "apfst (with_token t) x = (Err e, p) \<longleftrightarrow> (\<exists>e'. x = (Err e', p) \<and> e = TokenError e' t)"
  by (cases x; cases "fst x") auto

end
