(* ===== verification/Memory_Pool_Tree.thy ===== *)
theory Memory_Pool_Tree
  imports Memory_Pool
begin

text \<open>
  A whole tree of memory pools with the tokens that callers hold: the transition system of
  the operations of \<open>os/memory_pool\<close>, its invariant, and the properties of every reachable
  state (closing, acceptance of outstanding tokens, conservation, retirement, errors).
\<close>

section \<open>A tree of pools and its outstanding tokens\<close>

text \<open>
  The pools in use, by owner key, and the tokens that some caller holds. Tokens have no
  constructor outside the crate and no \<open>Clone\<close>, so the five collections change only by the
  operations below: an operation that takes a token by value removes it, one that returns a
  token adds it. Errors change neither the pool nor the token
  (\<open>token_errors_lossless\<close>), so a step is a successful call.
\<close>

record pool_sys =
  next_key :: atomic_id64
  pools :: "owner_key \<Rightarrow> pool_state option"
  charges :: "charge_reservation multiset"
  delegations :: "delegation_reservation multiset"
  children :: "prepared_child multiset"
  credits :: "allocated_credit multiset"
  refunds :: "delegated_credit multiset"

definition empty_sys :: pool_sys where
  "empty_sys =
     \<lparr>next_key = 1, pools = Map.empty, charges = {#}, delegations = {#}, children = {#},
      credits = {#}, refunds = {#}\<rparr>"

inductive pool_step :: "pool_sys \<Rightarrow> pool_sys \<Rightarrow> bool" where
  new_root: "root ident n (next_key s) = (Ok p, ks) \<Longrightarrow>
     pool_step s (s\<lparr>next_key := ks, pools := (pools s)(owner_key p \<mapsto> p)\<rparr>)"
| charge: "pools s k = Some p \<Longrightarrow> reserve_charge p n = (Ok r, p') \<Longrightarrow>
     pool_step s (s\<lparr>pools := (pools s)(k \<mapsto> p'), charges := add_mset r (charges s)\<rparr>)"
| delegate: "pools s k = Some p \<Longrightarrow> reserve_delegation p n = (Ok r, p') \<Longrightarrow>
     pool_step s (s\<lparr>pools := (pools s)(k \<mapsto> p'), delegations := add_mset r (delegations s)\<rparr>)"
| undo_charge: "pools s k = Some p \<Longrightarrow> charges s = add_mset r M \<Longrightarrow>
     rollback_charge p r = (Ok (), p') \<Longrightarrow>
     pool_step s (s\<lparr>pools := (pools s)(k \<mapsto> p'), charges := M\<rparr>)"
| undo_delegation: "pools s k = Some p \<Longrightarrow> delegations s = add_mset r M \<Longrightarrow>
     rollback_delegation p r = (Ok (), p') \<Longrightarrow>
     pool_step s (s\<lparr>pools := (pools s)(k \<mapsto> p'), delegations := M\<rparr>)"
| commit: "pools s k = Some p \<Longrightarrow> charges s = add_mset r M \<Longrightarrow>
     commit_charge p r = (Ok c, p') \<Longrightarrow>
     pool_step s (s\<lparr>pools := (pools s)(k \<mapsto> p'), charges := M,
                    credits := add_mset c (credits s)\<rparr>)"
| prepare: "delegations s = add_mset r M \<Longrightarrow> prepare_child ident r (next_key s) = (Ok c, ks) \<Longrightarrow>
     pool_step s (s\<lparr>next_key := ks, delegations := M, children := add_mset c (children s)\<rparr>)"
| adopt: "pools s k = Some p \<Longrightarrow> children s = add_mset c M \<Longrightarrow>
     commit_child p c = (Ok q, p') \<Longrightarrow>
     pool_step s (s\<lparr>pools := (pools s)(k \<mapsto> p', owner_key q \<mapsto> q), children := M\<rparr>)"
| disown: "pools s k = Some p \<Longrightarrow> children s = add_mset c M \<Longrightarrow>
     rollback_child p c = (Ok (), p') \<Longrightarrow>
     pool_step s (s\<lparr>pools := (pools s)(k \<mapsto> p'), children := M\<rparr>)"
| split: "credits s = add_mset c M \<Longrightarrow> split_credit c n = (Ok d, c') \<Longrightarrow>
     pool_step s (s\<lparr>credits := add_mset c' (add_mset d M)\<rparr>)"
| merge: "credits s = add_mset c (add_mset d M) \<Longrightarrow> merge_credit c d = (Ok (), c') \<Longrightarrow>
     pool_step s (s\<lparr>credits := add_mset c' M\<rparr>)"
| give_back: "pools s k = Some p \<Longrightarrow> credits s = add_mset c M \<Longrightarrow>
     return_charge p c = (Ok (), p') \<Longrightarrow>
     pool_step s (s\<lparr>pools := (pools s)(k \<mapsto> p'), credits := M\<rparr>)"
| retire: "pools s k = Some p \<Longrightarrow> into_parent_credit p = Ok d \<Longrightarrow>
     pool_step s (s\<lparr>pools := (pools s)(k := None),
                    refunds := (case d of None \<Rightarrow> refunds s | Some c \<Rightarrow> add_mset c (refunds s))\<rparr>)"
| refund: "pools s k = Some p \<Longrightarrow> refunds s = add_mset c M \<Longrightarrow>
     return_delegation p c = (Ok (), p') \<Longrightarrow>
     pool_step s (s\<lparr>pools := (pools s)(k \<mapsto> p'), refunds := M\<rparr>)"

subsection \<open>The invariant\<close>

text \<open>Pages of the tokens in a collection that were issued under one owner key.\<close>

definition key_sum :: "('t \<Rightarrow> owner_key) \<Rightarrow> ('t \<Rightarrow> u64) \<Rightarrow> 't multiset \<Rightarrow> owner_key \<Rightarrow> nat" where
  "key_sum key pages M k = (\<Sum>t\<in>#M. if key t = k then unat (pages t) else 0)"

text \<open>What one pool holds of the pages its parent with key \<open>k\<close> delegated.\<close>

definition child_share :: "owner_key \<Rightarrow> pool_state option \<Rightarrow> nat" where
  "child_share k q =
     (case q of
        None \<Rightarrow> 0
      | Some p \<Rightarrow> (case parent_credit p of
                     None \<Rightarrow> 0
                   | Some d \<Rightarrow> if dc_parent_key d = k then unat (dc_pages d) else 0))"

definition child_sum :: "(owner_key \<Rightarrow> pool_state option) \<Rightarrow> owner_key \<Rightarrow> nat" where
  "child_sum ps k = (\<Sum>c\<in>UNIV. child_share k (ps c))"

text \<open>A token is live when the pool it was issued by is in use.\<close>

definition live :: "(owner_key \<Rightarrow> pool_state option) \<Rightarrow> owner_key \<Rightarrow> pool_id \<Rightarrow> u64 \<Rightarrow> bool" where
  "live ps key owner pages \<longleftrightarrow> pages \<noteq> 0 \<and> (\<exists>p. ps key = Some p \<and> identity p = owner)"

definition linked :: "(owner_key \<Rightarrow> pool_state option) \<Rightarrow> pool_state \<Rightarrow> bool" where
  "linked ps p \<longleftrightarrow>
     (case parent_credit p of
        None \<Rightarrow> parent_identity p = None
      | Some d \<Rightarrow> parent_identity p = Some (dc_parent d) \<and> dc_pages d = total p \<and>
                  live ps (dc_parent_key d) (dc_parent d) (dc_pages d))"

definition fresh_child :: "pool_sys \<Rightarrow> prepared_child \<Rightarrow> bool" where
  "fresh_child s c \<longleftrightarrow>
     (let q = pc_state c in
        pools s (owner_key q) = None \<and> owner_key q \<notin> unissued (next_key s) \<and> closed q \<and>
        total q = pc_pages c \<and> reserved q = 0 \<and> allocated q = 0 \<and> delegated q = 0 \<and>
        parent_identity q = Some (pc_parent c) \<and> parent_credit q = None)"

definition token_inv :: "pool_sys \<Rightarrow> bool" where
  "token_inv s \<longleftrightarrow>
     (\<forall>r\<in>#charges s. live (pools s) (cr_owner_key r) (cr_owner r) (cr_pages r)) \<and>
     (\<forall>r\<in>#delegations s. live (pools s) (dr_parent_key r) (dr_parent r) (dr_pages r)) \<and>
     (\<forall>c\<in>#children s. live (pools s) (pc_parent_key c) (pc_parent c) (pc_pages c)) \<and>
     (\<forall>c\<in>#credits s. live (pools s) (ac_owner_key c) (ac_owner c) (ac_pages c)) \<and>
     (\<forall>c\<in>#refunds s. live (pools s) (dc_parent_key c) (dc_parent c) (dc_pages c))"

definition child_inv :: "pool_sys \<Rightarrow> bool" where
  "child_inv s \<longleftrightarrow>
     (\<forall>c\<in>#children s. fresh_child s c) \<and>
     (\<forall>k. size (filter_mset (\<lambda>c. owner_key (pc_state c) = k) (children s)) \<le> 1)"

definition frame_inv :: "pool_sys \<Rightarrow> bool" where
  "frame_inv s \<longleftrightarrow>
     (\<forall>k p. pools s k = Some p \<longrightarrow>
        owner_key p = k \<and> k \<notin> unissued (next_key s) \<and> closed p \<and> linked (pools s) p)"

definition account_inv :: "pool_sys \<Rightarrow> bool" where
  "account_inv s \<longleftrightarrow>
     (\<forall>k p. pools s k = Some p \<longrightarrow>
        unat (reserved p) = key_sum cr_owner_key cr_pages (charges s) k
          + key_sum dr_parent_key dr_pages (delegations s) k
          + key_sum pc_parent_key pc_pages (children s) k \<and>
        unat (allocated p) = key_sum ac_owner_key ac_pages (credits s) k \<and>
        unat (delegated p) = key_sum dc_parent_key dc_pages (refunds s) k
          + child_sum (pools s) k)"

definition pool_inv :: "pool_sys \<Rightarrow> bool" where
  "pool_inv s \<longleftrightarrow> frame_inv s \<and> token_inv s \<and> child_inv s \<and> account_inv s"

subsection \<open>Every step keeps the invariant\<close>


lemma key_sum_add [simp]:
  "key_sum key pages (add_mset t M) k = (if key t = k then unat (pages t) else 0) + key_sum key pages M k"
  by (simp add: key_sum_def)

lemma key_sum_empty [simp]: "key_sum key pages {#} k = 0"
  by (simp add: key_sum_def)

lemma child_sum_update:
  "child_sum (ps(c := q)) k + child_share k (ps c) = child_sum ps k + child_share k q"
  unfolding child_sum_def by (rule sum_UNIV_update)

lemma child_sum_frame:
  assumes "pools s c = Some p" "same_frame p p'"
  shows "child_sum ((pools s)(c \<mapsto> p')) = child_sum (pools s)"
proof
  fix k
  have "child_share k (Some p') = child_share k (Some p)"
    using assms(2) by (simp add: child_share_def same_frame_def)
  then show "child_sum ((pools s)(c \<mapsto> p')) k = child_sum (pools s) k"
    using child_sum_update [of "pools s" c "Some p'" k] assms(1) by simp
qed

lemma live_frame:
  "pools s c = Some p \<Longrightarrow> same_frame p p' \<Longrightarrow> live ((pools s)(c \<mapsto> p')) = live (pools s)"
  by (auto simp: live_def same_frame_def fun_eq_iff)

lemma linked_frame:
  "pools s c = Some p \<Longrightarrow> same_frame p p' \<Longrightarrow> linked ((pools s)(c \<mapsto> p')) = linked (pools s)"
  unfolding linked_def fun_eq_iff by (simp only: live_frame) simp

lemma linked_same: "same_frame p p' \<Longrightarrow> linked ps p' = linked ps p"
  by (auto simp: linked_def same_frame_def split: option.splits)

lemma move_frame_inv:
  assumes inv: "frame_inv s" and p: "pools s k = Some p" and same: "same_frame p p'"
    and "columns p' = columns p" and s': "pools s' = (pools s)(k \<mapsto> p')" "next_key s' = next_key s"
  shows "frame_inv s'"
proof -
  have "closed p' = closed p"
    using same assms(4) by (simp add: closed_def same_frame_def)
  moreover have "owner_key p' = owner_key p"
    using same by (simp add: same_frame_def)
  ultimately show ?thesis
    using inv p unfolding frame_inv_def s' linked_frame [OF p same]
    by (simp add: linked_same [OF same])
qed

lemma move_child_inv:
  assumes "child_inv s" "pools s k = Some p" 
    "pools s' = (pools s)(k \<mapsto> p')" "next_key s' = next_key s" "children s' \<subseteq># children s"
  shows "child_inv s'"
proof -
  have "fresh_child s' c" if "c \<in># children s'" for c
  proof -
    have "fresh_child s c"
      using that assms(1) mset_subset_eqD [OF assms(5)] by (auto simp: child_inv_def)
    then show ?thesis
      using assms(2,3,4) by (auto simp: fresh_child_def Let_def)
  qed
  moreover have "size (filter_mset P (children s')) \<le> size (filter_mset P (children s))" for P
    using assms(5) by (simp add: multiset_filter_mono size_mset_mono)
  ultimately show ?thesis
    using assms(1) unfolding child_inv_def by (meson le_trans)
qed

lemma move_inv:
  assumes inv: "pool_inv s" and p: "pools s k = Some p" and same: "same_frame p p'"
    and cols: "columns p' = columns p"
    and s': "pools s' = (pools s)(k \<mapsto> p')" "next_key s' = next_key s"
    and sub: "children s' \<subseteq># children s"
    and tok: "token_inv (s'\<lparr>pools := pools s\<rparr>)"
    and acc: "account_inv s'"
  shows "pool_inv s'"
  using move_frame_inv [OF _ p same cols s'] move_child_inv [OF _ p s' sub] tok acc inv
  by (simp add: pool_inv_def token_inv_def s' live_frame [OF p same])

lemma pool_frame:
  assumes "pool_inv s" "pools s k = Some p" "same_frame p p'"
  shows "owner_key p = k" "owner_key p' = k" "identity p' = identity p" "closed p"
  using assms by (simp_all add: pool_inv_def frame_inv_def same_frame_def)

lemma charge_inv:
  assumes inv: "pool_inv s" and p: "pools s k = Some p" and r: "reserve_charge p n = (Ok r, p')"
  shows "pool_inv (s\<lparr>pools := (pools s)(k \<mapsto> p'), charges := add_mset r (charges s)\<rparr>)"
proof -
  from r obtain u where u: "reserve p n = (Ok u, p')" and
    r': "r = \<lparr>cr_owner_key = owner_key p', cr_owner = identity p', cr_pages = n\<rparr>"
    by (auto simp: reserve_charge_def split: prod.splits result.splits)
  note eff = reserve_effect [OF u]
  note k = pool_frame [OF inv p eff(1)]
  have "live (pools s) k (identity p) n"
    using p eff by (simp add: live_def)
  then show ?thesis
    by (intro move_inv [OF inv p eff(1,2)])
      (use inv p in \<open>simp_all add: pool_inv_def token_inv_def account_inv_def
         child_sum_frame [OF p eff(1)] r' k eff\<close>)
qed

lemma delegate_inv:
  assumes inv: "pool_inv s" and p: "pools s k = Some p"
    and r: "reserve_delegation p n = (Ok r, p')"
  shows "pool_inv (s\<lparr>pools := (pools s)(k \<mapsto> p'), delegations := add_mset r (delegations s)\<rparr>)"
proof -
  from r obtain u where u: "reserve p n = (Ok u, p')" and
    r': "r = \<lparr>dr_parent_key = owner_key p', dr_parent = identity p',
           dr_child_depth = depth p' + 1, dr_pages = n\<rparr>"
    by (auto simp: reserve_delegation_def split: prod.splits result.splits if_splits)
  note eff = reserve_effect [OF u]
  note k = pool_frame [OF inv p eff(1)]
  have "live (pools s) k (identity p) n"
    using p eff by (simp add: live_def)
  then show ?thesis
    by (intro move_inv [OF inv p eff(1,2)])
      (use inv p in \<open>simp_all add: pool_inv_def token_inv_def account_inv_def
         child_sum_frame [OF p eff(1)] r' k eff\<close>)
qed

lemma undo_charge_inv:
  assumes inv: "pool_inv s" and p: "pools s k = Some p" and M: "charges s = add_mset r M"
    and r: "rollback_charge p r = (Ok (), p')"
  shows "pool_inv (s\<lparr>pools := (pools s)(k \<mapsto> p'), charges := M\<rparr>)"
proof -
  have "rollback p (cr_owner_key r) (cr_owner r) (cr_pages r) = (Ok (), p')"
    using r by (simp add: rollback_charge_def)
  note eff = rollback_effect [OF this]
  note k = pool_frame [OF inv p eff(1)]
  show ?thesis
    by (intro move_inv [OF inv p eff(1,2)])
      (use inv p eff(3) in \<open>auto simp: pool_inv_def token_inv_def account_inv_def
         child_sum_frame [OF p eff(1)] M k eff(4-7) split: if_splits\<close>)
qed


lemma undo_delegation_inv:
  assumes inv: "pool_inv s" and p: "pools s k = Some p" and M: "delegations s = add_mset r M"
    and r: "rollback_delegation p r = (Ok (), p')"
  shows "pool_inv (s\<lparr>pools := (pools s)(k \<mapsto> p'), delegations := M\<rparr>)"
proof -
  have "rollback p (dr_parent_key r) (dr_parent r) (dr_pages r) = (Ok (), p')"
    using r by (simp add: rollback_delegation_def)
  note eff = rollback_effect [OF this]
  note k = pool_frame [OF inv p eff(1)]
  show ?thesis
    by (intro move_inv [OF inv p eff(1,2)])
      (use inv p eff(3) in \<open>auto simp: pool_inv_def token_inv_def account_inv_def
         child_sum_frame [OF p eff(1)] M k eff(4-7) split: if_splits\<close>)
qed

lemma disown_inv:
  assumes inv: "pool_inv s" and p: "pools s k = Some p" and M: "children s = add_mset c M"
    and r: "rollback_child p c = (Ok (), p')"
  shows "pool_inv (s\<lparr>pools := (pools s)(k \<mapsto> p'), children := M\<rparr>)"
proof -
  have "rollback p (pc_parent_key c) (pc_parent c) (pc_pages c) = (Ok (), p')"
    using r by (simp add: rollback_child_def)
  note eff = rollback_effect [OF this]
  note k = pool_frame [OF inv p eff(1)]
  show ?thesis
    by (intro move_inv [OF inv p eff(1,2)])
      (use inv p eff(3) in \<open>auto simp: pool_inv_def token_inv_def account_inv_def
         child_sum_frame [OF p eff(1)] M k eff(4-7) split: if_splits\<close>)
qed

lemma commit_inv:
  assumes inv: "pool_inv s" and p: "pools s k = Some p" and M: "charges s = add_mset r M"
    and r: "commit_charge p r = (Ok c, p')"
  shows "pool_inv (s\<lparr>pools := (pools s)(k \<mapsto> p'), charges := M,
                    credits := add_mset c (credits s)\<rparr>)"
proof -
  from r obtain u where
    u: "commit_reserved p (cr_owner_key r) (cr_owner r) (cr_pages r) Allocated = (Ok u, p')"
    and c: "c = \<lparr>ac_owner_key = owner_key p', ac_owner = identity p', ac_pages = cr_pages r\<rparr>"
    by (auto simp: commit_charge_def split: prod.splits result.splits)
  note eff = commit_reserved_effect [OF u]
  note k = pool_frame [OF inv p eff(1)]
  have d: "delegated p' = delegated p"
    using eff(5) [of Delegated] by simp
  show ?thesis
    by (intro move_inv [OF inv p eff(1,2)])
      (use inv p eff(3,4,6,7) in \<open>auto simp: pool_inv_def token_inv_def account_inv_def
         child_sum_frame [OF p eff(1)] M k c d split: if_splits\<close>)
qed

lemma give_back_inv:
  assumes inv: "pool_inv s" and p: "pools s k = Some p" and M: "credits s = add_mset c M"
    and r: "return_charge p c = (Ok (), p')"
  shows "pool_inv (s\<lparr>pools := (pools s)(k \<mapsto> p'), credits := M\<rparr>)"
proof -
  have "return_credit p (ac_owner_key c) (ac_owner c) (ac_pages c) Allocated = (Ok (), p')"
    using r by (simp add: return_charge_def)
  note eff = return_credit_effect [OF this]
  note k = pool_frame [OF inv p eff(1)]
  have d: "delegated p' = delegated p"
    using eff(5) [of Delegated] by simp
  show ?thesis
    by (intro move_inv [OF inv p eff(1,2)])
      (use inv p eff(4) in \<open>auto simp: pool_inv_def token_inv_def account_inv_def
         child_sum_frame [OF p eff(1)] M k d eff(3,6,7) split: if_splits\<close>)
qed

lemma refund_inv:
  assumes inv: "pool_inv s" and p: "pools s k = Some p" and M: "refunds s = add_mset c M"
    and r: "return_delegation p c = (Ok (), p')"
  shows "pool_inv (s\<lparr>pools := (pools s)(k \<mapsto> p'), refunds := M\<rparr>)"
proof -
  have "return_credit p (dc_parent_key c) (dc_parent c) (dc_pages c) Delegated = (Ok (), p')"
    using r by (simp add: return_delegation_def)
  note eff = return_credit_effect [OF this]
  note k = pool_frame [OF inv p eff(1)]
  have d: "allocated p' = allocated p"
    using eff(5) [of Allocated] by simp
  show ?thesis
    by (intro move_inv [OF inv p eff(1,2)])
      (use inv p eff(4) in \<open>auto simp: pool_inv_def token_inv_def account_inv_def
         child_sum_frame [OF p eff(1)] M k d eff(3,6,7) split: if_splits\<close>)
qed

lemma split_inv:
  assumes inv: "pool_inv s" and M: "credits s = add_mset c M"
    and r: "split_credit c n = (Ok d, c')"
  shows "pool_inv (s\<lparr>credits := add_mset c' (add_mset d M)\<rparr>)"
proof -
  have c': "n \<noteq> 0" "n < ac_pages c" "c' = c\<lparr>ac_pages := ac_pages c - n\<rparr>"
    "d = \<lparr>ac_owner_key = ac_owner_key c, ac_owner = ac_owner c, ac_pages = n\<rparr>"
    using r by (auto simp: split_credit_def split: if_splits)
  then have "unat (ac_pages c - n) + unat n = unat (ac_pages c)" "ac_pages c - n \<noteq> 0"
    by (auto simp: unat_minus_le word_less_nat_alt word_le_nat_alt)
  with inv c' show ?thesis
    by (auto simp: pool_inv_def frame_inv_def child_inv_def fresh_child_def token_inv_def
        account_inv_def live_def M)
qed

lemma merge_inv:
  assumes inv: "pool_inv s" and M: "credits s = add_mset c (add_mset d M)"
    and r: "merge_credit c d = (Ok (), c')"
  shows "pool_inv (s\<lparr>credits := add_mset c' M\<rparr>)"
proof -
  from r obtain pages where
    m: "ac_owner_key c = ac_owner_key d" "checked_add (ac_pages c) (ac_pages d) = Some pages"
    "c' = c\<lparr>ac_pages := pages\<rparr>"
    by (auto simp: merge_credit_def split: if_splits option.splits)
  have sum: "unat pages = unat (ac_pages c) + unat (ac_pages d)"
    using checked_add_SomeD [OF m(2)] .
  have "ac_pages c \<noteq> 0"
    using inv by (simp add: pool_inv_def token_inv_def live_def M)
  then have "pages \<noteq> 0"
    using sum by (metis add_is_0 unat_eq_zero)
  with inv m sum show ?thesis
    by (auto simp: pool_inv_def frame_inv_def child_inv_def fresh_child_def token_inv_def
        account_inv_def live_def M)
qed


lemma key_sum_absent: "(\<And>t. t \<in># M \<Longrightarrow> key t \<noteq> k) \<Longrightarrow> key_sum key pages M k = 0"
  by (induction M) auto

lemma key_sum_zeroD:
  "key_sum key pages M k = 0 \<Longrightarrow> t \<in># M \<Longrightarrow> pages t \<noteq> 0 \<Longrightarrow> key t \<noteq> k"
  by (induction M) (auto simp: unat_eq_zero split: if_splits)

lemma live_without:
  "key_sum key pages M k = 0 \<Longrightarrow> \<forall>t\<in>#M. live ps (key t) (own t) (pages t) \<Longrightarrow>
     \<forall>t\<in>#M. live (ps(k := None)) (key t) (own t) (pages t)"
  by (auto simp: live_def dest: key_sum_zeroD)

lemma child_sum_zeroD:
  "child_sum ps k = 0 \<Longrightarrow> child_share k (ps c) = 0"
  by (simp add: child_sum_def)

lemma pool_linked:
  assumes "pool_inv s" "pools s c = Some p" "parent_credit p = Some d"
  shows "live (pools s) (dc_parent_key d) (dc_parent d) (dc_pages d)"
    "parent_identity p = Some (dc_parent d)" "dc_pages d = total p"
proof -
  have "linked (pools s) p"
    using assms(1,2) by (simp add: pool_inv_def frame_inv_def)
  then show "live (pools s) (dc_parent_key d) (dc_parent d) (dc_pages d)"
    "parent_identity p = Some (dc_parent d)" "dc_pages d = total p"
    using assms(3) unfolding linked_def by auto
qed

lemma pool_accounts:
  assumes "pool_inv s" "pools s k = Some p"
  shows "unat (reserved p) = key_sum cr_owner_key cr_pages (charges s) k
      + key_sum dr_parent_key dr_pages (delegations s) k
      + key_sum pc_parent_key pc_pages (children s) k"
    "unat (allocated p) = key_sum ac_owner_key ac_pages (credits s) k"
    "unat (delegated p) = key_sum dc_parent_key dc_pages (refunds s) k + child_sum (pools s) k"
  using assms by (simp_all add: pool_inv_def account_inv_def)

lemma child_share_absent:
  "pool_inv s \<Longrightarrow> pools s k = None \<Longrightarrow> child_share k (pools s c) = 0"
  using pool_linked by (fastforce simp: child_share_def live_def split: option.splits)

lemma child_sum_absent: "pool_inv s \<Longrightarrow> pools s k = None \<Longrightarrow> child_sum (pools s) k = 0"
  by (simp add: child_sum_def child_share_absent)

lemma key_sums_absent:
  assumes "pool_inv s" "pools s k = None"
  shows "key_sum cr_owner_key cr_pages (charges s) k = 0"
    "key_sum dr_parent_key dr_pages (delegations s) k = 0"
    "key_sum pc_parent_key pc_pages (children s) k = 0"
    "key_sum ac_owner_key ac_pages (credits s) k = 0"
    "key_sum dc_parent_key dc_pages (refunds s) k = 0"
  using assms by (auto intro!: key_sum_absent simp: pool_inv_def token_inv_def live_def)

lemma mint_Ok:
  assumes "mint_owner_key ks = (Ok k, ks')"
  shows "k \<in> unissued ks" "unissued ks' = unissued ks - {k}"
  using assms id64.issue [of ks k ks']
  by (auto simp: mint_owner_key_def split: prod.splits option.splits if_splits)

lemma live_new: "pools s k = None \<Longrightarrow> live (pools s) j i n \<Longrightarrow> live ((pools s)(k \<mapsto> q)) j i n"
  by (auto simp: live_def)

lemma linked_new:
  "pools s k = None \<Longrightarrow> linked (pools s) p \<Longrightarrow> linked ((pools s)(k \<mapsto> q)) p"
  by (auto simp: linked_def live_new split: option.splits)

text \<open>A new pool under an unused key, with nothing reserved, allocated or delegated.\<close>

lemma new_pool_frame:
  assumes inv: "frame_inv s" and new: "pools s k = None" "owner_key q = k" "k \<notin> unissued ks"
    and ks: "unissued ks \<subseteq> unissued (next_key s)"
    and q: "closed q" "linked ((pools s)(k \<mapsto> q)) q"
    and s': "pools s' = (pools s)(k \<mapsto> q)" "next_key s' = ks"
  shows "frame_inv s'"
  using inv new ks q linked_new [OF new(1)] by (auto simp: frame_inv_def s')

lemma new_root_inv:
  assumes inv: "pool_inv s" and r: "root ident n (next_key s) = (Ok p, ks)"
  shows "pool_inv (s\<lparr>next_key := ks, pools := (pools s)(owner_key p \<mapsto> p)\<rparr>)" (is "pool_inv ?t")
proof -
  from r have mint: "mint_owner_key (next_key s) = (Ok (owner_key p), ks)"
    and p: "closed p" "parent_identity p = None" "parent_credit p = None"
      "reserved p = 0" "allocated p = 0" "delegated p = 0"
    by (auto simp: root_def closed_def columns_def split: prod.splits result.splits if_splits)
  note k = mint_Ok [OF mint]
  have new: "pools s (owner_key p) = None"
    using inv k(1) by (cases "pools s (owner_key p)") (auto simp: pool_inv_def frame_inv_def)
  have "frame_inv ?t"
    by (rule new_pool_frame [OF _ new, of p ks])
      (use inv k p in \<open>auto simp: linked_def pool_inv_def\<close>)
  moreover have "child_inv ?t"
    using inv k by (auto simp: pool_inv_def child_inv_def fresh_child_def Let_def)
  moreover have "token_inv ?t"
    using inv live_new [OF new] by (simp add: pool_inv_def token_inv_def)
  moreover have "child_sum ((pools s)(owner_key p \<mapsto> p)) = child_sum (pools s)"
    using child_sum_update [of "pools s" "owner_key p" "Some p"] new p
    by (auto simp: child_share_def fun_eq_iff)
  then have "account_inv ?t"
    using inv key_sums_absent [OF inv new] child_sum_absent [OF inv new] p
    by (auto simp: pool_inv_def account_inv_def)
  ultimately show ?thesis by (simp add: pool_inv_def)
qed

lemma prepare_inv:
  assumes inv: "pool_inv s" and M: "delegations s = add_mset r M"
    and r: "prepare_child ident r (next_key s) = (Ok c, ks)"
  shows "pool_inv (s\<lparr>next_key := ks, delegations := M, children := add_mset c (children s)\<rparr>)"
    (is "pool_inv ?t")
proof -
  let ?k = "owner_key (pc_state c)"
  from r have mint: "mint_owner_key (next_key s) = (Ok ?k, ks)"
    and c: "pc_parent_key c = dr_parent_key r" "pc_parent c = dr_parent r" "pc_pages c = dr_pages r"
      "closed (pc_state c)" "total (pc_state c) = dr_pages r" "reserved (pc_state c) = 0"
      "allocated (pc_state c) = 0" "delegated (pc_state c) = 0"
      "parent_identity (pc_state c) = Some (dr_parent r)" "parent_credit (pc_state c) = None"
    by (auto simp: prepare_child_def closed_def columns_def
        split: prod.splits result.splits if_splits)
  note k = mint_Ok [OF mint]
  have new: "pools s ?k = None"
    using inv k(1) by (cases "pools s ?k") (auto simp: pool_inv_def frame_inv_def)
  have unused: "filter_mset (\<lambda>d. owner_key (pc_state d) = ?k) (children s) = {#}"
    using inv k(1)
    by (auto simp: filter_mset_eq_mempty_iff pool_inv_def child_inv_def fresh_child_def Let_def)
  have "frame_inv ?t"
    using inv k by (auto simp: pool_inv_def frame_inv_def)
  moreover have "child_inv ?t"
    using inv k c new unused
    by (auto simp: pool_inv_def child_inv_def fresh_child_def Let_def)
  moreover have "token_inv ?t" "account_inv ?t"
    using inv c by (auto simp: pool_inv_def token_inv_def account_inv_def M)
  ultimately show ?thesis by (simp add: pool_inv_def)
qed


lemma adopt_child_inv:
  assumes inv: "child_inv s" and p: "pools s k = Some p" and M: "children s = add_mset c M"
  shows "child_inv (s\<lparr>pools := (pools s)(k \<mapsto> p', owner_key (pc_state c) \<mapsto> q), children := M\<rparr>)"
    (is "child_inv ?t")
proof -
  let ?k = "owner_key (pc_state c)"
  have one: "size {#x \<in># children s. owner_key (pc_state x) = ?k#} \<le> 1"
    using inv by (simp add: child_inv_def)
  have "fresh_child ?t d" if "d \<in># M" for d
  proof -
    have "{#x \<in># M. owner_key (pc_state x) = ?k#} = {#}"
      using one by (simp add: M)
    then have "owner_key (pc_state d) \<noteq> ?k"
      using that by (auto simp: filter_mset_eq_mempty_iff)
    moreover have "fresh_child s d"
      using inv that by (simp add: child_inv_def M)
    ultimately show ?thesis
      using p by (auto simp: fresh_child_def Let_def)
  qed
  moreover have "size {#x \<in># M. owner_key (pc_state x) = j#} \<le> 1" for j
  proof -
    have "size {#x \<in># M. owner_key (pc_state x) = j#}
        \<le> size {#x \<in># children s. owner_key (pc_state x) = j#}"
      by (simp add: M)
    also have "\<dots> \<le> 1"
      using inv by (simp add: child_inv_def)
    finally show ?thesis .
  qed
  ultimately show ?thesis
    by (simp add: child_inv_def)
qed

text \<open>What a successful \<open>commit_child\<close> says of the parent before and after and of the child.\<close>

lemma commit_child_facts:
  assumes inv: "pool_inv s" and p: "pools s k = Some p" and M: "children s = add_mset c M"
    and r: "commit_child p c = (Ok q, p')"
  shows "same_frame p p'" "columns p' = columns p" "allocated p' = allocated p"
    "unat (reserved p) = unat (reserved p') + unat (pc_pages c)"
    "unat (delegated p') = unat (delegated p) + unat (pc_pages c)"
    "pc_parent_key c = k" "pools s (owner_key q) = None" "owner_key q \<noteq> k"
    "owner_key q = owner_key (pc_state c)" "owner_key q \<notin> unissued (next_key s)"
    "reserved q = 0" "allocated q = 0" "delegated q = 0" "closed q"
    "live (pools s) k (identity p) (pc_pages c)"
    "parent_credit q = Some \<lparr>dc_parent_key = k, dc_parent = identity p, dc_pages = pc_pages c\<rparr>"
    "parent_identity q = Some (identity p)" "total q = pc_pages c"
proof -
  from r obtain u where
    u: "commit_reserved p (pc_parent_key c) (pc_parent c) (pc_pages c) Delegated = (Ok u, p')"
    and q: "q = (pc_state c)\<lparr>parent_credit := Some \<lparr>dc_parent_key = owner_key p',
              dc_parent = identity p', dc_pages = pc_pages c\<rparr>\<rparr>"
    by (auto simp: commit_child_def split: prod.splits result.splits)
  note eff = commit_reserved_effect [OF u]
  note k = pool_frame [OF inv p eff(1)]
  have fresh: "fresh_child s c"
    using inv by (simp add: pool_inv_def child_inv_def M)
  show "same_frame p p'" "columns p' = columns p" "allocated p' = allocated p"
    "unat (reserved p) = unat (reserved p') + unat (pc_pages c)"
    "unat (delegated p') = unat (delegated p) + unat (pc_pages c)" "pc_parent_key c = k"
    using eff(1-4,6) eff(5) [of Allocated] k by simp_all
  show "pools s (owner_key q) = None" "owner_key q \<noteq> k" "owner_key q = owner_key (pc_state c)"
    "owner_key q \<notin> unissued (next_key s)" "reserved q = 0" "allocated q = 0"
    "delegated q = 0" "closed q" "parent_identity q = Some (identity p)" "total q = pc_pages c"
    using fresh p q eff(7) by (auto simp: fresh_child_def Let_def closed_def columns_def)
  show "parent_credit q = Some \<lparr>dc_parent_key = k, dc_parent = identity p, dc_pages = pc_pages c\<rparr>"
    using q k by simp
  show "live (pools s) k (identity p) (pc_pages c)"
    using p eff(8) by (simp add: live_def)
qed

lemma adopt_account_inv:
  assumes inv: "pool_inv s" and p: "pools s k = Some p" and M: "children s = add_mset c M"
    and r: "commit_child p c = (Ok q, p')"
  shows "account_inv (s\<lparr>pools := (pools s)(k \<mapsto> p', owner_key q \<mapsto> q), children := M\<rparr>)"
    (is "account_inv ?t")
proof -
  note f = commit_child_facts [OF assms]
  let ?k = "owner_key q" and ?ps = "(pools s)(k \<mapsto> p')"
  have sums: "child_sum (?ps(?k \<mapsto> q)) j
      = child_sum (pools s) j + (if j = k then unat (pc_pages c) else 0)" for j
    using child_sum_update [of ?ps ?k "Some q" j] f(7,8) child_sum_frame [OF p f(1)]
    by (simp add: child_share_def f(16))
  show ?thesis
    unfolding account_inv_def
  proof (intro allI impI)
    fix j x assume x: "pools ?t j = Some x"
    show "unat (reserved x) = key_sum cr_owner_key cr_pages (charges ?t) j
        + key_sum dr_parent_key dr_pages (delegations ?t) j
        + key_sum pc_parent_key pc_pages (children ?t) j \<and>
      unat (allocated x) = key_sum ac_owner_key ac_pages (credits ?t) j \<and>
      unat (delegated x) = key_sum dc_parent_key dc_pages (refunds ?t) j + child_sum (pools ?t) j"
    proof (cases "j = ?k")
      case True
      then have "x = q" using x by simp
      with True show ?thesis
        using key_sums_absent [OF inv f(7)] child_sum_absent [OF inv f(7)] f(8,11-13)
        by (simp add: sums M)
    next
      case other: False
      show ?thesis
      proof (cases "j = k")
        case True
        then have "x = p'" using x other by simp
        with True show ?thesis
          using pool_accounts [OF inv p] f(3-6) by (simp add: sums M)
      next
        case False
        then have "pools s j = Some x" using x other by simp
        from pool_accounts [OF inv this] False f(6) show ?thesis
          by (simp add: sums M)
      qed
    qed
  qed
qed

lemma adopt_inv:
  assumes inv: "pool_inv s" and p: "pools s k = Some p" and M: "children s = add_mset c M"
    and r: "commit_child p c = (Ok q, p')"
  shows "pool_inv (s\<lparr>pools := (pools s)(k \<mapsto> p', owner_key q \<mapsto> q), children := M\<rparr>)"
    (is "pool_inv ?t")
proof -
  note f = commit_child_facts [OF assms]
  let ?k = "owner_key q" and ?ps = "(pools s)(k \<mapsto> p')"
  define s1 where "s1 = s\<lparr>pools := ?ps\<rparr>"
  have k1: "pools s1 ?k = None"
    using f(7,8) by (simp add: s1_def)
  have live1: "live (pools s) j i n \<Longrightarrow> live (?ps(?k \<mapsto> q)) j i n" for j i n
    using live_new [OF k1] live_frame [OF p f(1)] by (simp add: s1_def)
  have lq: "linked (?ps(?k \<mapsto> q)) q"
    using live1 [OF f(15)] f(16-18) by (simp add: linked_def)
  have "frame_inv s1"
    by (rule move_frame_inv [OF _ p f(1,2)]) (use inv in \<open>simp_all add: s1_def pool_inv_def\<close>)
  then have "frame_inv ?t"
    by (rule new_pool_frame [OF _ k1, of q "next_key s"])
      (use lq f(10,14) in \<open>simp_all add: s1_def\<close>)
  moreover have "child_inv ?t"
    using adopt_child_inv [OF _ p M] inv by (simp add: pool_inv_def f(9))
  moreover have "token_inv ?t"
    using inv live1 by (simp add: pool_inv_def token_inv_def M)
  ultimately show ?thesis
    using adopt_account_inv [OF assms] by (simp add: pool_inv_def)
qed

lemma retire_quiet:
  assumes inv: "pool_inv s" and p: "pools s k = Some p" and r: "into_parent_credit p = Ok d"
  shows "key_sum cr_owner_key cr_pages (charges s) k = 0"
    "key_sum dr_parent_key dr_pages (delegations s) k = 0"
    "key_sum pc_parent_key pc_pages (children s) k = 0"
    "key_sum ac_owner_key ac_pages (credits s) k = 0"
    "key_sum dc_parent_key dc_pages (refunds s) k = 0"
    "child_sum (pools s) k = 0" "d = parent_credit p"
proof -
  have "d = parent_credit p" "reserved p = 0" "allocated p = 0" "delegated p = 0"
    using r by (auto simp: into_parent_credit_def is_fully_available_def split: if_splits)
  then show "key_sum cr_owner_key cr_pages (charges s) k = 0"
    "key_sum dr_parent_key dr_pages (delegations s) k = 0"
    "key_sum pc_parent_key pc_pages (children s) k = 0"
    "key_sum ac_owner_key ac_pages (credits s) k = 0"
    "key_sum dc_parent_key dc_pages (refunds s) k = 0"
    "child_sum (pools s) k = 0" "d = parent_credit p"
    using pool_accounts [OF inv p] by simp_all
qed

lemma retire_childless:
  assumes inv: "pool_inv s" and zero: "child_sum (pools s) k = 0"
    and c: "pools s c = Some x" "parent_credit x = Some e"
  shows "dc_parent_key e \<noteq> k"
  using child_sum_zeroD [OF zero, of c] pool_linked(1) [OF inv c] c
  by (auto simp: child_share_def live_def unat_eq_zero split: if_splits)

lemma retire_inv:
  assumes inv: "pool_inv s" and p: "pools s k = Some p" and r: "into_parent_credit p = Ok d"
  shows "pool_inv (s\<lparr>pools := (pools s)(k := None),
           refunds := (case d of None \<Rightarrow> refunds s | Some c \<Rightarrow> add_mset c (refunds s))\<rparr>)"
    (is "pool_inv ?t")
proof -
  note zero = retire_quiet [OF assms]
  note linkk = retire_childless [OF inv zero(6)]
  have live1: "live (pools s) j i n \<Longrightarrow> j \<noteq> k \<Longrightarrow> live ((pools s)(k := None)) j i n" for j i n
    by (simp add: live_def)
  have link1: "linked ((pools s)(k := None)) x" if "pools s c = Some x" for c x
  proof -
    have "linked (pools s) x"
      using inv that by (simp add: pool_inv_def frame_inv_def)
    then show ?thesis
      using linkk [OF that] live1 by (auto simp: linked_def split: option.splits)
  qed
  have "frame_inv ?t"
    using inv link1 by (simp add: pool_inv_def frame_inv_def)
  moreover have "child_inv ?t"
    using inv by (auto simp: pool_inv_def child_inv_def fresh_child_def Let_def)
  moreover have "token_inv ?t"
  proof -
    have "live ((pools s)(k := None)) (dc_parent_key e) (dc_parent e) (dc_pages e)"
      if "parent_credit p = Some e" for e
      by (rule live1 [OF pool_linked(1) [OF inv p that] linkk [OF p that]])
    with inv zero(1-5) [THEN live_without] show ?thesis
      by (simp add: pool_inv_def token_inv_def zero(7) split: option.splits)
  qed
  moreover have "account_inv ?t"
  proof -
    have "child_sum (pools s) j = child_sum ((pools s)(k := None)) j + child_share j (Some p)" for j
      using child_sum_update [of "pools s" k None j] p by (simp add: child_share_def)
    moreover have "key_sum dc_parent_key dc_pages (refunds ?t) j
        = key_sum dc_parent_key dc_pages (refunds s) j + child_share j (Some p)" for j
      by (simp add: child_share_def zero(7) split: option.splits)
    ultimately show ?thesis
      using pool_accounts [OF inv] by (simp add: account_inv_def)
  qed
  ultimately show ?thesis by (simp add: pool_inv_def)
qed


lemma pool_step_inv: "pool_inv s \<Longrightarrow> pool_step s t \<Longrightarrow> pool_inv t"
  by (erule pool_step.cases)
    (simp_all add: new_root_inv charge_inv delegate_inv undo_charge_inv undo_delegation_inv
      commit_inv prepare_inv adopt_inv disown_inv split_inv merge_inv give_back_inv
      retire_inv refund_inv del: fun_upd_apply)

lemma empty_sys_inv: "pool_inv empty_sys"
  by (simp add: pool_inv_def frame_inv_def token_inv_def child_inv_def account_inv_def
      empty_sys_def)

interpretation pool_tree: inv_system "\<lambda>s. s = empty_sys" pool_step pool_inv
  by unfold_locales (simp_all add: empty_sys_inv pool_step_inv)



lemma key_sum_ge: "t \<in># M \<Longrightarrow> unat (pages t) \<le> key_sum key pages M (key t)"
  by (auto dest!: multi_member_split)

lemma rollback_OkI:
  assumes "closed p" "n \<noteq> 0" "n \<le> reserved p"
  shows "\<exists>p'. rollback p (owner_key p) (identity p) n = (Ok (), p')"
proof -
  have "unat (available p) + unat n \<le> unat (total p)" "unat (total p) < 2 ^ 64"
    using assms unsigned_less [of "total p"] by (auto simp: closed_def columns_def word_le_nat_alt)
  then show ?thesis
    using assms by (auto simp: rollback_def validate_credit_def checked_add_def word_less_nat_alt
        word_le_nat_alt unat_word_ariths)
qed

lemma commit_reserved_OkI:
  assumes "closed p" "n \<noteq> 0" "n \<le> reserved p"
  shows "\<exists>p'. commit_reserved p (owner_key p) (identity p) n a = (Ok (), p')"
proof -
  have "unat (account_of p a) + unat n \<le> unat (total p)" "unat (total p) < 2 ^ 64"
    using assms unsigned_less [of "total p"]
    by (cases a; auto simp: closed_def columns_def word_le_nat_alt)+
  then show ?thesis
    using assms by (auto simp: commit_reserved_def validate_credit_def checked_add_def
        word_less_nat_alt word_le_nat_alt)
qed

lemma return_credit_OkI:
  assumes "closed p" "n \<noteq> 0" "n \<le> account_of p a"
  shows "\<exists>p'. return_credit p (owner_key p) (identity p) n a = (Ok (), p')"
proof -
  have "unat (available p) + unat n \<le> unat (total p)" "unat (total p) < 2 ^ 64"
    using assms unsigned_less [of "total p"]
    by (cases a; auto simp: closed_def columns_def word_le_nat_alt)+
  then show ?thesis
    using assms by (auto simp: return_credit_def validate_credit_def checked_add_def
        word_less_nat_alt word_le_nat_alt unat_word_ariths)
qed

lemma live_owner:
  assumes "pool_inv s" "live (pools s) k i n"
  obtains p where "pools s k = Some p" "owner_key p = k" "identity p = i" "closed p" "n \<noteq> 0"
  using assms by (auto simp: live_def pool_inv_def frame_inv_def)


text \<open>
  What a pool holds itself, and what it adds to the pages of the whole tree when it is a root.
\<close>

definition held :: "pool_state option \<Rightarrow> nat" where
  "held q = (case q of None \<Rightarrow> 0
     | Some p \<Rightarrow> unat (available p) + unat (reserved p) + unat (allocated p))"

definition root_total :: "pool_state option \<Rightarrow> nat" where
  "root_total q = (case q of None \<Rightarrow> 0
     | Some p \<Rightarrow> if parent_identity p = None then unat (total p) else 0)"

lemma key_sum_total:
  "(\<Sum>k\<in>UNIV. key_sum key pages M k) = (\<Sum>t\<in>#M. unat (pages t))"
  by (induction M) (simp_all add: sum.distrib)

lemma child_share_total:
  "(\<Sum>k\<in>UNIV. child_share k q) = (case q of None \<Rightarrow> 0 | Some p \<Rightarrow>
     (case parent_credit p of None \<Rightarrow> 0 | Some d \<Rightarrow> unat (dc_pages d)))"
  by (simp add: child_share_def split: option.splits)


section \<open>A run\<close>

text \<open>
  A concrete history: a root pool of ten pages, three of them charged, four of them
  delegated to a child, the charge committed and split.
\<close>

abbreviation demo_pool :: "u64 \<Rightarrow> u64 \<Rightarrow> u64 \<Rightarrow> u64 \<Rightarrow> pool_state" where
  "demo_pool av re al de \<equiv>
     \<lparr>owner_key = 1, identity = PoolId 1, parent_identity = None, depth = 1, total = 10,
      available = av, reserved = re, allocated = al, delegated = de, parent_credit = None\<rparr>"

abbreviation demo_charge :: charge_reservation where
  "demo_charge \<equiv> \<lparr>cr_owner_key = 1, cr_owner = PoolId 1, cr_pages = 3\<rparr>"

abbreviation demo_child :: prepared_child where
  "demo_child \<equiv>
     \<lparr>pc_parent_key = 1, pc_parent = PoolId 1, pc_pages = 4,
      pc_state = \<lparr>owner_key = 2, identity = PoolId 2, parent_identity = Some (PoolId 1),
        depth = 2, total = 4, available = 4, reserved = 0, allocated = 0, delegated = 0,
        parent_credit = None\<rparr>\<rparr>"

abbreviation demo_sys1 :: pool_sys where
  "demo_sys1 \<equiv> empty_sys\<lparr>next_key := 2, pools := [1 \<mapsto> demo_pool 10 0 0 0]\<rparr>"

abbreviation demo_sys2 :: pool_sys where
  "demo_sys2 \<equiv>
     empty_sys\<lparr>next_key := 2, pools := [1 \<mapsto> demo_pool 7 3 0 0], charges := {#demo_charge#}\<rparr>"

abbreviation demo_sys3 :: pool_sys where
  "demo_sys3 \<equiv>
     empty_sys\<lparr>next_key := 2, pools := [1 \<mapsto> demo_pool 7 0 3 0],
       credits := {#\<lparr>ac_owner_key = 1, ac_owner = PoolId 1, ac_pages = 3\<rparr>#}\<rparr>"

abbreviation demo_sys4 :: pool_sys where
  "demo_sys4 \<equiv>
     empty_sys\<lparr>next_key := 3, pools := [1 \<mapsto> demo_pool 6 4 0 0], children := {#demo_child#}\<rparr>"

lemma demo_sys1_step: "pool_step empty_sys demo_sys1"
  using pool_step.new_root [of "PoolId 1" 10 empty_sys "demo_pool 10 0 0 0" 2]
  by (simp add: empty_sys_def root_def mint_owner_key_def allocate_def)

lemma demo_sys2_step: "pool_step demo_sys1 demo_sys2"
  using pool_step.charge [of demo_sys1 1 "demo_pool 10 0 0 0" 3 demo_charge "demo_pool 7 3 0 0"]
  by (simp add: empty_sys_def reserve_charge_def reserve_def checked_add_def)

lemma demo_sys3_step: "pool_step demo_sys2 demo_sys3"
  using pool_step.commit [of demo_sys2 1 "demo_pool 7 3 0 0" demo_charge "{#}"
      "\<lparr>ac_owner_key = 1, ac_owner = PoolId 1, ac_pages = 3\<rparr>" "demo_pool 7 0 3 0"]
  by (simp add: empty_sys_def commit_charge_def commit_reserved_def validate_credit_def
      checked_add_def)

lemma demo_sys4_steps: "pool_step\<^sup>*\<^sup>* demo_sys1 demo_sys4"
proof -
  let ?r = "\<lparr>dr_parent_key = 1, dr_parent = PoolId 1, dr_child_depth = 2, dr_pages = 4\<rparr>"
  let ?s = "demo_sys1\<lparr>pools := [1 \<mapsto> demo_pool 6 4 0 0], delegations := {#?r#}\<rparr>"
  have "pool_step demo_sys1 ?s"
    using pool_step.delegate [of demo_sys1 1 "demo_pool 10 0 0 0" 4 ?r "demo_pool 6 4 0 0"]
    by (simp add: empty_sys_def reserve_delegation_def MAX_DEPTH_def reserve_def checked_add_def
        word_le_nat_alt)
  moreover have "pool_step ?s demo_sys4"
    using pool_step.prepare [of ?s ?r "{#}" "PoolId 2" demo_child 3]
    by (simp add: empty_sys_def prepare_child_def MAX_DEPTH_def mint_owner_key_def allocate_def
        word_le_nat_alt word_less_nat_alt)
  ultimately show ?thesis by simp
qed

lemma demo_reach:
  "pool_step\<^sup>*\<^sup>* empty_sys demo_sys1" "pool_step\<^sup>*\<^sup>* empty_sys demo_sys2"
  "pool_step\<^sup>*\<^sup>* empty_sys demo_sys3" "pool_step\<^sup>*\<^sup>* empty_sys demo_sys4"
  using demo_sys1_step demo_sys2_step demo_sys3_step demo_sys4_steps
  by (meson converse_rtranclp_into_rtranclp r_into_rtranclp rtranclp_trans)+

section \<open>Properties\<close>

text \<open>
  In every state that the crate's operations can reach, every pool closes: its
  available, reserved, allocated and delegated pages add up to its total without overflow.
\<close>

theorem pool_always_closes:
  assumes "pool_step\<^sup>*\<^sup>* empty_sys s" and "pools s k = Some p"
  shows "closes (snapshot p)"
  using pool_tree.inv_reachable [OF refl assms(1)] assms(2)
  by (simp add: closes_snapshot pool_inv_def frame_inv_def)

text \<open>
  Claim C2. A charge reservation that is outstanding is never lost and never refused: the
  pool that issued it is still in use, and rolls it back or commits it without an error.
\<close>

theorem reservation_accepted:
  assumes reach: "pool_step\<^sup>*\<^sup>* empty_sys s" and r: "r \<in># charges s"
  shows "\<exists>p. pools s (cr_owner_key r) = Some p \<and>
           (\<exists>p'. rollback_charge p r = (Ok (), p')) \<and>
           (\<exists>c p'. commit_charge p r = (Ok c, p') \<and> ac_pages c = cr_pages r)"
proof -
  have inv: "pool_inv s"
    by (rule pool_tree.inv_reachable [OF refl reach])
  then have "live (pools s) (cr_owner_key r) (cr_owner r) (cr_pages r)"
    using r by (simp add: pool_inv_def token_inv_def)
  from live_owner [OF inv this] obtain p where p: "pools s (cr_owner_key r) = Some p"
    "owner_key p = cr_owner_key r" "identity p = cr_owner r" "closed p" "cr_pages r \<noteq> 0" .
  have "cr_pages r \<le> reserved p"
    using pool_accounts(1) [OF inv p(1)] key_sum_ge [OF r, of cr_pages cr_owner_key]
    by (simp add: word_le_nat_alt)
  from rollback_OkI [OF p(4,5) this] commit_reserved_OkI [OF p(4,5) this, of Allocated] p
  show ?thesis
    by (auto simp: rollback_charge_def commit_charge_def)
qed

theorem reservation_accepted_witness:
  "demo_charge \<in># charges demo_sys2 \<and>
   (\<exists>p. pools demo_sys2 1 = Some p \<and> (\<exists>p'. rollback_charge p demo_charge = (Ok (), p')) \<and>
      (\<exists>c p'. commit_charge p demo_charge = (Ok c, p') \<and> ac_pages c = 3))"
proof -
  have "demo_charge \<in># charges demo_sys2" by simp
  with reservation_accepted [OF demo_reach(2) this] show ?thesis by simp
qed

text \<open>
  A prepared child can always be rolled back or committed into its parent; the
  committed child gets exactly the pages that were reserved, under an owner key that no
  pool in use has.
\<close>

theorem delegation_accepted:
  assumes reach: "pool_step\<^sup>*\<^sup>* empty_sys s" and c: "c \<in># children s"
  shows "\<exists>p. pools s (pc_parent_key c) = Some p \<and>
           (\<exists>p'. rollback_child p c = (Ok (), p')) \<and>
           (\<exists>q p'. commit_child p c = (Ok q, p') \<and> total q = pc_pages c \<and>
              pools s (owner_key q) = None)"
proof -
  have inv: "pool_inv s"
    by (rule pool_tree.inv_reachable [OF refl reach])
  then have "live (pools s) (pc_parent_key c) (pc_parent c) (pc_pages c)" and fresh: "fresh_child s c"
    using c by (simp_all add: pool_inv_def token_inv_def child_inv_def)
  from live_owner [OF inv this(1)] obtain p where p: "pools s (pc_parent_key c) = Some p"
    "owner_key p = pc_parent_key c" "identity p = pc_parent c" "closed p" "pc_pages c \<noteq> 0" .
  have "pc_pages c \<le> reserved p"
    using pool_accounts(1) [OF inv p(1)] key_sum_ge [OF c, of pc_pages pc_parent_key]
    by (simp add: word_le_nat_alt)
  from rollback_OkI [OF p(4,5) this] commit_reserved_OkI [OF p(4,5) this, of Delegated] p fresh
  show ?thesis
    by (auto simp: rollback_child_def commit_child_def fresh_child_def Let_def)
qed

text \<open>
  Allocated credit, however it was split and merged, can always be returned to the
  pool that issued it, and the delegated credit of a retired child to the parent.
\<close>

theorem credit_returnable:
  assumes reach: "pool_step\<^sup>*\<^sup>* empty_sys s"
  shows "(c \<in># credits s \<longrightarrow>
           (\<exists>p p'. pools s (ac_owner_key c) = Some p \<and> return_charge p c = (Ok (), p'))) \<and>
         (d \<in># refunds s \<longrightarrow>
           (\<exists>p p'. pools s (dc_parent_key d) = Some p \<and> return_delegation p d = (Ok (), p')))"
proof -
  have inv: "pool_inv s"
    by (rule pool_tree.inv_reachable [OF refl reach])
  have "\<exists>p p'. pools s (ac_owner_key c) = Some p \<and> return_charge p c = (Ok (), p')"
    if c: "c \<in># credits s"
  proof -
    have "live (pools s) (ac_owner_key c) (ac_owner c) (ac_pages c)"
      using inv c by (simp add: pool_inv_def token_inv_def)
    from live_owner [OF inv this] obtain p where p: "pools s (ac_owner_key c) = Some p"
      "owner_key p = ac_owner_key c" "identity p = ac_owner c" "closed p" "ac_pages c \<noteq> 0" .
    have "ac_pages c \<le> account_of p Allocated"
      using pool_accounts(2) [OF inv p(1)] key_sum_ge [OF c, of ac_pages ac_owner_key]
      by (simp add: word_le_nat_alt)
    from return_credit_OkI [OF p(4,5) this] p show ?thesis
      by (auto simp: return_charge_def)
  qed
  moreover have "\<exists>p p'. pools s (dc_parent_key d) = Some p \<and> return_delegation p d = (Ok (), p')"
    if d: "d \<in># refunds s"
  proof -
    have "live (pools s) (dc_parent_key d) (dc_parent d) (dc_pages d)"
      using inv d by (simp add: pool_inv_def token_inv_def)
    from live_owner [OF inv this] obtain p where p: "pools s (dc_parent_key d) = Some p"
      "owner_key p = dc_parent_key d" "identity p = dc_parent d" "closed p" "dc_pages d \<noteq> 0" .
    have "dc_pages d \<le> account_of p Delegated"
      using pool_accounts(3) [OF inv p(1)] key_sum_ge [OF d, of dc_pages dc_parent_key]
      by (simp add: word_le_nat_alt)
    from return_credit_OkI [OF p(4,5) this] p show ?thesis
      by (auto simp: return_delegation_def)
  qed
  ultimately show ?thesis by blast
qed

text \<open>
  Claim C1. Pages are conserved over the whole tree: what all pools hold themselves, plus
  the delegated credit of retired children on its way back, is exactly the sum of the
  totals of the root pools.
\<close>

theorem pages_conserved:
  assumes reach: "pool_step\<^sup>*\<^sup>* empty_sys s"
  shows "(\<Sum>k\<in>UNIV. held (pools s k)) + (\<Sum>d\<in>#refunds s. unat (dc_pages d))
           = (\<Sum>k\<in>UNIV. root_total (pools s k))"
proof -
  have inv: "pool_inv s"
    by (rule pool_tree.inv_reachable [OF refl reach])
  let ?share = "\<lambda>q. \<Sum>k\<in>UNIV. child_share k q"
  have pool: "held (pools s k) + key_sum dc_parent_key dc_pages (refunds s) k
      + child_sum (pools s) k = root_total (pools s k) + ?share (pools s k)" for k
  proof (cases "pools s k")
    case None
    then show ?thesis
      using key_sums_absent(5) [OF inv None] child_sum_absent [OF inv None]
      by (simp add: held_def root_total_def child_share_total)
  next
    case (Some p)
    have "columns p = unat (total p)" "linked (pools s) p"
      using inv Some by (auto simp: pool_inv_def frame_inv_def closed_def)
    then show ?thesis
      using pool_accounts(3) [OF inv Some] Some
      by (auto simp: held_def root_total_def child_share_total columns_def linked_def
          split: option.splits)
  qed
  have "(\<Sum>k\<in>UNIV. child_sum (pools s) k) = (\<Sum>c\<in>UNIV. ?share (pools s c))"
    unfolding child_sum_def by (rule sum.swap)
  moreover have "(\<Sum>k\<in>UNIV. held (pools s k) + key_sum dc_parent_key dc_pages (refunds s) k
      + child_sum (pools s) k) = (\<Sum>k\<in>UNIV. root_total (pools s k) + ?share (pools s k))"
    by (simp only: pool)
  ultimately show ?thesis
    by (simp add: sum.distrib key_sum_total)
qed



theorem pages_conserved_witness:
  "(\<Sum>k\<in>UNIV. held (pools demo_sys3 k)) + (\<Sum>d\<in>#refunds demo_sys3. unat (dc_pages d)) = 10"
proof -
  have "(\<Sum>k\<in>UNIV. root_total (pools demo_sys3 k)) = (\<Sum>k\<in>UNIV. if k = (1::u64) then 10 else 0)"
    by (rule sum.cong) (auto simp: root_total_def)
  then show ?thesis
    using pages_conserved [OF demo_reach(3)] by simp
qed

text \<open>
  Claim C3. Retiring a pool cannot strand or replay quota: when \<open>into_parent_credit\<close> succeeds,
  no token of the pool is outstanding and no pool in use was created from it.
\<close>

theorem retire_no_tokens:
  assumes reach: "pool_step\<^sup>*\<^sup>* empty_sys s" and p: "pools s k = Some p"
    and r: "into_parent_credit p = Ok d"
  shows "k \<notin># image_mset cr_owner_key (charges s) + image_mset dr_parent_key (delegations s)
           + image_mset pc_parent_key (children s) + image_mset ac_owner_key (credits s)
           + image_mset dc_parent_key (refunds s) \<and>
         (\<nexists>c q e. pools s c = Some q \<and> parent_credit q = Some e \<and> dc_parent_key e = k)"
proof -
  have inv: "pool_inv s"
    by (rule pool_tree.inv_reachable [OF refl reach])
  note zero = retire_quiet [OF inv p r]
  have "token_inv s"
    using inv by (simp add: pool_inv_def)
  then show ?thesis
    using zero(1-5) [THEN key_sum_zeroD] retire_childless [OF inv zero(6)]
    by (auto simp: token_inv_def live_def) blast
qed

theorem retire_no_tokens_witness:
  "into_parent_credit (demo_pool 10 0 0 0) = Ok None \<and>
   1 \<notin># image_mset cr_owner_key (charges demo_sys1)"
proof -
  have p: "pools demo_sys1 1 = Some (demo_pool 10 0 0 0)" by simp
  have r: "into_parent_credit (demo_pool 10 0 0 0) = Ok None"
    by (simp add: into_parent_credit_def is_fully_available_def)
  show ?thesis
    using r retire_no_tokens [OF demo_reach(1) p r] by simp
qed

text \<open>
  Claim C4. An operation that fails leaves the pool as it was and returns the very token it
  was given, so an error never loses quota.
\<close>

theorem token_errors_lossless:
  "(rollback_charge p r = (Err e1, p') \<longrightarrow> p' = p \<and> te_token e1 = r) \<and>
   (commit_charge p r = (Err e2, p') \<longrightarrow> p' = p \<and> te_token e2 = r) \<and>
   (rollback_delegation p dr = (Err e3, p') \<longrightarrow> p' = p \<and> te_token e3 = dr) \<and>
   (commit_child p pc = (Err e4, p') \<longrightarrow> p' = p \<and> te_token e4 = pc) \<and>
   (rollback_child p pc = (Err e5, p') \<longrightarrow> p' = p \<and> te_token e5 = pc) \<and>
   (return_charge p ac = (Err e6, p') \<longrightarrow> p' = p \<and> te_token e6 = ac) \<and>
   (return_delegation p dc = (Err e7, p') \<longrightarrow> p' = p \<and> te_token e7 = dc) \<and>
   (into_parent_credit p = Err e8 \<longrightarrow> te_token e8 = p) \<and>
   (merge_credit ac ac2 = (Err e9, ac') \<longrightarrow> ac' = ac \<and> te_token e9 = ac2)"
  by (intro conjI impI)
    (auto simp: rollback_charge_def commit_charge_def rollback_delegation_def commit_child_def
      rollback_child_def return_charge_def return_delegation_def into_parent_credit_def
      merge_credit_def with_token_Err movement_errors_unchanged
      split: prod.splits result.splits if_splits option.splits
      dest!: movement_errors_unchanged)

theorem token_errors_lossless_witness:
  "rollback_charge (demo_pool 9 1 0 0) demo_charge
     = (Err (TokenError InvariantViolation demo_charge), demo_pool 9 1 0 0) \<and>
   te_token (TokenError InvariantViolation demo_charge) = demo_charge"
proof -
  have "rollback_charge (demo_pool 9 1 0 0) demo_charge
     = (Err (TokenError InvariantViolation demo_charge), demo_pool 9 1 0 0)"
    by (simp add: rollback_charge_def rollback_def validate_credit_def word_less_nat_alt)
  with token_errors_lossless [of "demo_pool 9 1 0 0" demo_charge
      "TokenError InvariantViolation demo_charge" "demo_pool 9 1 0 0"]
  show ?thesis by simp
qed

end
