(* ===== verification/Object_Abi.thy ===== *)
theory Object_Abi
  imports Prelude
begin

text \<open>
  The object ABI of \<open>shared/erhino_shared/src/object.rs\<close>: the packing of a slot and a
  generation into a \<open>Handle\<close>, and the bit sets \<open>Rights\<close> and \<open>ObjectSignals\<close>.
\<close>

section \<open>Handles\<close>

datatype handle = Handle (raw: u64)

definition INVALID :: handle where
  "INVALID = Handle 0"

definition from_parts :: "u32 \<Rightarrow> u32 \<Rightarrow> handle" where
  "from_parts slot gen = Handle (push_bit 32 (ucast gen) OR ucast slot)"

definition slot :: "handle \<Rightarrow> u32" where
  "slot h = ucast (raw h)"

definition generation :: "handle \<Rightarrow> u32" where
  "generation h = ucast (drop_bit 32 (raw h))"

definition is_valid :: "handle \<Rightarrow> bool" where
  "is_valid h \<longleftrightarrow> raw h \<noteq> 0 \<and> slot h \<noteq> 0 \<and> generation h \<noteq> 0"

lemma slot_from_parts [simp]: "slot (from_parts s g) = s"
  unfolding slot_def from_parts_def
  by (rule bit_word_eqI) (auto simp: bit_simps)

lemma generation_from_parts [simp]: "generation (from_parts s g) = g"
  unfolding generation_def from_parts_def
  by (rule bit_word_eqI) (auto simp: bit_simps dest: bit_imp_le_length)

lemma from_parts_slot_generation: "from_parts (slot h) (generation h) = h"
proof (cases h)
  case (Handle r)
  have "push_bit 32 (ucast (ucast (drop_bit 32 r) :: u32)) OR ucast (ucast r :: u32) = r"
    by (rule bit_word_eqI) (auto simp: bit_simps)
  then show ?thesis
    by (simp add: Handle slot_def generation_def from_parts_def)
qed

lemma handle_eq_iff: "h = k \<longleftrightarrow> slot h = slot k \<and> generation h = generation k"
  by (metis from_parts_slot_generation)

lemma is_valid_iff: "is_valid h \<longleftrightarrow> slot h \<noteq> 0 \<and> generation h \<noteq> 0"
  by (auto simp: is_valid_def slot_def)

section \<open>Rights\<close>

datatype rights = Rights (bits: u64)

definition RIGHTS_NONE :: rights where "RIGHTS_NONE = Rights 0"
definition READ :: rights where "READ = Rights (push_bit 0 1)"
definition WRITE :: rights where "WRITE = Rights (push_bit 1 1)"
definition WAIT :: rights where "WAIT = Rights (push_bit 2 1)"
definition SIGNAL :: rights where "SIGNAL = Rights (push_bit 3 1)"
definition TRANSIT :: rights where "TRANSIT = Rights (push_bit 4 1)"
definition DUPLICATE :: rights where "DUPLICATE = Rights (push_bit 5 1)"
definition MANAGE :: rights where "MANAGE = Rights (push_bit 6 1)"
definition MAP :: rights where "MAP = Rights (push_bit 7 1)"
definition GRANT :: rights where "GRANT = Rights (push_bit 8 1)"
definition CREATE :: rights where "CREATE = Rights (push_bit 9 1)"
definition EXECUTE :: rights where "EXECUTE = Rights (push_bit 10 1)"
definition RIGHTS_KNOWN :: rights where "RIGHTS_KNOWN = Rights (push_bit 11 1 - 1)"

definition contains :: "rights \<Rightarrow> rights \<Rightarrow> bool" where
  "contains self required \<longleftrightarrow> bits self AND bits required = bits required"

definition is_subset_of :: "rights \<Rightarrow> rights \<Rightarrow> bool" where
  "is_subset_of self other \<longleftrightarrow> contains other self"

definition is_known :: "rights \<Rightarrow> bool" where
  "is_known self \<longleftrightarrow> bits self AND NOT (bits RIGHTS_KNOWN) = 0"

definition rights_or :: "rights \<Rightarrow> rights \<Rightarrow> rights" where
  "rights_or a b = Rights (bits a OR bits b)"

definition rights_and :: "rights \<Rightarrow> rights \<Rightarrow> rights" where
  "rights_and a b = Rights (bits a AND bits b)"

definition rights_not :: "rights \<Rightarrow> rights" where
  "rights_not a = Rights (NOT (bits a))"

text \<open>Inclusion of rights is inclusion of bit positions, hence a partial order.\<close>

lemma contains_bits: "contains a b \<longleftrightarrow> (\<forall>n. bit (bits b) n \<longrightarrow> bit (bits a) n)"
proof
  assume "contains a b"
  then have "bit (bits a AND bits b) n = bit (bits b) n" for n
    by (simp add: contains_def)
  then show "\<forall>n. bit (bits b) n \<longrightarrow> bit (bits a) n"
    by (auto simp: bit_and_iff)
next
  assume "\<forall>n. bit (bits b) n \<longrightarrow> bit (bits a) n"
  then show "contains a b"
    unfolding contains_def by (intro bit_word_eqI) (auto simp: bit_and_iff)
qed

lemma contains_refl [simp]: "contains a a"
  by (simp add: contains_def)

lemma contains_trans: "contains a b \<Longrightarrow> contains b c \<Longrightarrow> contains a c"
  by (auto simp: contains_bits)

lemma subset_refl [simp]: "is_subset_of a a"
  by (simp add: is_subset_of_def)

lemma subset_trans: "is_subset_of a b \<Longrightarrow> is_subset_of b c \<Longrightarrow> is_subset_of a c"
  by (auto simp: is_subset_of_def intro: contains_trans)

lemma subset_antisym: "is_subset_of a b \<Longrightarrow> is_subset_of b a \<Longrightarrow> a = b"
  by (cases a; cases b) (auto simp: is_subset_of_def contains_bits intro: bit_word_eqI)

section \<open>Object signals\<close>

datatype object_signals = ObjectSignals (signal_bits: u64)

definition BITS :: "object_signals list" where
  "BITS = map (\<lambda>n. ObjectSignals (push_bit n 1)) [0, 1, 2, 3, 4, 5, 6, 62, 63]"

definition SIGNALS_KNOWN :: object_signals where
  "SIGNALS_KNOWN = ObjectSignals (foldl (\<lambda>mask b. mask OR signal_bits b) 0 BITS)"

definition signals_contains :: "object_signals \<Rightarrow> object_signals \<Rightarrow> bool" where
  "signals_contains self required \<longleftrightarrow>
     signal_bits self AND signal_bits required = signal_bits required"

definition signals_intersects :: "object_signals \<Rightarrow> object_signals \<Rightarrow> bool" where
  "signals_intersects self interest \<longleftrightarrow> signal_bits self AND signal_bits interest \<noteq> 0"

definition signals_known :: "object_signals \<Rightarrow> bool" where
  "signals_known self \<longleftrightarrow> signal_bits self AND NOT (signal_bits SIGNALS_KNOWN) = 0"

section \<open>Properties\<close>

text \<open>
  Packing a slot and a generation into a handle loses nothing, in both directions:
  the parts can be read back, every 64-bit value is the handle of its parts, and a handle
  is valid exactly when neither part is zero.
\<close>

theorem handle_parts_roundtrip:
  "slot (from_parts s g) = s \<and> generation (from_parts s g) = g \<and>
   from_parts (slot h) (generation h) = h \<and>
   (is_valid (from_parts s g) \<longleftrightarrow> s \<noteq> 0 \<and> g \<noteq> 0)"
  by (simp add: from_parts_slot_generation is_valid_iff)

end
