(* ===== verification/Handle_Table.thy ===== *)
theory Handle_Table
  imports Object_Abi
begin

text \<open>
  The process-local handle table of \<open>os/handle_table\<close>: slots with generations, insertion,
  lookup by rights, removal, derivation, batched extraction, pinned transactions,
  reservations with a two-phase commit, and the draining cursor. This theory holds the
  definitions; the lemmas and properties are in \<open>Handle_Table_Props\<close>.

  The growth of a vector (\<open>try_reserve\<close>) may be refused by the memory allocator, which is not
  part of the repository: it is the argument \<open>mem\<close>, where \<open>mem n\<close> says whether room for \<open>n\<close>
  elements is granted. All properties hold for every \<open>mem\<close>.
\<close>

section \<open>Data\<close>

definition DEFAULT_HANDLE_LIMIT :: nat where
  "DEFAULT_HANDLE_LIMIT = 65536"

datatype table_error =
    InvalidHandle
  | StaleHandle
  | ObjectBusy
  | RightsDenied
  | DuplicateHandle
  | ReachLimit
  | BadReservation
  | AllocationFailed

record ('t, 'r) entry =
  e_object :: 't
  e_role :: 'r
  e_rights :: rights

definition with_rights :: "('t, 'r) entry \<Rightarrow> rights \<Rightarrow> ('t, 'r) entry" where
  "with_rights e r = e\<lparr>e_rights := r\<rparr>"

datatype ('t, 'r) slot_state =
    Vacant
  | Occupied "('t, 'r) entry"
  | Reserved u64
  | Pinned u64 "('t, 'r) entry"
  | Retired

record ('t, 'r) slot_rec =
  sl_generation :: u32
  sl_state :: "('t, 'r) slot_state"

datatype ('t, 'r) take_next_result = TakenEntry "('t, 'r) entry" | Progress | Exhausted

record reservation =
  res_token :: u64
  res_handles :: "handle list"

record ('t, 'r) prepared_commit =
  pr_reservation :: reservation
  pr_entries :: "('t, 'r) entry list"

record ('t, 'r) table =
  slots :: "('t, 'r) slot_rec list"
  limit :: nat
  occupied :: nat

type_synonym item = "handle \<times> rights"

section \<open>Construction\<close>

definition try_with_limit ::
  "(nat \<Rightarrow> bool) \<Rightarrow> nat \<Rightarrow> (('t, 'r) table, table_error) result" where
  "try_with_limit mem lim =
     (if \<not> mem 1 then Err AllocationFailed
      else Ok \<lparr>slots = [\<lparr>sl_generation = 0, sl_state = Retired\<rparr>], limit = min lim (2 ^ 32 - 1),
               occupied = 0\<rparr>)"

definition try_new :: "(nat \<Rightarrow> bool) \<Rightarrow> (('t, 'r) table, table_error) result" where
  "try_new mem = try_with_limit mem DEFAULT_HANDLE_LIMIT"

definition len :: "('t, 'r) table \<Rightarrow> nat" where
  "len t = occupied t"

definition is_empty :: "('t, 'r) table \<Rightarrow> bool" where
  "is_empty t \<longleftrightarrow> occupied t = 0"

section \<open>Slots\<close>

definition set_slot :: "('t, 'r) table \<Rightarrow> nat \<Rightarrow> ('t, 'r) slot_rec \<Rightarrow> ('t, 'r) table" where
  "set_slot t i s = t\<lparr>slots := (slots t)[i := s]\<rparr>"

definition set_state :: "('t, 'r) table \<Rightarrow> nat \<Rightarrow> ('t, 'r) slot_state \<Rightarrow> ('t, 'r) table" where
  "set_state t i st = set_slot t i ((slots t ! i)\<lparr>sl_state := st\<rparr>)"

text \<open>The last generation retires its slot for good.\<close>

definition advanced :: "('t, 'r) slot_rec \<Rightarrow> ('t, 'r) slot_rec" where
  "advanced s =
     (if sl_generation s = - 1 then s\<lparr>sl_state := Retired\<rparr>
      else s\<lparr>sl_generation := sl_generation s + 1, sl_state := Vacant\<rparr>)"

definition advance_generation :: "('t, 'r) table \<Rightarrow> nat \<Rightarrow> ('t, 'r) table" where
  "advance_generation t i = set_slot t i (advanced (slots t ! i))"

definition slot_index :: "handle \<Rightarrow> nat" where
  "slot_index h = unat (slot h)"

definition occupied_index :: "('t, 'r) table \<Rightarrow> handle \<Rightarrow> (nat, table_error) result" where
  "occupied_index t h =
     (if \<not> is_valid h then Err InvalidHandle
      else let i = slot_index h in
        if i \<ge> length (slots t) then Err StaleHandle
        else if sl_generation (slots t ! i) \<noteq> generation h then Err StaleHandle
        else case sl_state (slots t ! i) of
            Occupied _ \<Rightarrow> Ok i
          | Pinned _ _ \<Rightarrow> Err ObjectBusy
          | _ \<Rightarrow> Err StaleHandle)"

text \<open>
  \<open>reserve_slot\<close>: the first vacant slot from index 1, or a new slot with generation 1. The
  casts \<open>index as u32\<close> are written \<^const>\<open>of_nat\<close>.
\<close>

definition is_vacant :: "('t, 'r) slot_rec \<Rightarrow> bool" where
  "is_vacant s \<longleftrightarrow> (case sl_state s of Vacant \<Rightarrow> True | _ \<Rightarrow> False)"

definition find_vacant :: "('t, 'r) table \<Rightarrow> nat option" where
  "find_vacant t = find (\<lambda>i. is_vacant (slots t ! i)) [1..<length (slots t)]"

definition reserve_slot ::
  "(nat \<Rightarrow> bool) \<Rightarrow> ('t, 'r) table \<Rightarrow> u64 \<Rightarrow>
     (handle, table_error) result \<times> ('t, 'r) table" where
  "reserve_slot mem t token =
     (case find_vacant t of
        Some i \<Rightarrow>
          (Ok (from_parts (of_nat i) (sl_generation (slots t ! i))), set_state t i (Reserved token))
      | None \<Rightarrow>
          if limit t \<le> length (slots t) - 1 then (Err ReachLimit, t)
          else if \<not> mem (length (slots t) + 1) then (Err AllocationFailed, t)
          else (Ok (from_parts (of_nat (length (slots t))) 1),
                t\<lparr>slots := slots t @ [\<lparr>sl_generation = 1, sl_state = Reserved token\<rparr>]\<rparr>))"

definition is_reserved :: "('t, 'r) table \<Rightarrow> handle \<Rightarrow> u64 \<Rightarrow> bool" where
  "is_reserved t h token \<longleftrightarrow>
     is_valid h \<and> slot_index h < length (slots t) \<and>
     sl_generation (slots t ! slot_index h) = generation h \<and>
     sl_state (slots t ! slot_index h) = Reserved token"

fun rollback_handles :: "('t, 'r) table \<Rightarrow> handle list \<Rightarrow> u64 \<Rightarrow> ('t, 'r) table" where
  "rollback_handles t [] token = t"
| "rollback_handles t (h # hs) token =
     rollback_handles
       (if is_reserved t h token
        then advance_generation (set_state t (slot_index h) Vacant) (slot_index h)
        else t) hs token"

section \<open>Single entries\<close>

definition insert ::
  "(nat \<Rightarrow> bool) \<Rightarrow> ('t, 'r) table \<Rightarrow> ('t, 'r) entry \<Rightarrow>
     (handle, table_error) result \<times> ('t, 'r) table" where
  "insert mem t e =
     (case reserve_slot mem t 0 of
        (Err er, t') \<Rightarrow> (Err er, t')
      | (Ok h, t') \<Rightarrow>
          (Ok h, (set_state t' (slot_index h) (Occupied e))\<lparr>occupied := occupied t' + 1\<rparr>))"

definition get :: "('t, 'r) table \<Rightarrow> handle \<Rightarrow> rights \<Rightarrow> (('t, 'r) entry, table_error) result" where
  "get t h required =
     (case occupied_index t h of
        Err er \<Rightarrow> Err er
      | Ok i \<Rightarrow> (case sl_state (slots t ! i) of
            Occupied e \<Rightarrow> if \<not> contains (e_rights e) required then Err RightsDenied else Ok e
          | _ \<Rightarrow> Err StaleHandle))"

text \<open>
  The \<open>else\<close> branch of \<open>let SlotState::Occupied(entry) = \<dots>\<close> is unreachable after
  \<^const>\<open>occupied_index\<close> (lemma \<open>occupied_index_Ok\<close>); in \<open>remove\<close> and below it panics.
\<close>

definition take_at :: "('t, 'r) table \<Rightarrow> nat \<Rightarrow> (('t, 'r) entry \<times> ('t, 'r) table) option" where
  "take_at t i =
     (case sl_state (slots t ! i) of
        Occupied e \<Rightarrow>
          Some (e, advance_generation ((set_state t i Vacant)\<lparr>occupied := occupied t - 1\<rparr>) i)
      | _ \<Rightarrow> None)"

definition remove ::
  "('t, 'r) table \<Rightarrow> handle \<Rightarrow>
     ((('t, 'r) entry, table_error) result \<times> ('t, 'r) table) option" where
  "remove t h =
     (case occupied_index t h of
        Err er \<Rightarrow> Some (Err er, t)
      | Ok i \<Rightarrow> map_option (\<lambda>(e, t'). (Ok e, t')) (take_at t i))"

definition derive ::
  "('t, 'r) table \<Rightarrow> handle \<Rightarrow> rights \<Rightarrow> (('t, 'r) entry, table_error) result" where
  "derive t source r =
     (if \<not> is_known r then Err RightsDenied
      else case get t source DUPLICATE of
        Err er \<Rightarrow> Err er
      | Ok e \<Rightarrow> if \<not> is_subset_of r (e_rights e) then Err RightsDenied else Ok (with_rights e r))"

definition duplicate ::
  "(nat \<Rightarrow> bool) \<Rightarrow> ('t, 'r) table \<Rightarrow> handle \<Rightarrow> rights \<Rightarrow>
     (handle, table_error) result \<times> ('t, 'r) table" where
  "duplicate mem t source r =
     (case derive t source r of
        Err er \<Rightarrow> (Err er, t)
      | Ok e \<Rightarrow> insert mem t e)"

section \<open>Batched extraction\<close>

text \<open>
  The validation loop shared by \<open>prepare_extract_with\<close> and \<open>pin_transaction\<close>: \<open>prior\<close> holds
  the handles of the items already seen, \<open>protected\<close> the authority a transaction keeps.
\<close>

fun validate_items ::
  "('t, 'r) table \<Rightarrow> rights \<Rightarrow> handle option \<Rightarrow> handle list \<Rightarrow> item list \<Rightarrow>
     (unit, table_error) result" where
  "validate_items t transport protected prior [] = Ok ()"
| "validate_items t transport protected prior ((h, r) # items) =
     (if h \<in> set prior \<or> protected = Some h then Err DuplicateHandle
      else if \<not> is_known r then Err RightsDenied
      else case get t h transport of
        Err er \<Rightarrow> Err er
      | Ok e \<Rightarrow>
          if \<not> is_subset_of r (e_rights e) then Err RightsDenied
          else validate_items t transport protected (h # prior) items)"

definition prepare_extract_with ::
  "(nat \<Rightarrow> bool) \<Rightarrow> ('t, 'r) table \<Rightarrow> item list \<Rightarrow> rights \<Rightarrow> (unit, table_error) result" where
  "prepare_extract_with mem t items transport =
     (if \<not> mem (length items) then Err AllocationFailed
      else validate_items t transport None [] items)"

text \<open>\<open>PreparedExtraction::commit\<close>: \<open>expect\<close> turns a failing \<open>remove\<close> into a panic.\<close>

fun commit_extraction ::
  "('t, 'r) table \<Rightarrow> item list \<Rightarrow> (('t, 'r) entry list \<times> ('t, 'r) table) option" where
  "commit_extraction t [] = Some ([], t)"
| "commit_extraction t ((h, r) # items) =
     (case remove t h of
        Some (Ok e, t') \<Rightarrow>
          map_option (\<lambda>(es, t''). (with_rights e r # es, t'')) (commit_extraction t' items)
      | _ \<Rightarrow> None)"

definition extract_with ::
  "(nat \<Rightarrow> bool) \<Rightarrow> ('t, 'r) table \<Rightarrow> item list \<Rightarrow> rights \<Rightarrow>
     ((('t, 'r) entry list, table_error) result \<times> ('t, 'r) table) option" where
  "extract_with mem t items transport =
     (case prepare_extract_with mem t items transport of
        Err er \<Rightarrow> Some (Err er, t)
      | Ok _ \<Rightarrow> map_option (\<lambda>(es, t'). (Ok es, t')) (commit_extraction t items))"

definition extract_moves ::
  "(nat \<Rightarrow> bool) \<Rightarrow> ('t, 'r) table \<Rightarrow> item list \<Rightarrow>
     ((('t, 'r) entry list, table_error) result \<times> ('t, 'r) table) option" where
  "extract_moves mem t moves = extract_with mem t moves TRANSIT"

definition extract_grants ::
  "(nat \<Rightarrow> bool) \<Rightarrow> ('t, 'r) table \<Rightarrow> item list \<Rightarrow>
     ((('t, 'r) entry list, table_error) result \<times> ('t, 'r) table) option" where
  "extract_grants mem t grants = extract_with mem t grants GRANT"

section \<open>Pinned transactions\<close>

definition pin_entry :: "('t, 'r) table \<Rightarrow> handle \<Rightarrow> u64 \<Rightarrow> ('t, 'r) table option" where
  "pin_entry t h token =
     (case occupied_index t h of
        Err _ \<Rightarrow> None
      | Ok i \<Rightarrow> (case sl_state (slots t ! i) of
            Occupied e \<Rightarrow> Some (set_state t i (Pinned token e))
          | _ \<Rightarrow> None))"

fun pin_entries :: "('t, 'r) table \<Rightarrow> handle list \<Rightarrow> u64 \<Rightarrow> ('t, 'r) table option" where
  "pin_entries t [] token = Some t"
| "pin_entries t (h # hs) token =
     Option.bind (pin_entry t h token) (\<lambda>t'. pin_entries t' hs token)"

definition pin_transaction ::
  "('t, 'r) table \<Rightarrow> item option \<Rightarrow> item list \<Rightarrow> u64 \<Rightarrow>
     ((unit, table_error) result \<times> ('t, 'r) table) option" where
  "pin_transaction t protected grants token =
     (if token = 0 then Some (Err BadReservation, t)
      else case (case protected of
                   None \<Rightarrow> Ok ()
                 | Some (h, required) \<Rightarrow>
                     (case get t h required of Err er \<Rightarrow> Err er | Ok _ \<Rightarrow> Ok ())) of
        Err er \<Rightarrow> Some (Err er, t)
      | Ok _ \<Rightarrow>
          (case validate_items t GRANT (map_option fst protected) [] grants of
             Err er \<Rightarrow> Some (Err er, t)
           | Ok _ \<Rightarrow>
               map_option (\<lambda>t'. (Ok (), t'))
                 (Option.bind (pin_entries t (map fst grants) token)
                    (\<lambda>t1. case protected of
                       None \<Rightarrow> Some t1
                     | Some (h, _) \<Rightarrow> pin_entry t1 h token))))"

definition pin_consume ::
  "('t, 'r) table \<Rightarrow> handle \<Rightarrow> rights \<Rightarrow> u64 \<Rightarrow>
     ((unit, table_error) result \<times> ('t, 'r) table) option" where
  "pin_consume t h required token = pin_transaction t (Some (h, required)) [] token"

definition pin_transfer ::
  "('t, 'r) table \<Rightarrow> handle \<Rightarrow> rights \<Rightarrow> item list \<Rightarrow> u64 \<Rightarrow>
     ((unit, table_error) result \<times> ('t, 'r) table) option" where
  "pin_transfer t protected protected_right grants token =
     pin_transaction t (Some (protected, protected_right)) grants token"

text \<open>The pinned entry a handle names, with the assertions of \<open>take_pinned\<close> and \<open>restore_pinned\<close>.\<close>

definition pinned_at :: "('t, 'r) table \<Rightarrow> u64 \<Rightarrow> handle \<Rightarrow> ('t, 'r) entry option" where
  "pinned_at t token h =
     (if \<not> is_valid h then None
      else let i = slot_index h in
        if i \<ge> length (slots t) then None
        else if sl_generation (slots t ! i) \<noteq> generation h then None
        else case sl_state (slots t ! i) of
            Pinned actual e \<Rightarrow> if actual \<noteq> token then None else Some e
          | _ \<Rightarrow> None)"

definition take_pinned ::
  "('t, 'r) table \<Rightarrow> u64 \<Rightarrow> handle \<Rightarrow> (('t, 'r) entry \<times> ('t, 'r) table) option" where
  "take_pinned t token h =
     map_option (\<lambda>e. (e, let i = slot_index h in
         advance_generation ((set_state t i Vacant)\<lparr>occupied := occupied t - 1\<rparr>) i))
       (pinned_at t token h)"

definition restore_pinned ::
  "('t, 'r) table \<Rightarrow> u64 \<Rightarrow> handle \<Rightarrow> ('t, 'r) table option" where
  "restore_pinned t token h =
     map_option (\<lambda>e. set_state t (slot_index h) (Occupied e)) (pinned_at t token h)"

definition commit_pinned_consume ::
  "('t, 'r) table \<Rightarrow> u64 \<Rightarrow> handle \<Rightarrow> (('t, 'r) entry \<times> ('t, 'r) table) option" where
  "commit_pinned_consume t token h = take_pinned t token h"

fun take_all_pinned ::
  "('t, 'r) table \<Rightarrow> u64 \<Rightarrow> item list \<Rightarrow> (('t, 'r) entry list \<times> ('t, 'r) table) option" where
  "take_all_pinned t token [] = Some ([], t)"
| "take_all_pinned t token ((h, r) # items) =
     (case take_pinned t token h of
        None \<Rightarrow> None
      | Some (e, t') \<Rightarrow>
          map_option (\<lambda>(es, t''). (with_rights e r # es, t'')) (take_all_pinned t' token items))"

definition commit_pinned_transfer ::
  "('t, 'r) table \<Rightarrow> u64 \<Rightarrow> handle \<Rightarrow> item list \<Rightarrow>
     (('t, 'r) entry list \<times> ('t, 'r) table) option" where
  "commit_pinned_transfer t token protected grant_pairs =
     (case take_all_pinned t token grant_pairs of
        None \<Rightarrow> None
      | Some (es, t') \<Rightarrow>
          map_option (\<lambda>t''. (es, t'')) (restore_pinned t' token protected))"

definition unpin_slot :: "u64 \<Rightarrow> ('t, 'r) slot_rec \<Rightarrow> ('t, 'r) slot_rec" where
  "unpin_slot token s =
     (case sl_state s of
        Pinned tk e \<Rightarrow> if tk = token then s\<lparr>sl_state := Occupied e\<rparr> else s
      | _ \<Rightarrow> s)"

definition unpin :: "('t, 'r) table \<Rightarrow> u64 \<Rightarrow> ('t, 'r) table" where
  "unpin t token = t\<lparr>slots := map (unpin_slot token) (slots t)\<rparr>"

section \<open>Reservations\<close>

fun reserve_loop ::
  "(nat \<Rightarrow> bool) \<Rightarrow> ('t, 'r) table \<Rightarrow> nat \<Rightarrow> u64 \<Rightarrow> handle list \<Rightarrow>
     (handle list, table_error) result \<times> ('t, 'r) table" where
  "reserve_loop mem t 0 token hs = (Ok hs, t)"
| "reserve_loop mem t (Suc n) token hs =
     (case reserve_slot mem t token of
        (Ok h, t') \<Rightarrow> reserve_loop mem t' n token (hs @ [h])
      | (Err er, t') \<Rightarrow> (Err er, rollback_handles t' hs token))"

definition reserve ::
  "(nat \<Rightarrow> bool) \<Rightarrow> ('t, 'r) table \<Rightarrow> nat \<Rightarrow> u64 \<Rightarrow>
     (reservation, table_error) result \<times> ('t, 'r) table" where
  "reserve mem t n token =
     (if token = 0 \<or> (\<exists>s \<in> set (slots t). sl_state s = Reserved token)
      then (Err BadReservation, t)
      else if \<not> mem n then (Err AllocationFailed, t)
      else case reserve_loop mem t n token [] of
        (Ok hs, t') \<Rightarrow> (Ok \<lparr>res_token = token, res_handles = hs\<rparr>, t')
      | (Err er, t') \<Rightarrow> (Err er, t'))"

definition all_reserved :: "('t, 'r) table \<Rightarrow> reservation \<Rightarrow> bool" where
  "all_reserved t r \<longleftrightarrow> (\<forall>h \<in> set (res_handles r). is_reserved t h (res_token r))"

definition prepare_commit ::
  "('t, 'r) table \<Rightarrow> reservation \<Rightarrow> ('t, 'r) entry list \<Rightarrow>
     (('t, 'r) prepared_commit, table_error \<times> ('t, 'r) entry list) result \<times> ('t, 'r) table" where
  "prepare_commit t r es =
     (if length (res_handles r) \<noteq> length es \<or> \<not> all_reserved t r
      then (Err (BadReservation, es), rollback_handles t (res_handles r) (res_token r))
      else (Ok \<lparr>pr_reservation = r, pr_entries = es\<rparr>, t))"

fun install :: "('t, 'r) table \<Rightarrow> (handle \<times> ('t, 'r) entry) list \<Rightarrow> ('t, 'r) table" where
  "install t [] = t"
| "install t ((h, e) # ps) =
     install ((set_state t (slot_index h) (Occupied e))\<lparr>occupied := occupied t + 1\<rparr>) ps"

definition commit_prepared ::
  "('t, 'r) table \<Rightarrow> ('t, 'r) prepared_commit \<Rightarrow> (handle list \<times> ('t, 'r) table) option" where
  "commit_prepared t p =
     (if \<not> all_reserved t (pr_reservation p) then None
      else Some (res_handles (pr_reservation p),
                 install t (zip (res_handles (pr_reservation p)) (pr_entries p))))"

definition rollback_prepared ::
  "('t, 'r) table \<Rightarrow> ('t, 'r) prepared_commit \<Rightarrow>
     (('t, 'r) entry list \<times> ('t, 'r) table) option" where
  "rollback_prepared t p =
     (if \<not> all_reserved t (pr_reservation p) then None
      else Some (pr_entries p,
                 rollback_handles t (res_handles (pr_reservation p)) (res_token (pr_reservation p))))"

definition commit ::
  "('t, 'r) table \<Rightarrow> reservation \<Rightarrow> ('t, 'r) entry list \<Rightarrow>
     ((handle list, table_error) result \<times> ('t, 'r) table) option" where
  "commit t r es =
     (case prepare_commit t r es of
        (Ok p, t') \<Rightarrow> map_option (\<lambda>(hs, t''). (Ok hs, t'')) (commit_prepared t' p)
      | (Err (er, _), t') \<Rightarrow> Some (Err er, t'))"

definition rollback ::
  "('t, 'r) table \<Rightarrow> reservation \<Rightarrow> (unit, table_error) result \<times> ('t, 'r) table" where
  "rollback t r =
     (if \<not> all_reserved t r then (Err BadReservation, t)
      else (Ok (), rollback_handles t (res_handles r) (res_token r)))"

section \<open>Draining\<close>

text \<open>One slot of the draining loops: an occupied slot is taken, a reserved one is dropped.\<close>

definition drop_reserved :: "('t, 'r) table \<Rightarrow> nat \<Rightarrow> ('t, 'r) table" where
  "drop_reserved t i =
     (case sl_state (slots t ! i) of
        Reserved _ \<Rightarrow> advance_generation (set_state t i Vacant) i
      | _ \<Rightarrow> t)"

lemma length_drop_reserved [simp]: "length (slots (drop_reserved t i)) = length (slots t)"
  by (simp add: drop_reserved_def advance_generation_def set_state_def set_slot_def
      split: slot_state.splits)

function take_next ::
  "('t, 'r) table \<Rightarrow> nat \<Rightarrow> ('t, 'r) entry option \<times> nat \<times> ('t, 'r) table" where
  "take_next t cursor =
     (if cursor < length (slots t) then
        (case take_at t cursor of
           Some (e, t') \<Rightarrow> (Some e, cursor + 1, t')
         | None \<Rightarrow> take_next (drop_reserved t cursor) (cursor + 1))
      else (None, cursor, t))"
  by pat_completeness auto
termination
  by (relation "measure (\<lambda>(t, cursor). length (slots t) - cursor)") auto

function take_next_bounded_from ::
  "('t, 'r) table \<Rightarrow> nat \<Rightarrow> nat \<Rightarrow> nat \<Rightarrow>
     ('t, 'r) take_next_result \<times> nat \<times> ('t, 'r) table" where
  "take_next_bounded_from t cursor max_slots scanned =
     (if cursor < length (slots t) then
        (if max_slots \<le> scanned then (Progress, cursor, t)
         else case take_at t cursor of
           Some (e, t') \<Rightarrow> (TakenEntry e, cursor + 1, t')
         | None \<Rightarrow>
             take_next_bounded_from (drop_reserved t cursor) (cursor + 1) max_slots (scanned + 1))
      else (Exhausted, cursor, t))"
  by pat_completeness auto
termination
  by (relation "measure (\<lambda>(t, cursor, _, _). length (slots t) - cursor)") auto

definition take_next_bounded ::
  "('t, 'r) table \<Rightarrow> nat \<Rightarrow> nat \<Rightarrow> ('t, 'r) take_next_result \<times> nat \<times> ('t, 'r) table" where
  "take_next_bounded t cursor max_slots = take_next_bounded_from t cursor max_slots 0"

declare take_next.simps [simp del]
declare take_next_bounded_from.simps [simp del]

end
