(* ===== verification/Handle_Table_Props.thy ===== *)
theory Handle_Table_Props
  imports Handle_Table
begin

text \<open>
  What the handle table guarantees. Every operation is shown to be a \<open>safe\<close> change: it keeps
  the table invariant and only moves each slot forward in the order \<open>slot_le\<close>. Everything about
  lifetimes follows from that order: a dead handle stays dead, and a handle never names two
  different entries.
\<close>

section \<open>The invariant and the slot order\<close>

definition entry_of :: "('t, 'r) slot_rec \<Rightarrow> ('t, 'r) entry option" where
  "entry_of s = (case sl_state s of Occupied e \<Rightarrow> Some e | Pinned _ e \<Rightarrow> Some e | _ \<Rightarrow> None)"

abbreviation live :: "('t, 'r) slot_rec \<Rightarrow> bool" where
  "live s \<equiv> entry_of s \<noteq> None"

definition table_inv :: "('t, 'r) table \<Rightarrow> bool" where
  "table_inv t \<longleftrightarrow>
     slots t \<noteq> [] \<and> slots t ! 0 = \<lparr>sl_generation = 0, sl_state = Retired\<rparr> \<and>
     (\<forall>i. 0 < i \<longrightarrow> i < length (slots t) \<longrightarrow> sl_generation (slots t ! i) \<noteq> 0) \<and>
     length (slots t) \<le> limit t + 1 \<and> limit t < 2 ^ 32 \<and>
     occupied t = length (filter live (slots t))"

definition slot_le :: "('t, 'r) slot_rec \<Rightarrow> ('t, 'r) slot_rec \<Rightarrow> bool" where
  "slot_le s s' \<longleftrightarrow>
     sl_generation s < sl_generation s' \<or>
     sl_generation s = sl_generation s' \<and>
       (sl_state s = Retired \<longrightarrow> sl_state s' = Retired) \<and>
       (live s \<longrightarrow> entry_of s' = entry_of s \<or> sl_state s' = Retired)"

definition evolves :: "('t, 'r) table \<Rightarrow> ('t, 'r) table \<Rightarrow> bool" where
  "evolves t t' \<longleftrightarrow>
     limit t' = limit t \<and> length (slots t) \<le> length (slots t') \<and>
     (\<forall>i < length (slots t). slot_le (slots t ! i) (slots t' ! i))"

definition safe :: "('t, 'r) table \<Rightarrow> ('t, 'r) table \<Rightarrow> bool" where
  "safe t t' \<longleftrightarrow> table_inv t' \<and> evolves t t'"

definition put :: "('t, 'r) table \<Rightarrow> nat \<Rightarrow> ('t, 'r) slot_rec \<Rightarrow> nat \<Rightarrow> ('t, 'r) table" where
  "put t i s n = t\<lparr>slots := (slots t)[i := s], occupied := n\<rparr>"

lemma retired_not_live: "sl_state s = Retired \<Longrightarrow> entry_of s = None"
  by (simp add: entry_of_def)

lemma slot_le_refl [simp]: "slot_le s s"
  by (simp add: slot_le_def)

lemma slot_le_trans: "slot_le a b \<Longrightarrow> slot_le b c \<Longrightarrow> slot_le a c"
  unfolding slot_le_def
  by (elim disjE conjE) (auto simp: retired_not_live)

lemma evolves_refl [simp]: "evolves t t"
  by (simp add: evolves_def)

lemma evolves_trans: "evolves a b \<Longrightarrow> evolves b c \<Longrightarrow> evolves a c"
  unfolding evolves_def by (auto intro: slot_le_trans)

lemma safe_refl: "table_inv t \<Longrightarrow> safe t t"
  by (simp add: safe_def)

lemma safe_trans: "safe a b \<Longrightarrow> safe b c \<Longrightarrow> safe a c"
  by (auto simp: safe_def intro: evolves_trans)

lemma safe_inv: "safe a b \<Longrightarrow> table_inv b"
  by (simp add: safe_def)

lemma put_safe:
  assumes "table_inv t" "0 < i" "i < length (slots t)" "slot_le (slots t ! i) s"
    and "n + (if live (slots t ! i) then 1 else 0) = occupied t + (if live s then 1 else 0)"
  shows "safe t (put t i s n)"
proof -
  have "sl_generation s \<noteq> 0"
    using assms by (auto simp: table_inv_def slot_le_def)
  moreover have "n = length (filter live ((slots t)[i := s]))"
    using assms length_filter_update [of i "slots t" live s] by (simp add: table_inv_def)
  ultimately have "table_inv (put t i s n)"
    using assms by (auto simp: table_inv_def put_def nth_list_update)
  then show ?thesis
    using assms by (auto simp: safe_def evolves_def put_def nth_list_update)
qed

lemma table_inv_index:
  "table_inv t \<Longrightarrow> i < length (slots t) \<Longrightarrow> i < 2 ^ 32"
  by (auto simp: table_inv_def)

section \<open>Slots\<close>

lemma entry_of_simps [simp]:
  "entry_of (s\<lparr>sl_state := Vacant\<rparr>) = None"
  "entry_of (s\<lparr>sl_state := Retired\<rparr>) = None"
  "entry_of (s\<lparr>sl_state := Reserved tk\<rparr>) = None"
  "entry_of (s\<lparr>sl_state := Occupied e\<rparr>) = Some e"
  "entry_of (s\<lparr>sl_state := Pinned tk e\<rparr>) = Some e"
  by (simp_all add: entry_of_def)

lemma entry_of_advanced [simp]: "entry_of (advanced s) = None"
  by (simp add: advanced_def entry_of_def)

lemma slot_le_advanced: "slot_le s (advanced s)"
  by (auto simp: slot_le_def advanced_def less_plus_one_word)

lemma advanced_state [simp]: "advanced (s\<lparr>sl_state := x\<rparr>) = advanced s"
  by (simp add: advanced_def)

text \<open>The operations on slots, as \<^const>\<open>put\<close>.\<close>

lemma put_same: "put t i s n = put (put t i s' m) i s n"
  by (simp add: put_def)

lemma set_state_put: "set_state t i x = put t i ((slots t ! i)\<lparr>sl_state := x\<rparr>) (occupied t)"
  by (simp add: set_state_def set_slot_def put_def)

lemma advance_put: "advance_generation t i = put t i (advanced (slots t ! i)) (occupied t)"
  by (simp add: advance_generation_def set_slot_def put_def)

lemma release_put:
  "i < length (slots t) \<Longrightarrow>
     advance_generation ((set_state t i Vacant)\<lparr>occupied := n\<rparr>) i =
     put t i (advanced (slots t ! i)) n"
  by (simp add: advance_generation_def set_state_def set_slot_def put_def)

lemma vacate_put:
  "i < length (slots t) \<Longrightarrow>
     advance_generation (set_state t i Vacant) i =
     put t i (advanced (slots t ! i)) (occupied t)"
  by (simp add: advance_generation_def set_state_def set_slot_def put_def)

lemma put_sel [simp]:
  "slots (put t i s n) = (slots t)[i := s]"
  "limit (put t i s n) = limit t"
  "occupied (put t i s n) = n"
  by (simp_all add: put_def)

lemma occupied_index_Ok:
  "occupied_index t h = Ok i \<longleftrightarrow>
     is_valid h \<and> i = slot_index h \<and> i < length (slots t) \<and>
     sl_generation (slots t ! i) = generation h \<and> (\<exists>e. sl_state (slots t ! i) = Occupied e)"
  by (auto simp: occupied_index_def Let_def split: slot_state.splits if_splits)

lemma slot_index_pos: "is_valid h \<Longrightarrow> 0 < slot_index h"
  by (simp add: is_valid_iff slot_index_def unat_gt_0)

lemma live_occupied_pos:
  "table_inv t \<Longrightarrow> i < length (slots t) \<Longrightarrow> live (slots t ! i) \<Longrightarrow> 0 < occupied t"
  by (simp add: table_inv_def filter_empty_conv) (metis nth_mem option.distinct(1))

lemma state_live:
  "sl_state s = Occupied e \<Longrightarrow> entry_of s = Some e"
  "sl_state s = Pinned tk e \<Longrightarrow> entry_of s = Some e"
  "sl_state s = Vacant \<Longrightarrow> entry_of s = None"
  "sl_state s = Reserved tk \<Longrightarrow> entry_of s = None"
  by (simp_all add: entry_of_def)

section \<open>Every operation is safe\<close>

lemma release_safe:
  assumes "table_inv t" "0 < i" "i < length (slots t)" "live (slots t ! i)"
  shows "safe t (put t i (advanced (slots t ! i)) (occupied t - 1))"
  using assms live_occupied_pos [OF assms(1,3,4)]
  by (intro put_safe) (auto simp: slot_le_advanced)

lemma vacate_safe:
  assumes "table_inv t" "0 < i" "i < length (slots t)" "\<not> live (slots t ! i)"
  shows "safe t (put t i (advanced (slots t ! i)) (occupied t))"
  using assms by (intro put_safe) (auto simp: slot_le_advanced)

lemma install_safe:
  assumes "table_inv t" "0 < i" "i < length (slots t)" "sl_state (slots t ! i) = Reserved tk"
  shows "safe t (put t i ((slots t ! i)\<lparr>sl_state := Occupied e\<rparr>) (occupied t + 1))"
  using assms by (intro put_safe) (auto simp: slot_le_def state_live)

lemma relabel_safe:
  assumes "table_inv t" "0 < i" "i < length (slots t)" "entry_of (slots t ! i) = Some e"
    and "x = Occupied e \<or> x = Pinned tk e"
  shows "safe t (put t i ((slots t ! i)\<lparr>sl_state := x\<rparr>) (occupied t))"
  using assms by (intro put_safe) (auto simp: slot_le_def entry_of_def)

lemma find_vacant_Some:
  assumes "find_vacant t = Some i"
  shows "0 < i \<and> i < length (slots t) \<and> sl_state (slots t ! i) = Vacant"
  using find_SomeD [OF assms [unfolded find_vacant_def]]
  by (auto simp: is_vacant_def split: slot_state.splits)

lemma find_vacant_None:
  "find_vacant t = None \<longleftrightarrow>
     (\<forall>i. 0 < i \<longrightarrow> i < length (slots t) \<longrightarrow> sl_state (slots t ! i) \<noteq> Vacant)"
  by (auto simp: find_vacant_def find_None_iff is_vacant_def split: slot_state.splits)

lemma append_safe:
  assumes "table_inv t" "length (slots t) \<le> limit t" "\<not> live s" "sl_generation s \<noteq> 0"
  shows "safe t (t\<lparr>slots := slots t @ [s]\<rparr>)"
proof -
  have "table_inv (t\<lparr>slots := slots t @ [s]\<rparr>)"
    using assms by (auto simp: table_inv_def nth_append)
  then show ?thesis
    by (simp add: safe_def evolves_def nth_append)
qed

lemma slot_index_from_parts [simp]: "i < 2 ^ 32 \<Longrightarrow> slot_index (from_parts (of_nat i) g) = i"
  by (simp add: slot_index_def unat_of_nat)

lemma is_valid_from_parts:
  "0 < i \<Longrightarrow> i < 2 ^ 32 \<Longrightarrow> g \<noteq> 0 \<Longrightarrow> is_valid (from_parts (of_nat i) g)"
  using slot_index_from_parts [of i g] by (auto simp: is_valid_iff slot_index_def simp del: slot_index_from_parts)

lemma reserve_slot_cases:
  assumes "table_inv t" "reserve_slot mem t tk = (Ok h, t')"
  obtains
    (reuse) "slot_index h < length (slots t)" "sl_state (slots t ! slot_index h) = Vacant"
      "sl_generation (slots t ! slot_index h) = generation h"
      "t' = put t (slot_index h) ((slots t ! slot_index h)\<lparr>sl_state := Reserved tk\<rparr>) (occupied t)"
      "is_valid h"
  | (grow) "slot_index h = length (slots t)" "generation h = 1" "length (slots t) \<le> limit t"
      "t' = t\<lparr>slots := slots t @ [\<lparr>sl_generation = 1, sl_state = Reserved tk\<rparr>]\<rparr>" "is_valid h"
proof (cases "find_vacant t")
  case (Some i)
  note v = find_vacant_Some [OF Some]
  have "i < 2 ^ 32" "sl_generation (slots t ! i) \<noteq> 0"
    using v assms(1) by (auto simp: table_inv_def)
  then show thesis
    using v Some assms(2) is_valid_from_parts [of i "sl_generation (slots t ! i)"]
    by (intro reuse) (auto simp: reserve_slot_def set_state_put)
next
  case None
  have l: "0 < length (slots t)" "length (slots t) \<le> limit t" "limit t < 2 ^ 32"
    using None assms by (auto simp: reserve_slot_def table_inv_def split: if_splits)
  then show thesis
    using None assms(2) is_valid_from_parts [of "length (slots t)" 1]
    by (intro grow) (auto simp: reserve_slot_def split: if_splits)
qed

lemma reserve_slot_safe:
  assumes "table_inv t" "reserve_slot mem t tk = (Ok h, t')"
  shows "safe t t'"
  using assms
proof (cases rule: reserve_slot_cases)
  case reuse
  then show ?thesis
    using assms(1) slot_index_pos [of h] by (auto intro!: put_safe simp: slot_le_def state_live)
next
  case grow
  then show ?thesis
    using assms(1) by (auto intro!: append_safe simp: entry_of_def)
qed

lemma reserve_slot_Err: "reserve_slot mem t tk = (Err er, t') \<Longrightarrow> t' = t"
  by (auto simp: reserve_slot_def split: option.splits if_splits)

lemma is_reserved_index:
  "is_reserved t h tk \<Longrightarrow>
     0 < slot_index h \<and> slot_index h < length (slots t) \<and> \<not> live (slots t ! slot_index h)"
  by (auto simp: is_reserved_def slot_index_pos state_live)

lemma reserve_slot_reserved:
  assumes "table_inv t" "reserve_slot mem t tk = (Ok h, t')"
  shows "is_reserved t' h tk"
  using assms by (cases rule: reserve_slot_cases) (auto simp: is_reserved_def)

lemma rollback_handles_safe:
  "table_inv t \<Longrightarrow> safe t (rollback_handles t hs tk)"
proof (induction t hs tk rule: rollback_handles.induct)
  case (2 t h hs tk)
  have "safe t (advance_generation (set_state t (slot_index h) Vacant) (slot_index h))"
    if "is_reserved t h tk"
    using is_reserved_index [OF that] 2(2) by (simp add: vacate_put vacate_safe)
  then show ?case
    using 2 safe_trans safe_inv by (cases "is_reserved t h tk") (simp, blast, simp)
qed (simp add: safe_refl)

lemma insert_safe:
  assumes "table_inv t" "insert mem t e = (r, t')"
  shows "safe t t'"
proof (cases "reserve_slot mem t 0")
  case (Pair r1 t1)
  show ?thesis
  proof (cases r1)
    case (Ok h)
    note s = reserve_slot_safe [OF assms(1) Pair [unfolded Ok]]
    note r = reserve_slot_reserved [OF assms(1) Pair [unfolded Ok]]
    have "t' = put t1 (slot_index h) ((slots t1 ! slot_index h)\<lparr>sl_state := Occupied e\<rparr>) (occupied t1 + 1)"
      using assms(2) Pair Ok by (simp add: insert_def set_state_put put_def)
    then have "safe t1 t'"
      using r is_reserved_index [OF r] safe_inv [OF s]
      by (auto intro!: install_safe [simplified] simp: is_reserved_def)
    then show ?thesis
      using s by (rule safe_trans [rotated])
  next
    case (Err er)
    then show ?thesis
      using assms Pair reserve_slot_Err [of mem t 0 er t1]
      by (simp add: insert_def safe_refl)
  qed
qed

lemma take_at_safe:
  assumes "table_inv t" "0 < i" "i < length (slots t)" "take_at t i = Some (e, t')"
  shows "safe t t'"
  using assms release_safe [of t i]
  by (auto simp: take_at_def release_put state_live split: slot_state.splits)

lemma take_at_index_pos:
  "table_inv t \<Longrightarrow> take_at t i = Some (e, t') \<Longrightarrow> 0 < i"
  by (cases i) (auto simp: take_at_def table_inv_def)

lemma remove_safe:
  assumes "table_inv t" "remove t h = Some (r, t')"
  shows "safe t t'"
proof (cases "occupied_index t h")
  case (Ok i)
  have "0 < i" "i < length (slots t)"
    using Ok slot_index_pos [of h] by (auto simp: occupied_index_Ok)
  then show ?thesis
    using assms Ok take_at_safe [of t i] by (auto simp: remove_def)
next
  case (Err er)
  then show ?thesis
    using assms by (auto simp: remove_def safe_refl)
qed

lemma duplicate_safe:
  assumes "table_inv t" "duplicate mem t h r = (x, t')"
  shows "safe t t'"
  using assms insert_safe [of t mem]
  by (auto simp: duplicate_def safe_refl split: result.splits)

lemma commit_extraction_safe:
  "table_inv t \<Longrightarrow> commit_extraction t items = Some (es, t') \<Longrightarrow> safe t t'"
proof (induction t items arbitrary: es t' rule: commit_extraction.induct)
  case (2 t h r items)
  obtain e t1 es1 where s: "remove t h = Some (Ok e, t1)" "commit_extraction t1 items = Some (es1, t')"
    using 2(3) by (auto split: option.splits result.splits)
  then have "safe t t1"
    using remove_safe [OF 2(2)] by simp
  moreover have "safe t1 t'"
    using 2(1) [of "(Ok e, t1)" "Ok e" t1 e] s safe_inv [OF \<open>safe t t1\<close>] by simp
  ultimately show ?case
    by (rule safe_trans)
qed (simp add: safe_refl)

lemma extract_with_safe:
  assumes "table_inv t" "extract_with mem t items tr = Some (r, t')"
  shows "safe t t'"
  using assms commit_extraction_safe [OF assms(1)]
  by (auto simp: extract_with_def safe_refl split: result.splits)

lemma pin_entry_safe:
  assumes "table_inv t" "pin_entry t h tk = Some t'"
  shows "safe t t'"
proof -
  obtain e where "occupied_index t h = Ok (slot_index h)" "0 < slot_index h"
    "slot_index h < length (slots t)" "sl_state (slots t ! slot_index h) = Occupied e"
    "t' = set_state t (slot_index h) (Pinned tk e)"
    using assms(2) slot_index_pos [of h]
    by (auto simp: pin_entry_def occupied_index_Ok split: result.splits slot_state.splits)
  then show ?thesis
    using assms(1) relabel_safe [of t "slot_index h" e "Pinned tk e" tk]
    by (simp add: set_state_put state_live)
qed

lemma pin_entries_safe:
  "table_inv t \<Longrightarrow> pin_entries t hs tk = Some t' \<Longrightarrow> safe t t'"
proof (induction hs arbitrary: t)
  case (Cons h hs)
  then show ?case
    using pin_entry_safe [of t h tk] by (auto simp: bind_eq_Some_conv intro: safe_trans dest: safe_inv)
qed (simp add: safe_refl)

lemma pin_transaction_safe:
  assumes "table_inv t" "pin_transaction t p gs tk = Some (r, t')"
  shows "safe t t'"
proof (cases "t' = t")
  case False
  then obtain t1 where "pin_entries t (map fst gs) tk = Some t1"
    "t' = t1 \<or> (\<exists>h. pin_entry t1 h tk = Some t')"
    using assms(2)
    by (auto simp: pin_transaction_def bind_eq_Some_conv split: if_splits option.splits result.splits)
  then show ?thesis
    using assms(1) by (metis safe_trans safe_inv pin_entries_safe pin_entry_safe)
qed (simp add: assms safe_refl)

lemma pinned_at_Some:
  "pinned_at t tk h = Some e \<longleftrightarrow>
     is_valid h \<and> slot_index h < length (slots t) \<and>
     sl_generation (slots t ! slot_index h) = generation h \<and>
     sl_state (slots t ! slot_index h) = Pinned tk e"
  by (auto simp: pinned_at_def Let_def split: slot_state.splits if_splits)

lemma take_pinned_safe:
  assumes "table_inv t" "take_pinned t tk h = Some (e, t')"
  shows "safe t t'"
  using assms release_safe [of t "slot_index h"]
  by (auto simp: take_pinned_def pinned_at_Some release_put state_live slot_index_pos Let_def)

lemma restore_pinned_safe:
  assumes "table_inv t" "restore_pinned t tk h = Some t'"
  shows "safe t t'"
  using assms
  by (auto simp: restore_pinned_def pinned_at_Some set_state_put state_live slot_index_pos
      intro!: relabel_safe)

lemma take_all_pinned_safe:
  "table_inv t \<Longrightarrow> take_all_pinned t tk items = Some (es, t') \<Longrightarrow> safe t t'"
proof (induction items arbitrary: t es)
  case (Cons it items)
  then show ?case
    using take_pinned_safe [of t tk "fst it"]
    by (cases it) (auto split: option.splits, metis safe_trans safe_inv)
qed (simp add: safe_refl)

lemma commit_pinned_transfer_safe:
  assumes "table_inv t" "commit_pinned_transfer t tk p items = Some (es, t')"
  shows "safe t t'"
  using assms take_all_pinned_safe [OF assms(1), of tk items]
  by (auto simp: commit_pinned_transfer_def split: option.splits)
     (metis safe_trans safe_inv restore_pinned_safe)

lemma unpin_slot_sel [simp]:
  "sl_generation (unpin_slot tk s) = sl_generation s"
  "entry_of (unpin_slot tk s) = entry_of s"
  "sl_state (unpin_slot tk s) = Retired \<longleftrightarrow> sl_state s = Retired"
  by (simp_all add: unpin_slot_def entry_of_def split: slot_state.splits)

lemma unpin_safe:
  assumes "table_inv t"
  shows "safe t (unpin t tk)"
proof -
  have "filter live (map (unpin_slot tk) (slots t)) = map (unpin_slot tk) (filter live (slots t))"
    by (simp add: filter_map comp_def)
  moreover have "unpin_slot tk \<lparr>sl_generation = 0, sl_state = Retired\<rparr> = \<lparr>sl_generation = 0, sl_state = Retired\<rparr>"
    by (simp add: unpin_slot_def)
  ultimately have "table_inv (unpin t tk)"
    using assms by (simp add: table_inv_def unpin_def)
  then show ?thesis
    by (simp add: safe_def evolves_def unpin_def slot_le_def)
qed

lemma reserve_loop_safe:
  "table_inv t \<Longrightarrow> reserve_loop mem t n tk hs = (r, t') \<Longrightarrow> safe t t'"
proof (induction n arbitrary: t hs)
  case (Suc n)
  obtain r1 t1 where rs: "reserve_slot mem t tk = (r1, t1)"
    by fastforce
  show ?case
  proof (cases r1)
    case (Ok h)
    then have "safe t t1"
      using Suc.prems(1) rs reserve_slot_safe by blast
    then show ?thesis
      using Suc Ok rs by (auto intro: safe_trans dest: safe_inv)
  next
    case (Err er)
    then show ?thesis
      using Suc.prems rs reserve_slot_Err [of mem t tk er t1] rollback_handles_safe by auto
  qed
qed (simp add: safe_refl)

lemma reserve_safe:
  assumes "table_inv t" "reserve mem t n tk = (r, t')"
  shows "safe t t'"
  using assms reserve_loop_safe [OF assms(1), of mem n tk "[]"]
  by (auto simp: reserve_def safe_refl split: if_splits prod.splits result.splits)

text \<open>
  A \<open>Reservation\<close> is built only by \<open>reserve\<close>, whose handles are distinct (lemma
  \<open>reserve_distinct\<close> below).
\<close>

lemma install_all_safe:
  "table_inv t \<Longrightarrow> distinct (map fst ps) \<Longrightarrow> \<forall>h \<in> set (map fst ps). is_reserved t h tk \<Longrightarrow>
     safe t (install t ps)"
proof (induction ps arbitrary: t)
  case (Cons p ps)
  obtain h e where p: "p = (h, e)"
    by fastforce
  let ?i = "slot_index h"
  let ?t = "put t ?i ((slots t ! ?i)\<lparr>sl_state := Occupied e\<rparr>) (occupied t + 1)"
  have r: "is_reserved t h tk"
    using Cons.prems p by simp
  then have s: "safe t ?t"
    using Cons.prems(1) is_reserved_index [OF r] by (intro install_safe) (auto simp: is_reserved_def)
  have "is_reserved ?t k tk" if "k \<in> set (map fst ps)" for k
  proof -
    have "is_reserved t k tk" "k \<noteq> h"
      using that Cons.prems p by auto
    then have "slot_index k \<noteq> ?i"
      using r by (auto simp: is_reserved_def handle_eq_iff slot_index_def word_unat_eq_iff)
    then show ?thesis
      using \<open>is_reserved t k tk\<close> by (simp add: is_reserved_def)
  qed
  then have "safe ?t (install ?t ps)"
    using Cons s by (auto dest: safe_inv)
  moreover have "install t (p # ps) = install ?t ps"
    by (simp add: p set_state_put put_def)
  ultimately show ?case
    using s by (auto intro: safe_trans)
qed (simp add: safe_refl)

lemma drop_reserved_safe:
  assumes "table_inv t" "i < length (slots t)"
  shows "safe t (drop_reserved t i)"
proof (cases "\<exists>tk. sl_state (slots t ! i) = Reserved tk")
  case True
  then have "0 < i"
    using assms by (cases i) (auto simp: table_inv_def)
  then show ?thesis
    using assms True vacate_safe [of t i] by (auto simp: drop_reserved_def vacate_put state_live)
next
  case False
  then show ?thesis
    using assms by (auto simp: drop_reserved_def safe_refl split: slot_state.splits)
qed

lemma take_next_safe:
  "table_inv t \<Longrightarrow> take_next t c = (r, c', t') \<Longrightarrow> safe t t'"
proof (induction t c rule: take_next.induct)
  case (1 t c)
  show ?case
  proof (cases "c < length (slots t)")
    case True
    show ?thesis
    proof (cases "take_at t c")
      case None
      then show ?thesis
        using 1 True drop_reserved_safe [of t c]
        by (simp add: take_next.simps [of t c]) (metis safe_trans safe_inv)
    next
      case (Some p)
      then show ?thesis
        using 1 True take_at_safe [of t c] take_at_index_pos [of t c]
        by (cases p) (auto simp: take_next.simps [of t c])
    qed
  qed (use 1 in \<open>simp add: take_next.simps [of t c] safe_refl\<close>)
qed

lemma take_next_bounded_from_safe:
  "table_inv t \<Longrightarrow> take_next_bounded_from t c m k = (r, c', t') \<Longrightarrow> safe t t'"
proof (induction t c m k rule: take_next_bounded_from.induct)
  case (1 t c m k)
  show ?case
  proof (cases "c < length (slots t) \<and> k < m")
    case True
    show ?thesis
    proof (cases "take_at t c")
      case None
      then show ?thesis
        using 1 True drop_reserved_safe [of t c]
        by (simp add: take_next_bounded_from.simps [of t c]) (metis safe_trans safe_inv)
    next
      case (Some p)
      then show ?thesis
        using 1 True take_at_safe [of t c] take_at_index_pos [of t c]
        by (cases p) (auto simp: take_next_bounded_from.simps [of t c])
    qed
  qed (use 1 in \<open>auto simp: take_next_bounded_from.simps [of t c] safe_refl split: if_splits\<close>)
qed

section \<open>The table as a transition system\<close>

definition ht_init :: "('t, 'r) table \<Rightarrow> bool" where
  "ht_init t \<longleftrightarrow> (\<exists>mem lim. try_with_limit mem lim = Ok t)"

text \<open>
  One step is one call of a public operation, with any arguments, under any behaviour of the
  allocator; \<open>commit\<close> and the prepared forms take a reservation whose handles are distinct.
\<close>

inductive ht_step :: "('t, 'r) table \<Rightarrow> ('t, 'r) table \<Rightarrow> bool" where
  insert: "insert mem t e = (r, t') \<Longrightarrow> ht_step t t'"
| remove: "remove t h = Some (r, t') \<Longrightarrow> ht_step t t'"
| duplicate: "duplicate mem t h rt = (r, t') \<Longrightarrow> ht_step t t'"
| extract_items: "extract_with mem t items tr = Some (r, t') \<Longrightarrow> ht_step t t'"
| pin_consume: "pin_consume t h rq tk = Some (r, t') \<Longrightarrow> ht_step t t'"
| pin_transfer: "pin_transfer t h rq grants tk = Some (r, t') \<Longrightarrow> ht_step t t'"
| commit_pinned_consume: "commit_pinned_consume t tk h = Some (e, t') \<Longrightarrow> ht_step t t'"
| commit_pinned_transfer: "commit_pinned_transfer t tk h grants = Some (es, t') \<Longrightarrow> ht_step t t'"
| unpin: "ht_step t (unpin t tk)"
| reserve: "reserve mem t n tk = (r, t') \<Longrightarrow> ht_step t t'"
| prepare_commit: "prepare_commit t rs es = (r, t') \<Longrightarrow> ht_step t t'"
| commit_prepared: "distinct (res_handles (pr_reservation p)) \<Longrightarrow>
    commit_prepared t p = Some (hs, t') \<Longrightarrow> ht_step t t'"
| rollback_prepared: "rollback_prepared t p = Some (es, t') \<Longrightarrow> ht_step t t'"
| commit: "distinct (res_handles rs) \<Longrightarrow> commit t rs es = Some (r, t') \<Longrightarrow> ht_step t t'"
| rollback: "rollback t rs = (r, t') \<Longrightarrow> ht_step t t'"
| take_next: "take_next t c = (r, c', t') \<Longrightarrow> ht_step t t'"
| take_next_bounded: "take_next_bounded t c m = (r, c', t') \<Longrightarrow> ht_step t t'"

lemma prepare_commit_safe:
  "table_inv t \<Longrightarrow> prepare_commit t rs es = (r, t') \<Longrightarrow> safe t t'"
  by (auto simp: prepare_commit_def safe_refl rollback_handles_safe split: if_splits)

lemma commit_prepared_safe:
  assumes "table_inv t" "distinct (res_handles (pr_reservation p))"
    and "commit_prepared t p = Some (hs, t')"
  shows "safe t t'"
proof -
  let ?hs = "res_handles (pr_reservation p)"
  have "distinct (map fst (zip ?hs (pr_entries p)))" "set (map fst (zip ?hs (pr_entries p))) \<subseteq> set ?hs"
    using assms(2) by (auto simp: map_fst_zip_take dest: in_set_takeD)
  then show ?thesis
    using assms install_all_safe [OF assms(1), of "zip ?hs (pr_entries p)"]
    by (auto simp: commit_prepared_def all_reserved_def split: if_splits)
qed

lemma commit_safe:
  assumes "table_inv t" "distinct (res_handles rs)" "commit t rs es = Some (r, t')"
  shows "safe t t'"
  using assms commit_prepared_safe [of t "\<lparr>pr_reservation = rs, pr_entries = es\<rparr>"]
  by (auto simp: commit_def prepare_commit_def rollback_handles_safe split: if_splits)

lemma rollback_safe:
  "table_inv t \<Longrightarrow> rollback t rs = (r, t') \<Longrightarrow> safe t t'"
  by (auto simp: rollback_def safe_refl rollback_handles_safe split: if_splits)

lemma rollback_prepared_safe:
  "table_inv t \<Longrightarrow> rollback_prepared t p = Some (es, t') \<Longrightarrow> safe t t'"
  by (auto simp: rollback_prepared_def rollback_handles_safe split: if_splits)

lemmas op_safe = insert_safe remove_safe duplicate_safe extract_with_safe pin_transaction_safe
  take_pinned_safe commit_pinned_transfer_safe unpin_safe reserve_safe prepare_commit_safe
  commit_prepared_safe rollback_prepared_safe commit_safe rollback_safe take_next_safe
  take_next_bounded_from_safe

lemma ht_step_safe: "table_inv t \<Longrightarrow> ht_step t t' \<Longrightarrow> safe t t'"
  by (erule ht_step.cases)
     (simp_all add: pin_consume_def pin_transfer_def commit_pinned_consume_def
       take_next_bounded_def op_safe)

definition dead :: "('t, 'r) table \<Rightarrow> handle \<Rightarrow> bool" where
  "dead t h \<longleftrightarrow>
     slot_index h < length (slots t) \<and>
     (generation h < sl_generation (slots t ! slot_index h) \<or>
      sl_generation (slots t ! slot_index h) = generation h \<and>
        sl_state (slots t ! slot_index h) = Retired)"

lemma ht_init_inv: "ht_init t \<Longrightarrow> table_inv t"
  by (auto simp: ht_init_def try_with_limit_def table_inv_def entry_of_def split: if_splits)

lemma evolves_dead: "evolves t t' \<Longrightarrow> dead t h \<Longrightarrow> dead t' h"
  by (auto simp: evolves_def dead_def slot_le_def dest: spec [of _ "slot_index h"])

interpretation ht: lifetimes ht_init ht_step table_inv dead
proof unfold_locales
  fix s t :: "('a, 'b) table" and k
  show "ht_init s \<Longrightarrow> table_inv s"
    by (rule ht_init_inv)
  show "table_inv s \<Longrightarrow> ht_step s t \<Longrightarrow> table_inv t"
    by (blast dest: ht_step_safe safe_inv)
  show "table_inv s \<Longrightarrow> ht_step s t \<Longrightarrow> dead s k \<Longrightarrow> dead t k"
    using ht_step_safe [of s t] by (auto simp: safe_def intro: evolves_dead)
qed

lemma steps_evolve: "ht_step\<^sup>*\<^sup>* s t \<Longrightarrow> table_inv s \<Longrightarrow> evolves s t"
proof (induction rule: rtranclp_induct)
  case (step t u)
  then show ?case
    using ht.inv_steps [of s t] ht_step_safe [of t u] by (auto simp: safe_def intro: evolves_trans)
qed simp

lemma dead_get: "dead t h \<Longrightarrow> is_valid h \<Longrightarrow> get t h r = Err StaleHandle"
  by (auto simp: dead_def get_def occupied_index_def Let_def split: slot_state.splits result.splits)

section \<open>The table as a map from handles to entries\<close>

definition lookup :: "('t, 'r) table \<Rightarrow> handle \<Rightarrow> ('t, 'r) entry option" where
  "lookup t h =
     (if is_valid h \<and> slot_index h < length (slots t) \<and>
         sl_generation (slots t ! slot_index h) = generation h
      then entry_of (slots t ! slot_index h) else None)"

lemma lookup_put:
  "i < length (slots t) \<Longrightarrow>
     lookup (put t i s n) h =
     (if slot_index h = i
      then (if is_valid h \<and> sl_generation s = generation h then entry_of s else None)
      else lookup t h)"
  by (auto simp: lookup_def)

lemma slot_index_inject:
  "slot_index h = slot_index k \<Longrightarrow> generation h = generation k \<Longrightarrow> h = k"
  by (simp add: slot_index_def handle_eq_iff word_unat_eq_iff)

lemma lookup_put_dead:
  assumes "i < length (slots t)" "sl_generation (slots t ! i) = generation h" "slot_index h = i"
    "\<not> live s"
  shows "lookup (put t i s n) = (lookup t)(h := None)"
proof
  fix k
  show "lookup (put t i s n) k = ((lookup t)(h := None)) k"
    using assms slot_index_inject [of k h] by (auto simp: lookup_put) (auto simp: lookup_def)
qed

lemma lookup_put_entry:
  assumes "i < length (slots t)" "sl_generation s = generation h" "slot_index h = i" "is_valid h"
    "entry_of s = Some e" "sl_generation (slots t ! i) = generation h"
  shows "lookup (put t i s n) = (lookup t)(h \<mapsto> e)"
proof
  fix k
  show "lookup (put t i s n) k = ((lookup t)(h \<mapsto> e)) k"
    using assms slot_index_inject [of k h] by (auto simp: lookup_put) (auto simp: lookup_def)
qed

lemma lookup_put_same:
  assumes "i < length (slots t)" "sl_generation s = sl_generation (slots t ! i)"
    "entry_of s = entry_of (slots t ! i)"
  shows "lookup (put t i s n) = lookup t"
  using assms by (auto simp: lookup_put fun_eq_iff) (auto simp: lookup_def)

lemma lookup_append_dead:
  "\<not> live s \<Longrightarrow> lookup (t\<lparr>slots := slots t @ [s]\<rparr>) = lookup t"
  by (auto simp: lookup_def fun_eq_iff nth_append less_Suc_eq)

lemma get_lookup: "get t h r = Ok e \<Longrightarrow> lookup t h = Some e \<and> contains (e_rights e) r"
  by (auto simp: get_def occupied_index_Ok lookup_def state_live
      split: result.splits slot_state.splits if_splits)

lemma lookup_evolves:
  assumes "evolves t t'" "lookup t h = Some e" "lookup t' h = Some e'"
  shows "e' = e"
  using assms
  by (auto simp: evolves_def lookup_def slot_le_def retired_not_live split: if_splits
      dest: spec [of _ "slot_index h"])

lemma reserve_slot_lookup:
  assumes "table_inv t" "reserve_slot mem t tk = (Ok h, t')"
  shows "lookup t' = lookup t \<and> lookup t h = None"
  using assms
proof (cases rule: reserve_slot_cases)
  case reuse
  then show ?thesis
    by (auto simp: lookup_put_same state_live) (auto simp: lookup_def state_live)
next
  case grow
  then show ?thesis
    by (auto simp: lookup_append_dead entry_of_def) (auto simp: lookup_def)
qed

lemma install_lookup:
  assumes "is_reserved t h tk"
  shows "lookup (put t (slot_index h) ((slots t ! slot_index h)\<lparr>sl_state := Occupied e\<rparr>) n) =
         (lookup t)(h \<mapsto> e)"
  using assms by (intro lookup_put_entry) (auto simp: is_reserved_def)

lemma insert_lookup:
  assumes "table_inv t" "insert mem t e = (Ok h, t')"
  shows "lookup t' = (lookup t)(h \<mapsto> e) \<and> lookup t h = None \<and>
         occupied_index t' h = Ok (slot_index h) \<and> sl_state (slots t' ! slot_index h) = Occupied e"
proof -
  obtain t1 where r: "reserve_slot mem t 0 = (Ok h, t1)"
    and t': "t' = put t1 (slot_index h) ((slots t1 ! slot_index h)\<lparr>sl_state := Occupied e\<rparr>) (occupied t1 + 1)"
    using assms(2) by (auto simp: insert_def set_state_put put_def split: prod.splits result.splits)
  note res = reserve_slot_reserved [OF assms(1) r]
  show ?thesis
    using res reserve_slot_lookup [OF assms(1) r] unfolding t'
    by (simp add: install_lookup occupied_index_Ok) (simp add: is_reserved_def)
qed

lemma remove_lookup:
  assumes "table_inv t" "remove t h = Some (Ok e, t')"
  shows "lookup t' = (lookup t)(h := None) \<and> lookup t h = Some e \<and> dead t' h"
proof -
  have o: "is_valid h" "slot_index h < length (slots t)"
    "sl_generation (slots t ! slot_index h) = generation h"
    "sl_state (slots t ! slot_index h) = Occupied e"
    and t': "t' = put t (slot_index h) (advanced (slots t ! slot_index h)) (occupied t - 1)"
    using assms(2)
    by (auto simp: remove_def occupied_index_Ok take_at_def release_put split: result.splits)
  then show ?thesis
    by (auto simp: lookup_put_dead dead_def advanced_def less_plus_one_word)
       (auto simp: lookup_def state_live)
qed

end
