(* ===== verification/Handle_Table_Batch.thy ===== *)
theory Handle_Table_Batch
  imports Handle_Table_Props
begin

text \<open>
  The batched operations of the handle table (extraction, pinned transfer, reservation and
  commit, bounded draining) against the map \<^const>\<open>lookup\<close>, and the properties of the
  component.
\<close>

section \<open>Occupied handles\<close>

definition occ :: "('t, 'r) table \<Rightarrow> handle \<Rightarrow> ('t, 'r) entry \<Rightarrow> bool" where
  "occ t h e \<longleftrightarrow>
     is_valid h \<and> slot_index h < length (slots t) \<and>
     sl_generation (slots t ! slot_index h) = generation h \<and>
     sl_state (slots t ! slot_index h) = Occupied e"

lemma get_Ok_iff: "get t h r = Ok e \<longleftrightarrow> occ t h e \<and> contains (e_rights e) r"
  by (auto simp: get_def occ_def occupied_index_def Let_def
      split: result.splits slot_state.splits if_splits)

lemma occ_lookup: "occ t h e \<Longrightarrow> lookup t h = Some e"
  by (simp add: occ_def lookup_def state_live)

lemma other_slot:
  "sl_generation (slots t ! slot_index h) = generation h \<Longrightarrow>
   sl_generation (slots t ! slot_index k) = generation k \<Longrightarrow> h \<noteq> k \<Longrightarrow> slot_index h \<noteq> slot_index k"
  by (metis slot_index_inject)

lemma occ_put_other:
  assumes "sl_generation (slots t ! slot_index h) = generation h" "h \<noteq> k"
  shows "occ t k e \<Longrightarrow> occ (put t (slot_index h) s n) k e"
  using assms other_slot [of t h k] by (simp add: occ_def)

lemma remove_occ:
  assumes "occ t h e"
  shows "remove t h =
    Some (Ok e, put t (slot_index h) (advanced (slots t ! slot_index h)) (occupied t - 1))"
proof -
  have "occupied_index t h = Ok (slot_index h)"
    using assms by (auto simp: occupied_index_Ok occ_def)
  then show ?thesis
    using assms by (auto simp: remove_def take_at_def release_put occ_def)
qed

section \<open>Extraction\<close>

definition item_ok :: "('t, 'r) table \<Rightarrow> rights \<Rightarrow> item \<Rightarrow> bool" where
  "item_ok t transport it \<longleftrightarrow>
     is_known (snd it) \<and>
     (\<exists>e. occ t (fst it) e \<and> contains (e_rights e) transport \<and> is_subset_of (snd it) (e_rights e))"

lemma item_ok_get:
  "item_ok t tr (h, r) \<longleftrightarrow> is_known r \<and>
     (case get t h tr of Ok e \<Rightarrow> is_subset_of r (e_rights e) | Err _ \<Rightarrow> False)"
proof (cases "get t h tr")
  case (Ok e)
  then have "occ t h e \<and> contains (e_rights e) tr" "\<And>e'. occ t h e' \<Longrightarrow> e' = e"
    by (auto simp: get_Ok_iff occ_def)
  then show ?thesis
    using Ok by (auto simp: item_ok_def)
next
  case (Err er)
  then have "\<not> (occ t h e \<and> contains (e_rights e) tr)" for e
    using get_Ok_iff [of t h tr e] by simp
  then show ?thesis
    using Err by (auto simp: item_ok_def)
qed

lemma validate_items_Cons:
  "validate_items t tr prot prior ((h, r) # items) = Ok () \<longleftrightarrow>
     h \<notin> set prior \<and> prot \<noteq> Some h \<and> item_ok t tr (h, r) \<and>
     validate_items t tr prot (h # prior) items = Ok ()"
  by (cases "get t h tr") (simp_all add: item_ok_get)

lemma validate_items_Ok:
  "validate_items t tr prot prior items = Ok () \<longleftrightarrow>
     distinct (map fst items) \<and> set (map fst items) \<inter> set prior = {} \<and>
     (\<forall>h. prot = Some h \<longrightarrow> h \<notin> set (map fst items)) \<and>
     (\<forall>it \<in> set items. item_ok t tr it)"
proof (induction items arbitrary: prior)
  case (Cons it items)
  obtain h r where it: "it = (h, r)"
    by fastforce
  show ?case
    unfolding it validate_items_Cons Cons.IH by auto
qed simp

text \<open>What one requested item becomes: its entry, with exactly the requested rights.\<close>

definition moved :: "('t, 'r) table \<Rightarrow> rights \<Rightarrow> item \<Rightarrow> ('t, 'r) entry \<Rightarrow> bool" where
  "moved t transport it e' \<longleftrightarrow>
     (\<exists>e. lookup t (fst it) = Some e \<and> contains (e_rights e) transport \<and>
          is_subset_of (snd it) (e_rights e) \<and> e' = with_rights e (snd it))"

lemma commit_extraction_exact:
  assumes "distinct (map fst items)" "\<forall>it \<in> set items. item_ok t tr it"
  shows "\<exists>es t'. commit_extraction t items = Some (es, t') \<and>
           lookup t' = (lookup t) |` (- set (map fst items)) \<and> list_all2 (moved t tr) items es"
  using assms
proof (induction items arbitrary: t)
  case Nil
  then show ?case
    by (simp add: restrict_map_def fun_eq_iff)
next
  case (Cons it items)
  obtain h r where it: "it = (h, r)"
    by fastforce
  obtain e where e: "occ t h e" "contains (e_rights e) tr" "is_subset_of r (e_rights e)"
    using Cons.prems(2) it by (auto simp: item_ok_def)
  define t1 where "t1 = put t (slot_index h) (advanced (slots t ! slot_index h)) (occupied t - 1)"
  have g: "sl_generation (slots t ! slot_index h) = generation h" "slot_index h < length (slots t)"
    using e(1) by (auto simp: occ_def)
  have lk: "lookup t1 = (lookup t)(h := None)"
    unfolding t1_def using g by (intro lookup_put_dead) auto
  have other: "k \<noteq> h" if "(k, q) \<in> set items" for k q
    using that Cons.prems(1) it by force
  have "\<forall>it \<in> set items. item_ok t1 tr it"
  proof
    fix i
    assume "i \<in> set items"
    then show "item_ok t1 tr i"
      using Cons.prems(2) other [of "fst i" "snd i"] occ_put_other [OF g(1), of "fst i"]
      unfolding item_ok_def t1_def by simp blast
  qed
  then obtain es t' where ih: "commit_extraction t1 items = Some (es, t')"
    "lookup t' = (lookup t1) |` (- set (map fst items))" "list_all2 (moved t1 tr) items es"
    using Cons.IH [of t1] Cons.prems(1) by auto
  have "list_all2 (moved t tr) items es"
  proof (rule list.rel_mono_strong [OF ih(3)])
    fix z y
    assume "z \<in> set items" "moved t1 tr z y"
    then show "moved t tr z y"
      using other [of "fst z" "snd z"] by (simp add: moved_def lk)
  qed
  then have "list_all2 (moved t tr) (it # items) (with_rights e r # es)"
    using e it occ_lookup [OF e(1)] by (auto simp: moved_def)
  moreover have "lookup t' = (lookup t) |` (- set (map fst (it # items)))"
    by (auto simp: ih(2) lk it restrict_map_def fun_eq_iff)
  moreover have "commit_extraction t (it # items) = Some (with_rights e r # es, t')"
    using ih(1) remove_occ [OF e(1), folded t1_def] by (simp add: it)
  ultimately show ?case
    by blast
qed

section \<open>Pinned transactions\<close>

definition pinned :: "('t, 'r) table \<Rightarrow> u64 \<Rightarrow> handle \<Rightarrow> ('t, 'r) entry \<Rightarrow> bool" where
  "pinned t tk h e \<longleftrightarrow> pinned_at t tk h = Some e"

definition pin_slot :: "('t, 'r) table \<Rightarrow> u64 \<Rightarrow> handle \<Rightarrow> ('t, 'r) table" where
  "pin_slot t tk h =
     put t (slot_index h)
       ((slots t ! slot_index h)\<lparr>sl_state := Pinned tk (the (lookup t h))\<rparr>) (occupied t)"

lemma pin_entry_occ: "occ t h e \<Longrightarrow> pin_entry t h tk = Some (pin_slot t tk h)"
proof -
  assume o: "occ t h e"
  then have "occupied_index t h = Ok (slot_index h)"
    by (auto simp: occupied_index_Ok occ_def)
  then show ?thesis
    using o occ_lookup [OF o] by (simp add: pin_entry_def pin_slot_def set_state_put occ_def)
qed

lemma pin_slot_lookup: "occ t h e \<Longrightarrow> lookup (pin_slot t tk h) = lookup t"
  unfolding pin_slot_def
  by (rule lookup_put_same) (auto simp: occ_def lookup_def state_live)

lemma pin_slot_pinned: "occ t h e \<Longrightarrow> pinned (pin_slot t tk h) tk h e"
  using occ_lookup [of t h e] by (auto simp: pinned_def pin_slot_def pinned_at_Some occ_def)

lemma occ_pin_slot_other: "occ t h e' \<Longrightarrow> h \<noteq> k \<Longrightarrow> occ t k e \<Longrightarrow> occ (pin_slot t tk h) k e"
  unfolding pin_slot_def by (rule occ_put_other) (auto simp: occ_def)

lemma pinned_put_other:
  assumes "sl_generation (slots t ! slot_index h) = generation h" "h \<noteq> k"
  shows "pinned t tk k e \<Longrightarrow> pinned (put t (slot_index h) s n) tk k e"
  using assms other_slot [of t h k] by (simp add: pinned_def pinned_at_Some)

lemma pin_entries_exact:
  "distinct hs \<Longrightarrow> \<forall>h \<in> set hs. \<exists>e. occ t h e \<Longrightarrow>
     \<exists>t'. pin_entries t hs tk = Some t' \<and> lookup t' = lookup t \<and>
       (\<forall>h e. h \<in> set hs \<longrightarrow> occ t h e \<longrightarrow> pinned t' tk h e) \<and>
       (\<forall>h e. h \<notin> set hs \<longrightarrow> occ t h e \<longrightarrow> occ t' h e) \<and>
       (\<forall>h e. h \<notin> set hs \<longrightarrow> pinned t tk h e \<longrightarrow> pinned t' tk h e)"
proof (induction hs arbitrary: t)
  case (Cons h hs)
  obtain e where e: "occ t h e"
    using Cons.prems by auto
  have g: "sl_generation (slots t ! slot_index h) = generation h"
    using e by (simp add: occ_def)
  let ?t = "pin_slot t tk h"
  have other: "occ t k e' \<Longrightarrow> k \<noteq> h \<Longrightarrow> occ ?t k e'" for k e'
    using occ_pin_slot_other [OF e, of k e' tk] by auto
  have d: "distinct hs" "h \<notin> set hs"
    using Cons.prems(1) by auto
  have "\<exists>e. occ ?t k e" if k: "k \<in> set hs" for k
  proof -
    obtain e' where "occ t k e'"
      using k Cons.prems(2) by auto
    then show ?thesis
      using k d other [of k e'] by blast
  qed
  then have "\<forall>k \<in> set hs. \<exists>e. occ ?t k e"
    by blast
  from Cons.IH [OF d(1) this] obtain t' where
    t': "pin_entries ?t hs tk = Some t'" "lookup t' = lookup ?t"
    "\<forall>h e. h \<in> set hs \<longrightarrow> occ ?t h e \<longrightarrow> pinned t' tk h e"
    "\<forall>h e. h \<notin> set hs \<longrightarrow> occ ?t h e \<longrightarrow> occ t' h e"
    "\<forall>h e. h \<notin> set hs \<longrightarrow> pinned ?t tk h e \<longrightarrow> pinned t' tk h e"
    by (elim exE conjE)
  have h: "pinned t' tk h e" "\<And>e'. occ t h e' \<Longrightarrow> e' = e"
    using t'(5) pin_slot_pinned [OF e] d(2) e by (blast, simp add: occ_def)
  have keep: "pinned t tk k e' \<Longrightarrow> k \<noteq> h \<Longrightarrow> pinned ?t tk k e'" for k e'
    unfolding pin_slot_def by (intro pinned_put_other [OF g]) auto
  have "pinned t' tk k e'" if "k \<in> set (h # hs)" "occ t k e'" for k e'
    using that h t'(3) other by (cases "k = h") auto
  note f1 = this
  have "occ t' k e'" if "k \<notin> set (h # hs)" "occ t k e'" for k e'
    using that t'(4) other by auto
  note f2 = this
  have "pinned t' tk k e'" if "k \<notin> set (h # hs)" "pinned t tk k e'" for k e'
    using that t'(5) keep by auto
  note f3 = this
  have f4: "pin_entries t (h # hs) tk = Some t'" "lookup t' = lookup t"
    using t'(1,2) pin_entry_occ [OF e] pin_slot_lookup [OF e] by auto
  show ?case
    by (intro exI [of _ t'] conjI allI impI) (erule (1) f1 f2 f3 | rule f4)+
qed simp

lemma take_pinned_exact:
  assumes "pinned t tk h e"
  shows "take_pinned t tk h =
    Some (e, put t (slot_index h) (advanced (slots t ! slot_index h)) (occupied t - 1))"
  using assms by (auto simp: pinned_def take_pinned_def pinned_at_Some release_put Let_def)

lemma pinned_lookup: "pinned t tk h e \<Longrightarrow> lookup t h = Some e"
  by (simp add: pinned_def pinned_at_Some lookup_def state_live)

lemma take_all_pinned_exact:
  assumes "distinct (map fst items)" "p \<notin> set (map fst items)"
    and "\<forall>h \<in> set (map fst items). \<exists>e. pinned t tk h e" "pinned t tk p ep"
  shows "\<exists>es t'. take_all_pinned t tk items = Some (es, t') \<and>
           lookup t' = (lookup t) |` (- set (map fst items)) \<and> pinned t' tk p ep \<and>
           es = map (\<lambda>(h, r). with_rights (the (lookup t h)) r) items"
  using assms
proof (induction items arbitrary: t)
  case Nil
  then show ?case
    by (simp add: restrict_map_def fun_eq_iff)
next
  case (Cons it items)
  obtain h r where it: "it = (h, r)"
    by fastforce
  obtain e where e: "pinned t tk h e"
    using Cons.prems(3) it by auto
  define t1 where "t1 = put t (slot_index h) (advanced (slots t ! slot_index h)) (occupied t - 1)"
  have g: "sl_generation (slots t ! slot_index h) = generation h" "slot_index h < length (slots t)"
    using e by (auto simp: pinned_def pinned_at_Some)
  have lk: "lookup t1 = (lookup t)(h := None)"
    unfolding t1_def using g by (intro lookup_put_dead) auto
  have keep: "pinned t1 tk k e'" if "k \<noteq> h" "pinned t tk k e'" for k e'
    unfolding t1_def using that by (intro pinned_put_other [OF g(1)]) auto
  have notin: "h \<notin> set (map fst items)" "distinct (map fst items)" "p \<notin> set (map fst items)" "p \<noteq> h"
    using Cons.prems(1,2) it by auto
  have "\<forall>k \<in> set (map fst items). \<exists>e. pinned t1 tk k e"
  proof
    fix k
    assume k: "k \<in> set (map fst items)"
    then obtain e' where "pinned t tk k e'"
      using Cons.prems(3) by auto
    then show "\<exists>e. pinned t1 tk k e"
      using k notin(1) keep [of k e'] by blast
  qed
  from Cons.IH [OF notin(2,3) this keep [OF notin(4) Cons.prems(4)]] obtain es t' where
    ih: "take_all_pinned t1 tk items = Some (es, t')"
      "lookup t' = (lookup t1) |` (- set (map fst items))" "pinned t' tk p ep"
      "es = map (\<lambda>(h, r). with_rights (the (lookup t1 h)) r) items"
    by (elim exE conjE)
  have "es = map (\<lambda>(h, r). with_rights (the (lookup t h)) r) items"
    unfolding ih(4) lk using notin(1) by (auto intro!: map_cong) (metis fst_conv image_eqI)
  moreover have "lookup t' = (lookup t) |` (- set (map fst (it # items)))"
    by (auto simp: ih(2) lk it restrict_map_def fun_eq_iff)
  moreover have "take_all_pinned t tk (it # items) = Some (with_rights e r # es, t')"
    using ih(1) take_pinned_exact [OF e, folded t1_def] by (simp add: it)
  ultimately show ?case
    using ih(3) pinned_lookup [OF e] by (simp add: it)
qed

lemma pin_transfer_Ok:
  assumes "pin_transfer t p pr grants tk = Some (Ok (), t')"
  shows "tk \<noteq> 0 \<and> validate_items t GRANT (Some p) [] grants = Ok () \<and>
         (\<exists>e. occ t p e \<and> contains (e_rights e) pr)"
proof -
  have "tk \<noteq> 0"
    using assms by (auto simp: pin_transfer_def pin_transaction_def)
  moreover obtain e where e: "get t p pr = Ok e"
    using assms \<open>tk \<noteq> 0\<close>
    by (cases "get t p pr") (simp_all add: pin_transfer_def pin_transaction_def)
  moreover have "validate_items t GRANT (Some p) [] grants = Ok ()"
    using assms \<open>tk \<noteq> 0\<close> e
    by (cases "validate_items t GRANT (Some p) [] grants")
       (simp_all add: pin_transfer_def pin_transaction_def)
  ultimately show ?thesis
    by (auto simp: get_Ok_iff)
qed

lemma pin_transfer_run:
  assumes "validate_items t GRANT (Some p) [] grants = Ok ()" "occ t p ep"
    "contains (e_rights ep) pr" "tk \<noteq> 0"
  shows "\<exists>t'. pin_transfer t p pr grants tk = Some (Ok (), t') \<and> lookup t' = lookup t \<and>
           (\<forall>h e. h \<in> set (p # map fst grants) \<longrightarrow> occ t h e \<longrightarrow> pinned t' tk h e)"
proof -
  have v: "distinct (map fst grants)" "p \<notin> set (map fst grants)"
    "\<forall>h \<in> set (map fst grants). \<exists>e. occ t h e"
    using assms(1) by (auto simp: validate_items_Ok item_ok_def)
  obtain t1 where t1: "pin_entries t (map fst grants) tk = Some t1" "lookup t1 = lookup t"
    "\<forall>h e. h \<in> set (map fst grants) \<longrightarrow> occ t h e \<longrightarrow> pinned t1 tk h e"
    "\<forall>h e. h \<notin> set (map fst grants) \<longrightarrow> occ t h e \<longrightarrow> occ t1 h e"
    using pin_entries_exact [OF v(1,3), of tk] by (elim exE conjE)
  have p: "occ t1 p ep"
    using t1(4) v(2) assms(2) by blast
  then have g: "sl_generation (slots t1 ! slot_index p) = generation p"
    by (simp add: occ_def)
  let ?t = "pin_slot t1 tk p"
  have "get t p pr = Ok ep"
    using assms by (simp add: get_Ok_iff)
  then have run: "pin_transfer t p pr grants tk = Some (Ok (), ?t)"
    using assms t1(1) pin_entry_occ [OF p] by (simp add: pin_transfer_def pin_transaction_def)
  have "pinned ?t tk h e" if "h \<in> set (p # map fst grants)" "occ t h e" for h e
  proof (cases "h = p")
    case True
    then show ?thesis
      using that assms(2) pin_slot_pinned [OF p] by (auto simp: occ_def)
  next
    case False
    then have "pinned t1 tk h e"
      using that t1(3) by auto
    then show ?thesis
      unfolding pin_slot_def using False by (intro pinned_put_other [OF g]) auto
  qed
  then show ?thesis
    using run t1(2) pin_slot_lookup [OF p] by (intro exI [of _ ?t]) simp
qed

lemma restore_pinned_exact:
  assumes "pinned t tk h e"
  shows "\<exists>t'. restore_pinned t tk h = Some t' \<and> lookup t' = lookup t \<and> occ t' h e"
proof -
  let ?t = "put t (slot_index h) ((slots t ! slot_index h)\<lparr>sl_state := Occupied e\<rparr>) (occupied t)"
  have p: "is_valid h" "slot_index h < length (slots t)"
    "sl_generation (slots t ! slot_index h) = generation h" "sl_state (slots t ! slot_index h) = Pinned tk e"
    using assms by (auto simp: pinned_def pinned_at_Some)
  then have "lookup ?t = lookup t" "occ ?t h e"
    by (auto simp: occ_def state_live intro!: lookup_put_same)
  then show ?thesis
    using assms by (auto simp: restore_pinned_def pinned_def set_state_put)
qed





section \<open>Reservations\<close>

lemma lookup_put_nonlive:
  "i < length (slots t) \<Longrightarrow> \<not> live (slots t ! i) \<Longrightarrow> \<not> live s \<Longrightarrow> lookup (put t i s n) = lookup t"
  by (auto simp: lookup_put fun_eq_iff) (auto simp: lookup_def)

lemma reserve_slot_is_reserved:
  assumes "table_inv t" "reserve_slot mem t tk = (Ok h, t')"
  shows "is_reserved t' k tk \<longleftrightarrow> is_reserved t k tk \<or> k = h"
  using assms
proof (cases rule: reserve_slot_cases)
  case reuse
  then show ?thesis
    using slot_index_inject [of k h]
    by (cases "slot_index k = slot_index h") (auto simp: is_reserved_def)
next
  case grow
  then show ?thesis
    using slot_index_inject [of k h]
    by (cases "slot_index k = slot_index h") (auto simp: is_reserved_def nth_append)
qed

lemma reserve_slot_fresh:
  assumes "table_inv t" "reserve_slot mem t tk = (Ok h, t')"
  shows "\<not> is_reserved t h tk'"
  using assms by (cases rule: reserve_slot_cases) (auto simp: is_reserved_def)

lemma advanced_not_reserved: "sl_state (advanced s) \<noteq> Reserved tk"
  by (simp add: advanced_def)

lemma rollback_handles_exact:
  "lookup (rollback_handles t hs tk) = lookup t \<and>
   (is_reserved (rollback_handles t hs tk) k tk \<longleftrightarrow> is_reserved t k tk \<and> k \<notin> set hs)"
proof (induction t hs tk rule: rollback_handles.induct)
  case (2 t h hs tk)
  let ?t = "put t (slot_index h) (advanced (slots t ! slot_index h)) (occupied t)"
  show ?case
  proof (cases "is_reserved t h tk")
    case True
    note i = is_reserved_index [OF True]
    have "is_reserved ?t k tk \<longleftrightarrow> is_reserved t k tk \<and> k \<noteq> h"
      using i True slot_index_inject [of k h]
      by (cases "slot_index k = slot_index h") (auto simp: is_reserved_def advanced_not_reserved)
    then show ?thesis
      using 2 True i by (auto simp: vacate_put lookup_put_nonlive)
  next
    case False
    then show ?thesis
      using 2 by auto
  qed
qed simp

lemma reserve_loop_exact:
  assumes "table_inv t" "distinct hs" "\<And>k. is_reserved t k tk \<longleftrightarrow> k \<in> set hs"
  shows "case reserve_loop mem t n tk hs of
      (Ok hs', t') \<Rightarrow> length hs' = length hs + n \<and> distinct hs' \<and> lookup t' = lookup t \<and>
        (\<forall>k. is_reserved t' k tk \<longleftrightarrow> k \<in> set hs')
    | (Err er, t') \<Rightarrow> lookup t' = lookup t \<and> (\<forall>k. \<not> is_reserved t' k tk)"
  using assms
proof (induction n arbitrary: t hs)
  case (Suc n)
  obtain r1 t1 where rs: "reserve_slot mem t tk = (r1, t1)"
    by fastforce
  show ?case
  proof (cases r1)
    case (Ok h)
    note rs' = Suc.prems(1) rs [unfolded Ok]
    have t1: "table_inv t1" "lookup t1 = lookup t"
      using reserve_slot_safe [OF rs'] reserve_slot_lookup [OF rs'] by (auto simp: safe_inv)
    have "distinct (hs @ [h])" "\<And>k. is_reserved t1 k tk \<longleftrightarrow> k \<in> set (hs @ [h])"
      using Suc.prems reserve_slot_fresh [OF rs', of tk] reserve_slot_is_reserved [OF rs'] by auto
    from Suc.IH [OF t1(1) this] show ?thesis
      using t1(2) by (simp add: rs Ok split: prod.splits result.splits)
  next
    case (Err er)
    then show ?thesis
      using Suc.prems(3) rs reserve_slot_Err [of mem t tk er t1]
      by (simp add: rollback_handles_exact)
  qed
qed simp

lemma no_reserved:
  "\<not> (\<exists>s \<in> set (slots t). sl_state s = Reserved tk) \<Longrightarrow> \<not> is_reserved t h tk"
  by (auto simp: is_reserved_def)

lemma reserve_Ok:
  assumes "table_inv t" "reserve mem t n tk = (Ok rs, t')"
  shows "length (res_handles rs) = n \<and> distinct (res_handles rs) \<and> lookup t' = lookup t \<and>
         res_token rs = tk \<and> (\<forall>k. is_reserved t' k tk \<longleftrightarrow> k \<in> set (res_handles rs))"
proof -
  have "\<not> (\<exists>s \<in> set (slots t). sl_state s = Reserved tk)"
    using assms(2) by (auto simp: reserve_def split: if_splits)
  then have "is_reserved t k tk \<longleftrightarrow> k \<in> set []" for k
    using no_reserved by auto
  from reserve_loop_exact [OF assms(1) _ this, of n mem] show ?thesis
    using assms(2) by (auto simp: reserve_def split: if_splits prod.splits result.splits)
qed

lemma reserve_distinct:
  "table_inv t \<Longrightarrow> reserve mem t n tk = (Ok rs, t') \<Longrightarrow> distinct (res_handles rs)"
  by (simp add: reserve_Ok)

lemma reserve_Err:
  assumes "table_inv t" "reserve mem t n tk = (Err er, t')"
  shows "lookup t' = lookup t \<and> (t' = t \<or> (\<forall>k. \<not> is_reserved t' k tk))"
proof (cases "t' = t")
  case False
  then have "\<not> (\<exists>s \<in> set (slots t). sl_state s = Reserved tk)"
    using assms(2) by (auto simp: reserve_def split: if_splits)
  then have "is_reserved t k tk \<longleftrightarrow> k \<in> set []" for k
    using no_reserved by auto
  from reserve_loop_exact [OF assms(1) _ this, of n mem] show ?thesis
    using assms(2) by (auto simp: reserve_def split: if_splits prod.splits result.splits)
qed simp

lemma install_exact:
  "distinct hs \<Longrightarrow> \<forall>h \<in> set hs. is_reserved t h tk \<Longrightarrow> length hs = length es \<Longrightarrow>
     lookup (install t (zip hs es)) = (lookup t)(hs [\<mapsto>] es)"
proof (induction hs arbitrary: t es)
  case (Cons h hs)
  obtain e es' where es: "es = e # es'"
    using Cons.prems(3) by (cases es) auto
  define t1 where
    "t1 = put t (slot_index h) ((slots t ! slot_index h)\<lparr>sl_state := Occupied e\<rparr>) (occupied t + 1)"
  have r: "is_reserved t h tk"
    using Cons.prems by simp
  have "is_reserved t1 k tk" if "k \<in> set hs" for k
  proof -
    have "is_reserved t k tk" "h \<noteq> k"
      using that Cons.prems by auto
    then show ?thesis
      using r other_slot [of t h k] by (simp add: t1_def is_reserved_def)
  qed
  then have "lookup (install t1 (zip hs es')) = (lookup t1)(hs [\<mapsto>] es')"
    using Cons by (simp add: es)
  moreover have "install t (zip (h # hs) es) = install t1 (zip hs es')"
    by (simp add: es t1_def set_state_put put_def)
  moreover have "lookup t1 = (lookup t)(h \<mapsto> e)"
    unfolding t1_def by (rule install_lookup [OF r])
  ultimately show ?case
    by (simp add: es)
qed simp

section \<open>Draining\<close>

definition occupied_entry :: "('t, 'r) slot_rec \<Rightarrow> ('t, 'r) entry list" where
  "occupied_entry s = (case sl_state s of Occupied e \<Rightarrow> [e] | _ \<Rightarrow> [])"

text \<open>The entries a drain from slot \<open>c\<close> on has still to deliver, in slot order.\<close>

definition remaining :: "('t, 'r) table \<Rightarrow> nat \<Rightarrow> ('t, 'r) entry list" where
  "remaining t c = concat (map occupied_entry (drop c (slots t)))"

lemma remaining_step:
  "c < length (slots t) \<Longrightarrow> remaining t c = occupied_entry (slots t ! c) @ remaining t (Suc c)"
  by (simp add: remaining_def Cons_nth_drop_Suc [symmetric])

lemma remaining_put [simp]: "remaining (put t c s n) (Suc c) = remaining t (Suc c)"
  by (simp add: remaining_def)

lemma take_at_remaining:
  assumes "c < length (slots t)"
  shows "take_at t c = Some (e, t') \<Longrightarrow> remaining t c = e # remaining t' (Suc c) \<and> length (slots t') = length (slots t)"
    and "take_at t c = None \<Longrightarrow> remaining t c = remaining (drop_reserved t c) (Suc c)"
  using assms
  by (auto simp: take_at_def remaining_step release_put vacate_put occupied_entry_def drop_reserved_def
      split: slot_state.splits)

lemma take_next_bounded_from_exact:
  assumes "k \<le> m"
  shows "take_next_bounded_from t c m k = (r, c', t') \<Longrightarrow>
     c \<le> c' \<and> c' + k \<le> c + m \<and>
     (case r of
        TakenEntry e \<Rightarrow> remaining t c = e # remaining t' c' \<and> c < c' \<and> c' \<le> length (slots t)
      | Progress \<Rightarrow> remaining t c = remaining t' c' \<and> c' + k = c + m \<and> c' < length (slots t)
      | Exhausted \<Rightarrow> remaining t c = [] \<and> length (slots t) \<le> c')"
  using assms
proof (induction t c m k rule: take_next_bounded_from.induct)
  case (1 t c m k)
  show ?case
  proof (cases "c < length (slots t) \<and> k < m")
    case True
    show ?thesis
    proof (cases "take_at t c")
      case None
      then have "take_next_bounded_from (drop_reserved t c) (c + 1) m (k + 1) = (r, c', t')"
        using 1(2) True by (simp add: take_next_bounded_from.simps [of t c])
      with 1(1) [OF _ _ None] show ?thesis
        using True None take_at_remaining(2) [of c t] by (auto split: take_next_result.splits)
    next
      case (Some p)
      then show ?thesis
        using 1(2) True take_at_remaining(1) [of c t]
        by (cases p) (auto simp: take_next_bounded_from.simps [of t c])
    qed
  next
    case False
    then show ?thesis
      using 1(2,3) by (auto simp: take_next_bounded_from.simps [of t c] remaining_def split: if_splits)
  qed
qed

section \<open>Counting\<close>

lemma live_handles_image:
  assumes "table_inv t"
  shows "{h. lookup t h \<noteq> None} =
    (\<lambda>i. from_parts (of_nat i) (sl_generation (slots t ! i))) `
      {i. i < length (slots t) \<and> live (slots t ! i)}" (is "?L = ?f ` ?I")
proof
  show "?L \<subseteq> ?f ` ?I"
  proof
    fix h
    assume "h \<in> ?L"
    then have h: "slot_index h \<in> ?I" "sl_generation (slots t ! slot_index h) = generation h"
      by (auto simp: lookup_def split: if_splits)
    moreover have "?f (slot_index h) = h"
      using h(2) by (simp add: slot_index_def from_parts_slot_generation)
    ultimately show "h \<in> ?f ` ?I"
      by (intro image_eqI [where x = "slot_index h"]) simp_all
  qed
  have "lookup t (?f i) = entry_of (slots t ! i)" if "i \<in> ?I" for i
  proof -
    have "i \<noteq> 0"
      using that assms by (metis (mono_tags) mem_Collect_eq retired_not_live slot_rec.select_convs(2) table_inv_def)
    then have i: "i < 2 ^ 32" "0 < i" "sl_generation (slots t ! i) \<noteq> 0"
      using that assms table_inv_index [of t i] by (simp_all add: table_inv_def)
    then show ?thesis
      using that is_valid_from_parts [OF i(2,1,3)] by (simp add: lookup_def)
  qed
  then show "?f ` ?I \<subseteq> ?L"
    by auto
qed

lemma occupied_card:
  assumes "table_inv t"
  shows "occupied t = card {h. lookup t h \<noteq> None}"
proof -
  have "inj_on (\<lambda>i. from_parts (of_nat i) (sl_generation (slots t ! i))) {i. i < length (slots t) \<and> live (slots t ! i)}"
    by (rule inj_on_inverseI [where g = slot_index]) (simp add: table_inv_index [OF assms, simplified])
  then show ?thesis
    unfolding live_handles_image [OF assms] using assms
    by (simp add: card_image table_inv_def length_filter_conv_card)
qed

lemma occupied_le_limit:
  assumes "table_inv t"
  shows "occupied t \<le> limit t"
proof -
  obtain s ss where s: "slots t = s # ss" "\<not> live s"
    using assms by (cases "slots t") (auto simp: table_inv_def entry_of_def)
  then have "occupied t = length (filter live ss)" "length ss \<le> limit t"
    using assms by (auto simp: table_inv_def)
  then show ?thesis
    using length_filter_le [of live ss] by linarith
qed

section \<open>A run of the table\<close>

text \<open>Concrete tables for the examples: an insertion, a removal and an insertion into the same slot.\<close>

definition demo_entry :: "(nat, nat) entry" where
  "demo_entry = \<lparr>e_object = 7, e_role = 1, e_rights = RIGHTS_KNOWN\<rparr>"

definition demo_table :: "(nat, nat) slot_rec list \<Rightarrow> nat \<Rightarrow> (nat, nat) table" where
  "demo_table ss n = \<lparr>slots = \<lparr>sl_generation = 0, sl_state = Retired\<rparr> # ss, limit = 4, occupied = n\<rparr>"

definition demo_slot :: "u32 \<Rightarrow> (nat, nat) slot_rec" where
  "demo_slot g = \<lparr>sl_generation = g, sl_state = Occupied demo_entry\<rparr>"

definition demo_vacant :: "u32 \<Rightarrow> (nat, nat) slot_rec" where
  "demo_vacant g = \<lparr>sl_generation = g, sl_state = Vacant\<rparr>"

lemma demo_init: "ht_init (demo_table [] 0)"
  unfolding ht_init_def
  by (intro exI [of _ "\<lambda>_. True"] exI [of _ 4]) (simp add: try_with_limit_def demo_table_def)

lemma demo_insert:
  "insert (\<lambda>_. True) (demo_table [] 0) demo_entry = (Ok (from_parts 1 1), demo_table [demo_slot 1] 1)"
  by code_simp

lemma demo_insert2:
  "insert (\<lambda>_. True) (demo_table [demo_slot 1] 1) demo_entry =
     (Ok (from_parts 2 1), demo_table [demo_slot 1, demo_slot 1] 2)"
  by code_simp

lemma demo_remove:
  "remove (demo_table [demo_slot 1] 1) (from_parts 1 1) =
     Some (Ok demo_entry, demo_table [demo_vacant 2] 0)"
  by code_simp

lemma demo_reinsert:
  "insert (\<lambda>_. True) (demo_table [demo_vacant 2] 0) demo_entry =
     (Ok (from_parts 1 2), demo_table [demo_slot 2] 1)"
  by code_simp

lemma demo_step1: "ht_step\<^sup>*\<^sup>* (demo_table [] 0) (demo_table [demo_slot 1] 1)"
  using ht_step.insert [OF demo_insert] by (rule r_into_rtranclp)

lemma demo_step2: "ht_step\<^sup>*\<^sup>* (demo_table [demo_vacant 2] 0) (demo_table [demo_slot 2] 1)"
  using ht_step.insert [OF demo_reinsert] by (rule r_into_rtranclp)

lemma demo_inv: "table_inv (demo_table [] 0)"
  by (rule ht_init_inv [OF demo_init])

lemma demo_pin:
  "pin_transfer (demo_table [demo_slot 1, demo_slot 1] 2) (from_parts 1 1) WRITE
     [(from_parts 2 1, READ)] 5 =
   Some (Ok (), demo_table [\<lparr>sl_generation = 1, sl_state = Pinned 5 demo_entry\<rparr>,
                            \<lparr>sl_generation = 1, sl_state = Pinned 5 demo_entry\<rparr>] 2)"
  by code_simp

lemma demo_drain:
  "take_next_bounded (demo_table [demo_vacant 2, demo_slot 1] 1) 0 3 =
     (TakenEntry demo_entry, 3, demo_table [demo_vacant 2, demo_vacant 2] 0)"
  by code_simp

section \<open>Properties\<close>

text \<open>
  Claim C6. No handle comes back from the dead: once a table, whatever was done to it before,
  has removed the entry of a handle, that handle is stale for ever after, through any sequence
  of operations, including those that reuse its slot.
\<close>

theorem stale_forever:
  assumes "ht_init t0" "ht_step\<^sup>*\<^sup>* t0 t" "remove t h = Some (Ok e, t1)" "ht_step\<^sup>*\<^sup>* t1 t2"
  shows "get t2 h r = Err StaleHandle"
proof -
  have t: "table_inv t"
    using assms(1,2) by (rule ht.inv_reachable)
  have "dead t1 h" "table_inv t1"
    using remove_lookup [OF t assms(3)] remove_safe [OF t assms(3)] by (auto simp: safe_inv)
  then have "dead t2 h"
    using ht.dead_forever [OF assms(4)] by blast
  moreover have "is_valid h"
    using assms(3) by (auto simp: remove_def occupied_index_def split: if_splits)
  ultimately show ?thesis
    by (rule dead_get)
qed

theorem stale_forever_witness:
  "get (demo_table [demo_slot 2] 1) (from_parts 1 1) READ = Err StaleHandle"
  by (rule stale_forever [OF demo_init demo_step1 demo_remove demo_step2])

text \<open>
  A handle names one entry: if it resolves at two moments of a table's life, it resolves to
  the same object with the same role and the same rights.
\<close>

theorem handle_names_one_entry:
  assumes "ht_init t0" "ht_step\<^sup>*\<^sup>* t0 t1" "ht_step\<^sup>*\<^sup>* t1 t2"
    and "get t1 h r1 = Ok e1" "get t2 h r2 = Ok e2"
  shows "e2 = e1"
proof -
  have "evolves t1 t2"
    using assms(1-3) ht.inv_reachable steps_evolve by blast
  then show ?thesis
    using assms(4,5) by (auto dest: get_lookup intro: lookup_evolves)
qed

text \<open>
  The table's count is exact and bounded: \<open>len\<close> is the number of handles that name an
  entry, pinned ones included, and never exceeds the limit.
\<close>

theorem len_exact:
  assumes "ht_init t0" "ht_step\<^sup>*\<^sup>* t0 t"
  shows "len t = card {h. lookup t h \<noteq> None} \<and> len t \<le> limit t"
  unfolding len_def
  using ht.inv_reachable [OF assms] occupied_card occupied_le_limit by blast

text \<open>
  \<open>insert\<close> installs under a fresh handle: the handle named nothing before, names
  exactly the inserted entry afterwards, resolves for every right the entry has, and no other
  handle is affected; a refused insertion changes nothing.
\<close>

theorem insert_fresh:
  assumes "table_inv t" "insert mem t e = (res, t')"
  shows "case res of
      Ok h \<Rightarrow> lookup t h = None \<and> lookup t' = (lookup t)(h \<mapsto> e) \<and>
        get t' h r = (if contains (e_rights e) r then Ok e else Err RightsDenied)
    | Err _ \<Rightarrow> t' = t"
proof (cases res)
  case (Ok h)
  then show ?thesis
    using insert_lookup [OF assms(1), of mem e h t'] assms(2) by (simp add: get_def)
next
  case (Err er)
  then show ?thesis
    using assms(2) reserve_slot_Err [of mem t 0]
    by (auto simp: insert_def split: prod.splits result.splits)
qed

text \<open>
  Claim C7. Extraction (\<open>extract_moves\<close>, \<open>extract_grants\<close>) is atomic and never amplifies: it
  does not panic; on an error the table is unchanged; on success exactly the requested handles
  are gone, and each delivered entry is the one its handle named, which carried the transport
  right, cut down to the requested subset of its rights.
\<close>

theorem extract_atomic:
  "case extract_with mem t items transport of
     None \<Rightarrow> False
   | Some (Err er, t') \<Rightarrow> t' = t
   | Some (Ok es, t') \<Rightarrow> distinct (map fst items) \<and>
       lookup t' = (lookup t) |` (- set (map fst items)) \<and>
       list_all2 (moved t transport) items es"
proof (cases "prepare_extract_with mem t items transport")
  case (Ok u)
  then have v: "validate_items t transport None [] items = Ok ()"
    by (auto simp: prepare_extract_with_def split: if_splits)
  then have "distinct (map fst items)" "\<forall>it \<in> set items. item_ok t transport it"
    by (auto simp: validate_items_Ok)
  then show ?thesis
    using commit_extraction_exact [of items t transport] Ok by (auto simp: extract_with_def)
next
  case (Err er)
  then show ?thesis
    by (simp add: extract_with_def)
qed

text \<open>
  Claim C8. A direct transfer commits exactly: after \<open>pin_transfer\<close> succeeds nothing has
  changed for a reader that ignores busy marks, \<open>commit_pinned_transfer\<close> does not panic, moves out the granted entries with
  the requested rights, in order, and leaves the protected handle usable as before.
\<close>

theorem transfer_exact:
  assumes "pin_transfer t p pr grants tk = Some (Ok (), t1)"
  shows "lookup t1 = lookup t \<and>
    (\<exists>es t2. commit_pinned_transfer t1 tk p grants = Some (es, t2) \<and>
       lookup t2 = (lookup t) |` (- set (map fst grants)) \<and>
       list_all2 (moved t GRANT) grants es \<and> get t2 p pr = get t p pr)"
proof -
  obtain ep where v: "tk \<noteq> 0" "validate_items t GRANT (Some p) [] grants = Ok ()" "occ t p ep"
    "contains (e_rights ep) pr"
    using pin_transfer_Ok [OF assms] by blast
  have t1: "lookup t1 = lookup t"
    and pin: "\<And>h e. h \<in> set (p # map fst grants) \<Longrightarrow> occ t h e \<Longrightarrow> pinned t1 tk h e"
    using pin_transfer_run [OF v(2-4,1)] assms by auto
  have d: "distinct (map fst grants)" "p \<notin> set (map fst grants)"
    and ok: "\<And>it. it \<in> set grants \<Longrightarrow> item_ok t GRANT it"
    using v(2) by (auto simp: validate_items_Ok)
  have gp: "\<exists>e. occ t (fst it) e \<and> pinned t1 tk (fst it) e \<and> moved t GRANT it (with_rights e (snd it))"
    if "it \<in> set grants" for it
    using ok [OF that] pin [of "fst it"] that occ_lookup [of t "fst it"]
    by (auto simp: item_ok_def moved_def)
  then have "\<forall>h \<in> set (map fst grants). \<exists>e. pinned t1 tk h e"
    by auto
  from take_all_pinned_exact [OF d this pin [OF _ v(3)]] obtain es t2 where
    t2: "take_all_pinned t1 tk grants = Some (es, t2)"
      "lookup t2 = (lookup t1) |` (- set (map fst grants))" "pinned t2 tk p ep"
      "es = map (\<lambda>(h, r). with_rights (the (lookup t1 h)) r) grants"
    by auto
  obtain t3 where t3: "restore_pinned t2 tk p = Some t3" "lookup t3 = lookup t2" "occ t3 p ep"
    using restore_pinned_exact [OF t2(3)] by blast
  have "get t3 p pr = Ok ep" "get t p pr = Ok ep"
    using t3(3) v(3,4) by (auto simp: get_Ok_iff)
  moreover have "moved t GRANT it (with_rights (the (lookup t1 (fst it))) (snd it))"
    if "it \<in> set grants" for it
    using gp [OF that] by (auto simp: t1 dest: occ_lookup)
  then have "list_all2 (moved t GRANT) grants es"
    unfolding t2(4) list_all2_conv_all_nth by (simp add: case_prod_unfold)
  ultimately show ?thesis
    using t1 t2(1,2) t3(1,2) by (simp add: commit_pinned_transfer_def)
qed

theorem transfer_exact_witness:
  "\<exists>es t2. commit_pinned_transfer
     (demo_table [\<lparr>sl_generation = 1, sl_state = Pinned 5 demo_entry\<rparr>,
                  \<lparr>sl_generation = 1, sl_state = Pinned 5 demo_entry\<rparr>] 2)
     5 (from_parts 1 1) [(from_parts 2 1, READ)] = Some (es, t2) \<and>
   list_all2 (moved (demo_table [demo_slot 1, demo_slot 1] 2) GRANT) [(from_parts 2 1, READ)] es"
  using transfer_exact [OF demo_pin] by blast



text \<open>
  Claim C10. Reservation and commit: a successful \<open>reserve\<close> hands out the requested number of
  distinct handles without making anything visible, and committing as many entries installs
  them under these handles, in order, and nothing else; a failed \<open>reserve\<close> leaves no slot reserved.
\<close>

theorem reserve_commit:
  assumes "table_inv t" "reserve mem t n tk = (res, t1)"
  shows "case res of
      Ok rs \<Rightarrow> length (res_handles rs) = n \<and> distinct (res_handles rs) \<and> lookup t1 = lookup t \<and>
        (length es = n \<longrightarrow>
          (\<exists>t2. commit t1 rs es = Some (Ok (res_handles rs), t2) \<and>
             lookup t2 = (lookup t)(res_handles rs [\<mapsto>] es)))
    | Err _ \<Rightarrow> lookup t1 = lookup t \<and> (t1 = t \<or> (\<forall>h. \<not> is_reserved t1 h tk))"
proof (cases res)
  case (Ok rs)
  note r = reserve_Ok [OF assms(1) assms(2) [unfolded Ok]]
  then have "all_reserved t1 rs"
    by (simp add: all_reserved_def)
  then show ?thesis
    using r install_exact [of "res_handles rs" t1 tk es]
    by (auto simp: Ok commit_def prepare_commit_def commit_prepared_def)
next
  case (Err er)
  then show ?thesis
    using reserve_Err [OF assms(1) assms(2) [unfolded Err]] by simp
qed

theorem reserve_commit_witness:
  "\<exists>rs t1. reserve (\<lambda>_. True) (demo_table [] 0) 2 9 = (Ok rs, t1) \<and> length (res_handles rs) = 2 \<and>
     (\<exists>t2. commit t1 rs [demo_entry, demo_entry] = Some (Ok (res_handles rs), t2))"
proof -
  have "is_ok (fst (reserve (\<lambda>_. True) (demo_table [] 0) 2 9))"
    by code_simp
  then obtain rs t1 where r: "reserve (\<lambda>_. True) (demo_table [] 0) 2 9 = (Ok rs, t1)"
    by (cases "reserve (\<lambda>_. True) (demo_table [] 0) 2 9") (auto simp: is_ok_iff)
  show ?thesis
    using reserve_commit [OF demo_inv r, of "[demo_entry, demo_entry]"] r by auto
qed

text \<open>
  Bounded draining is exact: one call scans at most the given number of slots, never
  moves the cursor back, hands out precisely the next entry still to be delivered, loses none
  while it only makes progress, uses its whole budget then, and reports exhaustion only when
  nothing remains.
\<close>

theorem take_next_bounded_exact:
  assumes "take_next_bounded t c m = (r, c', t')"
  shows "c \<le> c' \<and> c' \<le> c + m \<and>
    (case r of
       TakenEntry e \<Rightarrow> remaining t c = e # remaining t' c' \<and> c < c'
     | Progress \<Rightarrow> remaining t c = remaining t' c' \<and> c' = c + m \<and> c' < length (slots t)
     | Exhausted \<Rightarrow> remaining t c = [] \<and> length (slots t) \<le> c')"
  using take_next_bounded_from_exact [of 0 m t c r c' t'] assms
  by (auto simp: take_next_bounded_def split: take_next_result.splits)

theorem take_next_bounded_exact_witness:
  "remaining (demo_table [demo_vacant 2, demo_slot 1] 1) 0 =
     demo_entry # remaining (demo_table [demo_vacant 2, demo_vacant 2] 0) 3"
  using take_next_bounded_exact [OF demo_drain] by simp

end
