(* ===== verification/Ordered_Table.thy ===== *)
theory Ordered_Table
  imports Prelude
begin

text \<open>
  The bounded ordered table of \<open>shared/ordered_table\<close>: an AVL tree with a stored height per node,
  nodes allocated before they are inserted, and a limit on the number of entries. \<open>Link\<close> is the
  datatype below, \<open>None\<close> being \<open>Tip\<close>. Failures of the allocator are the Boolean argument \<open>room\<close>.

  The stored height is a natural number here and a \<open>u8\<close> in the source; property
  \<open>heights_fit_u8\<close> shows that no table of fewer than \<open>2 ^ 64\<close> entries reaches 255. Panics
  (\<open>expect\<close>, \<open>unreachable!\<close>, \<open>assert!\<close>) are \<^const>\<open>None\<close>.
\<close>

section \<open>Definitions\<close>

datatype ('k, 'v) link =
    Tip
  | Node (key: 'k) (val: 'v) (stored: nat) (left: "('k, 'v) link") (right: "('k, 'v) link")

datatype ('k, 'v) prepared_entry = PreparedEntry (pe_key: 'k) (pe_value: 'v)

definition with_key :: "('k, 'v) prepared_entry \<Rightarrow> 'k \<Rightarrow> ('k, 'v) prepared_entry" where
  "with_key e k = PreparedEntry k (pe_value e)"

definition into_value :: "('k, 'v) prepared_entry \<Rightarrow> 'v" where
  "into_value e = pe_value e"

datatype 'v insert_error = Limit 'v | Allocation 'v

record ('k, 'v) ordered_table =
  root :: "('k, 'v) link"
  len :: nat
  limit :: nat

definition new :: "nat \<Rightarrow> ('k, 'v) ordered_table option" where
  "new lim = (if 0 < lim then Some \<lparr>root = Tip, len = 0, limit = lim\<rparr> else None)"

definition is_empty :: "('k, 'v) ordered_table \<Rightarrow> bool" where
  "is_empty t \<longleftrightarrow> len t = 0"

text \<open>Heights and rotations.\<close>

definition height :: "('k, 'v) link \<Rightarrow> nat" where
  "height l = (case l of Tip \<Rightarrow> 0 | Node _ _ h _ _ \<Rightarrow> h)"

text \<open>\<open>update_height\<close> on a node given by its parts.\<close>

definition update_height :: "'k \<Rightarrow> 'v \<Rightarrow> ('k, 'v) link \<Rightarrow> ('k, 'v) link \<Rightarrow> ('k, 'v) link" where
  "update_height k v l r = Node k v (1 + max (height l) (height r)) l r"

definition rotate_left :: "('k, 'v) link \<Rightarrow> ('k, 'v) link option" where
  "rotate_left n =
     (case n of
        Node k v _ l (Node pk pv _ pl pr) \<Rightarrow> Some (update_height pk pv (update_height k v l pl) pr)
      | _ \<Rightarrow> None)"

definition rotate_right :: "('k, 'v) link \<Rightarrow> ('k, 'v) link option" where
  "rotate_right n =
     (case n of
        Node k v _ (Node pk pv _ pl pr) r \<Rightarrow> Some (update_height pk pv pl (update_height k v pr r))
      | _ \<Rightarrow> None)"

definition rebalance :: "'k \<Rightarrow> 'v \<Rightarrow> ('k, 'v) link \<Rightarrow> ('k, 'v) link \<Rightarrow> ('k, 'v) link option" where
  "rebalance k v l r =
     (let balance = int (height l) - int (height r) in
      if balance > 1 then
        (case l of
           Tip \<Rightarrow> None
         | Node _ _ _ ll lr \<Rightarrow>
             Option.bind (if height ll < height lr then rotate_left l else Some l)
               (\<lambda>l'. rotate_right (update_height k v l' r)))
      else if balance < - 1 then
        (case r of
           Tip \<Rightarrow> None
         | Node _ _ _ rl rr \<Rightarrow>
             Option.bind (if height rr < height rl then rotate_right r else Some r)
               (\<lambda>r'. rotate_left (update_height k v l r')))
      else Some (update_height k v l r))"

text \<open>Insertion and removal of nodes; the comparison of keys is \<open>Ord\<close>.\<close>

fun insert_node :: "('k::linorder, 'v) link \<Rightarrow> 'k \<Rightarrow> 'v \<Rightarrow> ('k, 'v) link option" where
  "insert_node Tip k v = Some (Node k v 1 Tip Tip)"
| "insert_node (Node rk rv _ l r) k v =
     (if k < rk then Option.bind (insert_node l k v) (\<lambda>l'. rebalance rk rv l' r)
      else if rk < k then Option.bind (insert_node r k v) (\<lambda>r'. rebalance rk rv l r')
      else None)"

fun take_min :: "('k, 'v) link \<Rightarrow> (('k, 'v) link \<times> 'k \<times> 'v) option" where
  "take_min Tip = None"
| "take_min (Node k v _ l r) =
     (case l of
        Tip \<Rightarrow> Some (r, k, v)
      | Node _ _ _ _ _ \<Rightarrow>
          Option.bind (take_min l) (\<lambda>(l', m). map_option (\<lambda>t. (t, m)) (rebalance k v l' r)))"

fun remove_node ::
  "('k::linorder, 'v) link \<Rightarrow> 'k \<Rightarrow> (('k, 'v) link \<times> 'v option) option" where
  "remove_node Tip k = Some (Tip, None)"
| "remove_node (Node rk rv _ l r) k =
     (if k < rk then
        Option.bind (remove_node l k) (\<lambda>(l', x). map_option (\<lambda>t. (t, x)) (rebalance rk rv l' r))
      else if rk < k then
        Option.bind (remove_node r k) (\<lambda>(r', x). map_option (\<lambda>t. (t, x)) (rebalance rk rv l r'))
      else
        (case (l, r) of
           (Tip, _) \<Rightarrow> Some (r, Some rv)
         | (_, Tip) \<Rightarrow> Some (l, Some rv)
         | _ \<Rightarrow>
             Option.bind (take_min r)
               (\<lambda>(r', sk, sv). map_option (\<lambda>t. (t, Some rv)) (rebalance sk sv l r'))))"

text \<open>Lookup and update in place.\<close>

fun get_node :: "('k::linorder, 'v) link \<Rightarrow> 'k \<Rightarrow> 'v option" where
  "get_node Tip k = None"
| "get_node (Node nk nv _ l r) k =
     (if k < nk then get_node l k else if nk < k then get_node r k else Some nv)"

definition get_by :: "('k::linorder, 'v) ordered_table \<Rightarrow> 'k \<Rightarrow> 'v option" where
  "get_by t k = get_node (root t) k"

definition contains_key :: "('k::linorder, 'v) ordered_table \<Rightarrow> 'k \<Rightarrow> bool" where
  "contains_key t k \<longleftrightarrow> get_by t k \<noteq> None"

text \<open>\<open>get_mut\<close> hands out a reference to the value: the model applies the caller's change \<open>f\<close> to it.\<close>

fun modify_node :: "('v \<Rightarrow> 'v) \<Rightarrow> ('k::linorder, 'v) link \<Rightarrow> 'k \<Rightarrow> ('k, 'v) link" where
  "modify_node f Tip k = Tip"
| "modify_node f (Node nk nv h l r) k =
     (if k < nk then Node nk nv h (modify_node f l k) r
      else if nk < k then Node nk nv h l (modify_node f r k)
      else Node nk (f nv) h l r)"

definition get_mut_by ::
  "('v \<Rightarrow> 'v) \<Rightarrow> ('k::linorder, 'v) ordered_table \<Rightarrow> 'k \<Rightarrow> 'v option \<times> ('k, 'v) ordered_table" where
  "get_mut_by f t k = (get_node (root t) k, t\<lparr>root := modify_node f (root t) k\<rparr>)"

definition allocate_entry ::
  "bool \<Rightarrow> 'k \<Rightarrow> 'v \<Rightarrow> (('k, 'v) prepared_entry, 'v insert_error) result" where
  "allocate_entry room k v = (if room then Ok (PreparedEntry k v) else Err (Allocation v))"

definition prepare_insert ::
  "bool \<Rightarrow> ('k::linorder, 'v) ordered_table \<Rightarrow> 'k \<Rightarrow> 'v \<Rightarrow>
     (('k, 'v) prepared_entry, 'v insert_error) result option" where
  "prepare_insert room t k v =
     (if len t = limit t then Some (Err (Limit v))
      else if get_by t k \<noteq> None then None
      else Some (allocate_entry room k v))"

definition prepare_insert_candidate ::
  "bool \<Rightarrow> ('k::linorder, 'v) ordered_table \<Rightarrow> 'k \<Rightarrow> 'v \<Rightarrow>
     (('k, 'v) prepared_entry, 'v insert_error) result" where
  "prepare_insert_candidate room t k v =
     (if get_by t k = None \<and> len t = limit t then Err (Limit v) else allocate_entry room k v)"

definition insert_prepared ::
  "('k::linorder, 'v) ordered_table \<Rightarrow> ('k, 'v) prepared_entry \<Rightarrow> ('k, 'v) ordered_table option" where
  "insert_prepared t e =
     (if \<not> len t < limit t then None
      else if get_by t (pe_key e) \<noteq> None then None
      else map_option (\<lambda>r. t\<lparr>root := r, len := len t + 1\<rparr>)
             (insert_node (root t) (pe_key e) (pe_value e)))"

definition try_insert ::
  "bool \<Rightarrow> ('k::linorder, 'v) ordered_table \<Rightarrow> 'k \<Rightarrow> 'v \<Rightarrow>
     ((unit, 'v insert_error) result \<times> ('k, 'v) ordered_table) option" where
  "try_insert room t k v =
     (case prepare_insert room t k v of
        None \<Rightarrow> None
      | Some (Err er) \<Rightarrow> Some (Err er, t)
      | Some (Ok e) \<Rightarrow> map_option (\<lambda>t'. (Ok (), t')) (insert_prepared t e))"

definition remove_by ::
  "('k::linorder, 'v) ordered_table \<Rightarrow> 'k \<Rightarrow> ('v option \<times> ('k, 'v) ordered_table) option" where
  "remove_by t k =
     map_option
       (\<lambda>(r, x). (x, t\<lparr>root := r, len := (if x \<noteq> None then len t - 1 else len t)\<rparr>))
       (remove_node (root t) k)"

text \<open>\<open>next_after\<close>: the loop keeps the best candidate so far.\<close>

fun next_loop ::
  "('k::linorder, 'v) link \<Rightarrow> 'k option \<Rightarrow> ('k \<times> 'v) option \<Rightarrow> ('k \<times> 'v) option" where
  "next_loop Tip cursor next = next"
| "next_loop (Node k v _ l r) cursor next =
     (if (case cursor of None \<Rightarrow> True | Some c \<Rightarrow> c < k) then next_loop l cursor (Some (k, v))
      else next_loop r cursor next)"

definition next_after :: "('k::linorder, 'v) ordered_table \<Rightarrow> 'k option \<Rightarrow> ('k \<times> 'v) option" where
  "next_after t cursor = next_loop (root t) cursor None"

definition pop_first ::
  "('k, 'v) ordered_table \<Rightarrow> (('k \<times> 'v) option \<times> ('k, 'v) ordered_table) option" where
  "pop_first t =
     (case root t of
        Tip \<Rightarrow> Some (None, t)
      | Node _ _ _ _ _ \<Rightarrow>
          map_option (\<lambda>(r, m). (Some m, t\<lparr>root := r, len := len t - 1\<rparr>)) (take_min (root t)))"

fun count_node :: "('v \<Rightarrow> bool) \<Rightarrow> ('k, 'v) link \<Rightarrow> nat" where
  "count_node p Tip = 0"
| "count_node p (Node _ v _ l r) = count_node p l + (if p v then 1 else 0) + count_node p r"

definition count_matching :: "('v \<Rightarrow> bool) \<Rightarrow> ('k, 'v) ordered_table \<Rightarrow> nat" where
  "count_matching p t = count_node p (root t)"

text \<open>\<open>scan\<close> threads the output slice and the number of keys written.\<close>

fun scan ::
  "('v \<Rightarrow> bool) \<Rightarrow> 'k::linorder \<Rightarrow> ('k, 'v) link \<Rightarrow> 'k list \<times> nat \<Rightarrow> bool \<times> 'k list \<times> nat" where
  "scan visible cursor Tip s = (False, s)"
| "scan visible cursor (Node k v _ l r) s =
     (if k \<le> cursor then scan visible cursor r s
      else case scan visible cursor l s of
        (True, s') \<Rightarrow> (True, s')
      | (False, out, actual) \<Rightarrow>
          if actual = length out \<or> \<not> visible v then (True, out, actual)
          else scan visible cursor r (out[actual := k], actual + 1))"

definition scan_visible ::
  "('k::linorder, 'v) ordered_table \<Rightarrow> ('v \<Rightarrow> bool) \<Rightarrow> 'k \<Rightarrow> 'k list \<Rightarrow> nat \<times> bool \<times> 'k list" where
  "scan_visible t visible cursor out =
     (case scan visible cursor (root t) (out, 0) of (again, out', actual) \<Rightarrow> (actual, again, out'))"

section \<open>Shape\<close>

fun inorder :: "('k, 'v) link \<Rightarrow> ('k \<times> 'v) list" where
  "inorder Tip = []"
| "inorder (Node k v _ l r) = inorder l @ (k, v) # inorder r"

definition bst :: "('k::linorder, 'v) link \<Rightarrow> bool" where
  "bst t \<longleftrightarrow> sorted_wrt (<) (map fst (inorder t))"

fun avl :: "('k, 'v) link \<Rightarrow> bool" where
  "avl Tip \<longleftrightarrow> True"
| "avl (Node _ _ h l r) \<longleftrightarrow>
     avl l \<and> avl r \<and> h = 1 + max (height l) (height r) \<and>
     height l \<le> height r + 1 \<and> height r \<le> height l + 1"

lemma height_simps [simp]:
  "height Tip = 0" "height (Node k v h l r) = h"
  by (simp_all add: height_def)

lemma inorder_update_height [simp]: "inorder (update_height k v l r) = inorder l @ (k, v) # inorder r"
  by (simp add: update_height_def)

lemma height_update_height [simp]: "height (update_height k v l r) = 1 + max (height l) (height r)"
  by (simp add: update_height_def)

lemma avl_update_height [simp]:
  "avl (update_height k v l r) \<longleftrightarrow>
     avl l \<and> avl r \<and> height l \<le> height r + 1 \<and> height r \<le> height l + 1"
  by (simp add: update_height_def)

lemma avl_height_0: "avl t \<Longrightarrow> height t = 0 \<longleftrightarrow> t = Tip"
  by (cases t) auto

text \<open>Rebalancing restores the balance after a difference of two, and never panics.\<close>

lemma rebalance_left:
  assumes "avl l" "avl r" "height l = height r + 2"
  shows "\<exists>t. rebalance k v l r = Some t \<and> avl t \<and> inorder t = inorder l @ (k, v) # inorder r \<and>
           height l \<le> height t \<and> height t \<le> 1 + height l"
proof -
  obtain lk lv lh ll lr where l: "l = Node lk lv lh ll lr"
    using assms(3) by (cases l) auto
  show ?thesis
  proof (cases "height ll < height lr")
    case True
    then obtain mk mv mh ml mr where "lr = Node mk mv mh ml mr"
      by (cases lr) auto
    then show ?thesis
      using assms l True
      by (auto simp: rebalance_def Let_def rotate_left_def rotate_right_def update_height_def max_def
          split: if_splits)
  next
    case False
    then show ?thesis
      using assms l
      by (auto simp: rebalance_def Let_def rotate_right_def update_height_def max_def split: if_splits)
  qed
qed

lemma rebalance_right:
  assumes "avl l" "avl r" "height r = height l + 2"
  shows "\<exists>t. rebalance k v l r = Some t \<and> avl t \<and> inorder t = inorder l @ (k, v) # inorder r \<and>
           height r \<le> height t \<and> height t \<le> 1 + height r"
proof -
  obtain rk rv rh rl rr where r: "r = Node rk rv rh rl rr"
    using assms(3) by (cases r) auto
  show ?thesis
  proof (cases "height rr < height rl")
    case True
    then obtain mk mv mh ml mr where "rl = Node mk mv mh ml mr"
      by (cases rl) auto
    then show ?thesis
      using assms r True
      by (auto simp: rebalance_def Let_def rotate_left_def rotate_right_def update_height_def max_def
          split: if_splits)
  next
    case False
    then show ?thesis
      using assms r
      by (auto simp: rebalance_def Let_def rotate_left_def update_height_def max_def split: if_splits)
  qed
qed

lemma rebalance_ok:
  assumes "avl l" "avl r" "height l \<le> height r + 2" "height r \<le> height l + 2"
  obtains t where "rebalance k v l r = Some t" "avl t" "inorder t = inorder l @ (k, v) # inorder r"
    "max (height l) (height r) \<le> height t" "height t \<le> 1 + max (height l) (height r)"
    "height l \<le> height r + 1 \<Longrightarrow> height r \<le> height l + 1 \<Longrightarrow> height t = 1 + max (height l) (height r)"
proof -
  consider "height l = height r + 2" | "height r = height l + 2"
    | "height l \<le> height r + 1 \<and> height r \<le> height l + 1"
    using assms(3,4) by linarith
  then show thesis
  proof cases
    case 1
    then show thesis
      using rebalance_left [OF assms(1,2), of k v] that by auto
  next
    case 2
    then show thesis
      using rebalance_right [OF assms(1,2), of k v] that by auto
  next
    case 3
    then have "rebalance k v l r = Some (update_height k v l r)"
      by (simp add: rebalance_def Let_def)
    then show thesis
      using assms 3 by (intro that [of "update_height k v l r"]) auto
  qed
qed

text \<open>Replacing one subtree of a balanced node by one that is at most one higher or lower.\<close>

lemma rebalance_new_left:
  assumes "avl (Node k v h l r)" "avl l'" "height l' \<le> height l + 1" "height l \<le> height l' + 1"
  shows "\<exists>t. rebalance k v l' r = Some t \<and> avl t \<and> inorder t = inorder l' @ (k, v) # inorder r \<and>
    (height l \<le> height l' \<longrightarrow> h \<le> height t \<and> height t \<le> h + 1) \<and>
    (height l' \<le> height l \<longrightarrow> height t \<le> h \<and> h \<le> height t + 1)"
proof -
  have "avl r" "height l' \<le> height r + 2" "height r \<le> height l' + 2"
    using assms by auto
  from rebalance_ok [OF assms(2) this, of k v] obtain t where
    t: "rebalance k v l' r = Some t" "avl t" "inorder t = inorder l' @ (k, v) # inorder r"
      "max (height l') (height r) \<le> height t" "height t \<le> 1 + max (height l') (height r)"
      "height l' \<le> height r + 1 \<Longrightarrow> height r \<le> height l' + 1 \<Longrightarrow> height t = 1 + max (height l') (height r)"
    by blast
  have "(height l \<le> height l' \<longrightarrow> h \<le> height t \<and> height t \<le> h + 1) \<and>
    (height l' \<le> height l \<longrightarrow> height t \<le> h \<and> h \<le> height t + 1)"
    using assms t(4-6)
    by (cases "height l' \<le> height r + 1 \<and> height r \<le> height l' + 1") (auto simp: max_def split: if_splits)
  then show ?thesis
    using t(1-3) by blast
qed

lemma rebalance_new_right:
  assumes "avl (Node k v h l r)" "avl r'" "height r' \<le> height r + 1" "height r \<le> height r' + 1"
  shows "\<exists>t. rebalance k v l r' = Some t \<and> avl t \<and> inorder t = inorder l @ (k, v) # inorder r' \<and>
    (height r \<le> height r' \<longrightarrow> h \<le> height t \<and> height t \<le> h + 1) \<and>
    (height r' \<le> height r \<longrightarrow> height t \<le> h \<and> h \<le> height t + 1)"
proof -
  have "avl l" "height l \<le> height r' + 2" "height r' \<le> height l + 2"
    using assms by auto
  from rebalance_ok [OF this(1) assms(2) this(2,3), of k v] obtain t where
    t: "rebalance k v l r' = Some t" "avl t" "inorder t = inorder l @ (k, v) # inorder r'"
      "max (height l) (height r') \<le> height t" "height t \<le> 1 + max (height l) (height r')"
      "height l \<le> height r' + 1 \<Longrightarrow> height r' \<le> height l + 1 \<Longrightarrow> height t = 1 + max (height l) (height r')"
    by blast
  have "(height r \<le> height r' \<longrightarrow> h \<le> height t \<and> height t \<le> h + 1) \<and>
    (height r' \<le> height r \<longrightarrow> height t \<le> h \<and> h \<le> height t + 1)"
    using assms t(4-6)
    by (cases "height l \<le> height r' + 1 \<and> height r' \<le> height l + 1") (auto simp: max_def split: if_splits)
  then show ?thesis
    using t(1-3) by blast
qed

section \<open>Insertion and removal of nodes\<close>

definition below :: "'k::linorder \<Rightarrow> ('k \<times> 'v) list \<Rightarrow> ('k \<times> 'v) list" where
  "below k xs = filter (\<lambda>p. fst p < k) xs"

definition above :: "'k::linorder \<Rightarrow> ('k \<times> 'v) list \<Rightarrow> ('k \<times> 'v) list" where
  "above k xs = filter (\<lambda>p. k < fst p) xs"

definition without :: "'k \<Rightarrow> ('k \<times> 'v) list \<Rightarrow> ('k \<times> 'v) list" where
  "without k xs = filter (\<lambda>p. fst p \<noteq> k) xs"

lemma bst_Node:
  "bst (Node k v h l r) \<longleftrightarrow>
     bst l \<and> bst r \<and> (\<forall>p \<in> set (inorder l). fst p < k) \<and> (\<forall>p \<in> set (inorder r). k < fst p)"
  by (auto simp: bst_def sorted_wrt_append) force

lemma below_append [simp]: "below k (xs @ ys) = below k xs @ below k ys"
  by (simp add: below_def)

lemma above_append [simp]: "above k (xs @ ys) = above k xs @ above k ys"
  by (simp add: above_def)

lemma without_append [simp]: "without k (xs @ ys) = without k xs @ without k ys"
  by (simp add: without_def)

lemma split_Nil [simp]: "below k [] = []" "above k [] = []"
  by (simp_all add: below_def above_def)

lemma without_Nil [simp]: "without k [] = []"
  by (simp add: without_def)

lemma below_Cons [simp]: "below k (p # xs) = (if fst p < k then p # below k xs else below k xs)"
  by (simp add: below_def)

lemma above_Cons [simp]: "above k (p # xs) = (if k < fst p then p # above k xs else above k xs)"
  by (simp add: above_def)

lemma without_Cons [simp]: "without k (p # xs) = (if fst p \<noteq> k then p # without k xs else without k xs)"
  by (simp add: without_def)

lemma split_all_less:
  "\<forall>p \<in> set xs. fst p < m \<Longrightarrow> m \<le> k \<Longrightarrow> below k xs = xs \<and> above k xs = [] \<and> without k xs = xs"
  by (auto simp: below_def above_def without_def filter_empty_conv filter_id_conv)

lemma split_all_greater:
  "\<forall>p \<in> set xs. m < fst p \<Longrightarrow> k \<le> m \<Longrightarrow> below k xs = [] \<and> above k xs = xs \<and> without k xs = xs"
  by (auto simp: below_def above_def without_def filter_empty_conv filter_id_conv)

lemma insert_node_ok:
  assumes "avl t" "bst t" "\<forall>p \<in> set (inorder t). fst p \<noteq> k"
  shows "\<exists>t'. insert_node t k v = Some t' \<and> avl t' \<and>
           inorder t' = below k (inorder t) @ (k, v) # above k (inorder t) \<and>
           height t \<le> height t' \<and> height t' \<le> height t + 1"
  using assms
proof (induction t k v rule: insert_node.induct)
  case (1 k v)
  then show ?case
    by (simp add: below_def above_def)
next
  case (2 rk rv h l r k v)
  have ord: "\<forall>p \<in> set (inorder l). fst p < rk" "\<forall>p \<in> set (inorder r). rk < fst p"
    using 2(4) by (simp_all add: bst_Node)
  show ?case
  proof (cases "k < rk")
    case True
    then obtain l' where l': "insert_node l k v = Some l'" "avl l'"
      "inorder l' = below k (inorder l) @ (k, v) # above k (inorder l)"
      "height l \<le> height l'" "height l' \<le> height l + 1"
      using 2 by (auto simp: bst_Node)
    then show ?thesis
      using True rebalance_new_left [OF 2(3) l'(2,5)] split_all_greater [OF ord(2), of k] by auto
  next
    case False
    then have gt: "rk < k"
      using 2(5) by force
    then obtain r' where r': "insert_node r k v = Some r'" "avl r'"
      "inorder r' = below k (inorder r) @ (k, v) # above k (inorder r)"
      "height r \<le> height r'" "height r' \<le> height r + 1"
      using 2 False by (auto simp: bst_Node)
    then show ?thesis
      using gt rebalance_new_right [OF 2(3) r'(2,5)] split_all_less [OF ord(1), of k] by auto
  qed
qed

lemma take_min_ok:
  assumes "avl t" "t \<noteq> Tip"
  shows "\<exists>t' m. take_min t = Some (t', m) \<and> inorder t = m # inorder t' \<and> avl t' \<and>
           height t' \<le> height t \<and> height t \<le> height t' + 1"
  using assms
proof (induction t rule: take_min.induct)
  case (2 k v h l r)
  show ?case
  proof (cases "l = Tip")
    case True
    then show ?thesis
      using 2(2) by auto
  next
    case False
    have "take_min (Node k v h l r) =
        Option.bind (take_min l) (\<lambda>(l', m). map_option (\<lambda>t. (t, m)) (rebalance k v l' r))"
      using False by (cases l) auto
    moreover obtain l' m where l': "take_min l = Some (l', m)" "inorder l = m # inorder l'"
      "avl l'" "height l' \<le> height l" "height l \<le> height l' + 1"
      using 2(1,2) False by (cases l) auto
    ultimately show ?thesis
      using rebalance_new_left [OF 2(2) l'(3)] by auto
  qed
qed simp

lemma map_of_append_less:
  "\<forall>p \<in> set xs. fst p \<noteq> k \<Longrightarrow> map_of (xs @ ys) k = map_of ys k"
  by (auto simp: map_add_def map_of_eq_None_iff split: option.splits dest!: map_of_SomeD)

lemma map_of_append_greater:
  "\<forall>p \<in> set ys. fst p \<noteq> k \<Longrightarrow> map_of (xs @ ys) k = map_of xs k"
  by (induction xs) (auto simp: map_of_eq_None_iff)

lemma remove_found:
  assumes "avl (Node k v h l r)"
  shows "\<exists>t'. remove_node (Node k v h l r) k = Some (t', Some v) \<and> avl t' \<and>
           inorder t' = inorder l @ inorder r \<and> height t' \<le> h \<and> h \<le> height t' + 1"
proof (cases "l = Tip \<or> r = Tip")
  case True
  then show ?thesis
    using assms by (cases l; cases r) auto
next
  case False
  then obtain r' sk sv where r': "take_min r = Some (r', sk, sv)" "inorder r = (sk, sv) # inorder r'"
    "avl r'" "height r' \<le> height r" "height r \<le> height r' + 1"
    using take_min_ok [of r] assms by auto
  have "avl (Node sk sv h l r)"
    using assms by simp
  from rebalance_new_right [OF this r'(3)] r'(4,5) obtain t where
    t: "rebalance sk sv l r' = Some t" "avl t" "inorder t = inorder l @ (sk, sv) # inorder r'"
      "height t \<le> h" "h \<le> height t + 1"
    by auto
  moreover have "remove_node (Node k v h l r) k = Some (t, Some v)"
    using False r'(1) t(1) by (cases l; cases r) auto
  ultimately show ?thesis
    using r'(2) by simp
qed

lemma remove_node_ok:
  assumes "avl t" "bst t"
  shows "\<exists>t'. remove_node t k = Some (t', map_of (inorder t) k) \<and> avl t' \<and>
           inorder t' = without k (inorder t) \<and> height t' \<le> height t \<and> height t \<le> height t' + 1"
  using assms
proof (induction t k rule: remove_node.induct)
  case (1 k)
  then show ?case
    by (simp add: without_def)
next
  case (2 rk rv h l r k)
  have ord: "\<forall>p \<in> set (inorder l). fst p < rk" "\<forall>p \<in> set (inorder r). rk < fst p"
    using 2(4) by (simp_all add: bst_Node)
  consider "k < rk" | "rk < k" | "k = rk"
    by force
  then show ?case
  proof cases
    case 1
    then obtain l' where l': "remove_node l k = Some (l', map_of (inorder l) k)" "avl l'"
      "inorder l' = without k (inorder l)" "height l' \<le> height l" "height l \<le> height l' + 1"
      using 2 by (auto simp: bst_Node)
    have "\<forall>p \<in> set ((rk, rv) # inorder r). fst p \<noteq> k"
      using 1 ord(2) by force
    then have "map_of (inorder (Node rk rv h l r)) k = map_of (inorder l) k"
      using map_of_append_greater [of "(rk, rv) # inorder r" k "inorder l"] by simp
    then show ?thesis
      using 1 l' rebalance_new_left [OF 2(3) l'(2)] split_all_greater [OF ord(2), of k] by auto
  next
    case 2
    then obtain r' where r': "remove_node r k = Some (r', map_of (inorder r) k)" "avl r'"
      "inorder r' = without k (inorder r)" "height r' \<le> height r" "height r \<le> height r' + 1"
      using "2.IH"(2) [OF less_not_sym [OF 2] 2] "2.prems" by (auto simp: bst_Node)
    have "\<forall>p \<in> set (inorder l @ [(rk, rv)]). fst p \<noteq> k"
      using 2 ord(1) by force
    then have "map_of (inorder (Node rk rv h l r)) k = map_of (inorder r) k"
      using map_of_append_less [of "inorder l @ [(rk, rv)]" k "inorder r"] by simp
    then show ?thesis
      using 2 r' rebalance_new_right [OF "2.prems"(1) r'(2)] split_all_less [OF ord(1), of k] by auto
  next
    case 3
    have "\<forall>p \<in> set (inorder l). fst p \<noteq> k"
      using 3 ord(1) by auto
    then have "map_of (inorder (Node rk rv h l r)) k = Some rv"
      using 3 map_of_append_less [of "inorder l" k "(rk, rv) # inorder r"] by simp
    then show ?thesis
      using 3 remove_found [OF "2.prems"(1)] split_all_less [OF ord(1), of k]
        split_all_greater [OF ord(2), of k] by auto
  qed
qed

section \<open>Reading\<close>

lemma get_node_map: "bst t \<Longrightarrow> get_node t k = map_of (inorder t) k"
proof (induction t)
  case (Node nk nv h l r)
  then have ord: "\<forall>p \<in> set (inorder l). fst p < nk" "\<forall>p \<in> set (inorder r). nk < fst p"
    by (simp_all add: bst_Node)
  consider "k < nk" | "nk < k" | "k = nk"
    by force
  then show ?case
  proof cases
    case 1
    then have "\<forall>p \<in> set ((nk, nv) # inorder r). fst p \<noteq> k"
      using ord(2) by force
    then show ?thesis
      using 1 Node map_of_append_greater [of "(nk, nv) # inorder r" k "inorder l"] by (simp add: bst_Node)
  next
    case 2
    then have "\<forall>p \<in> set (inorder l @ [(nk, nv)]). fst p \<noteq> k"
      using ord(1) by force
    then show ?thesis
      using 2 Node map_of_append_less [of "inorder l @ [(nk, nv)]" k "inorder r"] by (simp add: bst_Node)
  next
    case 3
    then have "\<forall>p \<in> set (inorder l). fst p \<noteq> k"
      using ord(1) by auto
    then show ?thesis
      using 3 map_of_append_less [of "inorder l" k "(nk, nv) # inorder r"] by simp
  qed
qed simp

lemma height_modify_node [simp]: "height (modify_node f t k) = height t"
  by (cases t) auto

lemma avl_modify_node: "avl t \<Longrightarrow> avl (modify_node f t k)"
  by (induction t) auto

lemma inorder_modify_node:
  "bst t \<Longrightarrow> inorder (modify_node f t k) = map (\<lambda>p. (fst p, if fst p = k then f (snd p) else snd p)) (inorder t)"
proof (induction t)
  case (Node nk nv h l r)
  have same: "map (\<lambda>p. (fst p, if fst p = k then f (snd p) else snd p)) xs = xs"
    if "\<forall>p \<in> set xs. fst p \<noteq> k" for xs :: "('a \<times> 'b) list"
    using that by (auto intro!: map_idI)
  have ord: "\<forall>p \<in> set (inorder l). fst p < nk" "\<forall>p \<in> set (inorder r). nk < fst p"
    using Node(3) by (simp_all add: bst_Node)
  have "k \<le> nk \<Longrightarrow> \<forall>p \<in> set (inorder r). fst p \<noteq> k" "nk \<le> k \<Longrightarrow> \<forall>p \<in> set (inorder l). fst p \<noteq> k"
    using ord by force+
  then show ?case
    using Node same by (auto simp: bst_Node)
qed simp

lemma next_loop_find:
  "bst t \<Longrightarrow> next_loop t c n =
     (case find (\<lambda>p. case c of None \<Rightarrow> True | Some c \<Rightarrow> c < fst p) (inorder t) of
        Some p \<Rightarrow> Some p | None \<Rightarrow> n)"
proof (induction t arbitrary: n)
  case (Node k v h l r)
  let ?P = "\<lambda>p :: 'a \<times> 'b. case c of None \<Rightarrow> True | Some c \<Rightarrow> c < fst p"
  have app: "find ?P (xs @ ys) = (case find ?P xs of Some p \<Rightarrow> Some p | None \<Rightarrow> find ?P ys)" for xs ys
    by (induction xs) auto
  have ord: "\<forall>p \<in> set (inorder l). fst p < k"
    using Node(3) by (simp add: bst_Node)
  show ?case
  proof (cases "?P (k, v)")
    case True
    then show ?thesis
      using Node by (auto simp: bst_Node app split: option.splits)
  next
    case False
    then have "find ?P (inorder l) = None"
      using ord by (auto simp: find_None_iff split: option.splits)
    then show ?thesis
      using Node False by (auto simp: bst_Node app split: option.splits)
  qed
qed simp

lemma find_least:
  "sorted_wrt (\<lambda>p q. fst p < fst q) xs \<Longrightarrow> find P xs = Some p \<Longrightarrow> q \<in> set xs \<Longrightarrow> P q \<Longrightarrow>
     fst p \<le> (fst q :: 'k::linorder)"
  by (induction xs) (auto split: if_splits dest: find_SomeD)

lemma count_node_filter: "count_node p t = length (filter (\<lambda>q. p (snd q)) (inorder t))"
  by (induction t) auto

text \<open>Scanning the tree is scanning the ordered list of the entries behind the cursor.\<close>

fun scan_list :: "('v \<Rightarrow> bool) \<Rightarrow> ('k \<times> 'v) list \<Rightarrow> 'k list \<times> nat \<Rightarrow> bool \<times> 'k list \<times> nat" where
  "scan_list visible [] s = (False, s)"
| "scan_list visible (p # ps) (out, n) =
     (if n = length out \<or> \<not> visible (snd p) then (True, out, n)
      else scan_list visible ps (out[n := fst p], n + 1))"

lemma scan_list_append:
  "scan_list visible (xs @ ys) s =
     (case scan_list visible xs s of (True, s') \<Rightarrow> (True, s') | (False, s') \<Rightarrow> scan_list visible ys s')"
  by (induction visible xs s rule: scan_list.induct) auto

lemma scan_eq_list: "bst t \<Longrightarrow> scan visible c t s = scan_list visible (above c (inorder t)) s"
proof (induction t arbitrary: s)
  case Tip
  then show ?case
    by (simp add: above_def)
next
  case (Node k v h l r)
  have ord: "\<forall>p \<in> set (inorder l). fst p < k" "\<forall>p \<in> set (inorder r). k < fst p"
    using Node(3) by (simp_all add: bst_Node)
  show ?case
  proof (cases "k \<le> c")
    case True
    then show ?thesis
      using Node split_all_less [OF ord(1), of c] by (auto simp: bst_Node)
  next
    case False
    then have "above c (inorder r) = inorder r"
      using split_all_greater [OF ord(2), of c] by simp
    then show ?thesis
      using Node False by (auto simp: bst_Node scan_list_append split: prod.splits bool.splits)
  qed
qed

lemma scan_list_exact:
  assumes "n \<le> length out" "m = min (length out - n) (length (takeWhile (\<lambda>p. visible (snd p)) xs))"
  shows "scan_list visible xs (out, n) =
     (m < length xs, take n out @ map fst (take m xs) @ drop (n + m) out, n + m)"
  using assms
proof (induction xs arbitrary: out n m)
  case (Cons p xs)
  show ?case
  proof (cases "n = length out \<or> \<not> visible (snd p)")
    case False
    define m' where "m' = min (length out - Suc n) (length (takeWhile (\<lambda>p. visible (snd p)) xs))"
    have n: "n < length out" "m = Suc m'"
      using Cons.prems False by (auto simp: m'_def)
    have eq1: "take (n + 1) (out[n := fst p]) = take n out @ [fst p]"
      using n(1) by (simp add: take_Suc_conv_app_nth)
    have eq2: "drop (n + 1 + m') (out[n := fst p]) = drop (n + m) out"
      using n by simp
    have "scan_list visible (p # xs) (out, n) = scan_list visible xs (out[n := fst p], n + 1)"
      using False by simp
    also have "\<dots> = (m' < length xs, take (n + 1) (out[n := fst p]) @ map fst (take m' xs) @
        drop (n + 1 + m') (out[n := fst p]), n + 1 + m')"
      by (rule Cons.IH) (use n(1) in \<open>simp_all add: m'_def\<close>)
    finally show ?thesis
      unfolding eq1 eq2 by (simp add: n(2))
  next
    case True
    then have "m = 0"
      using Cons.prems by auto
    then show ?thesis
      using True by simp
  qed
qed simp

section \<open>The table\<close>

definition ot_inv :: "('k::linorder, 'v) ordered_table \<Rightarrow> bool" where
  "ot_inv t \<longleftrightarrow>
     avl (root t) \<and> bst (root t) \<and> len t = length (inorder (root t)) \<and> len t \<le> limit t \<and> 0 < limit t"

text \<open>The abstraction: a finite map.\<close>

definition tmap :: "('k, 'v) ordered_table \<Rightarrow> 'k \<Rightarrow> 'v option" where
  "tmap t = map_of (inorder (root t))"

lemma bst_distinct: "bst t \<Longrightarrow> distinct (map fst (inorder t))"
  by (simp add: bst_def strict_sorted_iff)

lemma bst_insert:
  assumes "bst t" "inorder t' = below k (inorder t) @ (k, v) # above k (inorder t)"
  shows "bst t'"
proof -
  have "sorted_wrt (\<lambda>p q. fst p < fst q) (inorder t)"
    using assms(1) by (simp add: bst_def sorted_wrt_map)
  then have "sorted_wrt (\<lambda>p q. fst p < fst q) (below k (inorder t) @ (k, v) # above k (inorder t))"
    by (auto simp: sorted_wrt_append below_def above_def sorted_wrt_filter)
  then show ?thesis
    unfolding bst_def assms(2) sorted_wrt_map .
qed

lemma bst_without:
  assumes "bst t" "inorder t' = without k (inorder t)"
  shows "bst t'"
  using assms by (simp add: bst_def without_def sorted_wrt_map sorted_wrt_filter)

lemma length_below_above:
  "\<forall>p \<in> set xs. fst p \<noteq> k \<Longrightarrow> length (below k xs) + length (above k xs) = length xs"
  by (induction xs) auto

lemma map_of_below_above:
  "map_of (below k xs @ (k, v) # above k xs) = (map_of xs)(k \<mapsto> v)"
  if "distinct (map fst xs)"
proof
  fix x
  have "map_of (below k xs) x = (if x < k then map_of xs x else None)"
    "map_of (above k xs) x = (if k < x then map_of xs x else None)" for x
    by (induction xs) auto
  then show "map_of (below k xs @ (k, v) # above k xs) x = ((map_of xs)(k \<mapsto> v)) x"
    by (auto simp: map_add_def split: option.splits)
qed

lemma map_of_without: "map_of (without k xs) = (map_of xs)(k := None)"
  by (induction xs) auto

lemma length_without:
  "distinct (map fst xs) \<Longrightarrow>
     length (without k xs) = (if map_of xs k = None then length xs else length xs - 1)"
proof (induction xs)
  case (Cons p xs)
  have "without k xs = xs" if "k \<notin> fst ` set xs"
    using that by (auto simp: without_def filter_id_conv)
  moreover have "xs \<noteq> []" if "map_of xs k \<noteq> None"
    using that by auto
  ultimately show ?case
    using Cons by (cases "map_of xs k") (auto simp: map_of_eq_None_iff image_iff dest: map_of_SomeD)
qed simp

lemma insert_prepared_ok:
  assumes "ot_inv t" "len t < limit t" "tmap t k = None"
  shows "\<exists>t'. insert_prepared t (PreparedEntry k v) = Some t' \<and> ot_inv t' \<and>
           tmap t' = (tmap t)(k \<mapsto> v) \<and> limit t' = limit t \<and> len t' = len t + 1"
proof -
  have i: "avl (root t)" "bst (root t)"
    using assms(1) by (auto simp: ot_inv_def)
  have fresh: "\<forall>p \<in> set (inorder (root t)). fst p \<noteq> k"
    using assms(3) by (auto simp: tmap_def map_of_eq_None_iff)
  obtain r where r: "insert_node (root t) k v = Some r" "avl r"
    "inorder r = below k (inorder (root t)) @ (k, v) # above k (inorder (root t))"
    using insert_node_ok [OF i fresh, of v] by blast
  have "ot_inv (t\<lparr>root := r, len := len t + 1\<rparr>)"
    using assms(1,2) r bst_insert [OF i(2) r(3)] length_below_above [OF fresh] by (simp add: ot_inv_def)
  moreover have "tmap (t\<lparr>root := r, len := len t + 1\<rparr>) = (tmap t)(k \<mapsto> v)"
    using map_of_below_above [OF bst_distinct [OF i(2)], of k v] by (simp add: tmap_def r(3))
  ultimately show ?thesis
    using assms(2,3) r(1) get_node_map [OF i(2), of k] by (simp add: insert_prepared_def get_by_def tmap_def)
qed

lemma remove_by_ok:
  assumes "ot_inv t"
  shows "\<exists>t'. remove_by t k = Some (tmap t k, t') \<and> ot_inv t' \<and> tmap t' = (tmap t)(k := None) \<and>
           limit t' = limit t \<and> len t' = (if tmap t k = None then len t else len t - 1)"
proof -
  have i: "avl (root t)" "bst (root t)" "len t = length (inorder (root t))" "len t \<le> limit t"
    using assms by (auto simp: ot_inv_def)
  obtain r where r: "remove_node (root t) k = Some (r, tmap t k)" "avl r"
    "inorder r = without k (inorder (root t))"
    using remove_node_ok [OF i(1,2), of k] unfolding tmap_def by blast
  let ?n = "if tmap t k \<noteq> None then len t - 1 else len t"
  have n: "length (inorder r) = ?n"
    using length_without [OF bst_distinct [OF i(2)], of k] by (simp add: r(3) i(3) tmap_def)
  have "ot_inv (t\<lparr>root := r, len := ?n\<rparr>)"
    using assms r(2) bst_without [OF i(2) r(3)] n i(4) by (auto simp: ot_inv_def)
  moreover have "tmap (t\<lparr>root := r, len := ?n\<rparr>) = (tmap t)(k := None)"
    by (simp add: tmap_def r(3) map_of_without)
  ultimately show ?thesis
    using r(1) by (simp add: remove_by_def)
qed

lemma get_by_tmap: "ot_inv t \<Longrightarrow> get_by t k = tmap t k"
  by (simp add: get_by_def tmap_def ot_inv_def get_node_map)

lemma get_mut_by_ok:
  assumes "ot_inv t" "get_mut_by f t k = (x, t')"
  shows "x = tmap t k \<and> ot_inv t' \<and> tmap t' = (tmap t)(k := map_option f (tmap t k))"
proof -
  have i: "bst (root t)"
    using assms(1) by (simp add: ot_inv_def)
  have t': "t' = t\<lparr>root := modify_node f (root t) k\<rparr>" "x = tmap t k"
    using assms(2) by (auto simp: get_mut_by_def tmap_def get_node_map [OF i])
  have m: "map_of (map (\<lambda>p. (fst p, if fst p = k then f (snd p) else snd p)) xs) =
      (map_of xs)(k := map_option f (map_of xs k))" for xs :: "('a \<times> 'b) list"
    by (induction xs) auto
  have "bst (modify_node f (root t) k)"
    using i unfolding bst_def inorder_modify_node [OF i] by (simp add: comp_def)
  then show ?thesis
    using assms(1) by (simp add: t' ot_inv_def tmap_def inorder_modify_node [OF i] m avl_modify_node)
qed

lemma pop_first_ok:
  assumes "ot_inv t"
  shows "\<exists>m t'. pop_first t = Some (m, t') \<and> ot_inv t' \<and> limit t' = limit t \<and>
    (case m of
       None \<Rightarrow> inorder (root t) = [] \<and> t' = t
     | Some p \<Rightarrow> inorder (root t) = p # inorder (root t') \<and> len t' + 1 = len t)"
proof (cases "root t")
  case Tip
  then show ?thesis
    using assms by (simp add: pop_first_def)
next
  case (Node k v h l r)
  then have "avl (root t)" "root t \<noteq> Tip"
    using assms by (auto simp: ot_inv_def)
  then obtain r' m where r': "take_min (root t) = Some (r', m)" "inorder (root t) = m # inorder r'" "avl r'"
    using take_min_ok by blast
  have "bst r'"
    using assms r'(2) by (simp add: ot_inv_def bst_def)
  then have "ot_inv (t\<lparr>root := r', len := len t - 1\<rparr>)"
    using assms r' by (auto simp: ot_inv_def)
  then show ?thesis
    using assms r' Node by (simp add: pop_first_def ot_inv_def)
qed

section \<open>The contract of a bounded map\<close>

text \<open>
  What the users of the table rely on. An insertion of a fresh key within the capacity succeeds;
  a removal always succeeds and returns what was stored.
\<close>

locale bounded_map =
  fixes minv :: "'t \<Rightarrow> bool"
    and abs :: "'t \<Rightarrow> 'k \<Rightarrow> 'v option"
    and ins :: "'t \<Rightarrow> 'k \<Rightarrow> 'v \<Rightarrow> 't option"
    and del :: "'t \<Rightarrow> 'k \<Rightarrow> ('v option \<times> 't) option"
    and cap :: "'t \<Rightarrow> nat"
    and used :: "'t \<Rightarrow> nat"
  assumes ins_ok: "minv t \<Longrightarrow> used t < cap t \<Longrightarrow> abs t k = None \<Longrightarrow>
      \<exists>t'. ins t k v = Some t' \<and> minv t' \<and> abs t' = (abs t)(k \<mapsto> v) \<and> cap t' = cap t \<and> used t' = used t + 1"
    and del_ok: "minv t \<Longrightarrow>
      \<exists>t'. del t k = Some (abs t k, t') \<and> minv t' \<and> abs t' = (abs t)(k := None) \<and> cap t' = cap t \<and>
        used t' = (if abs t k = None then used t else used t - 1)"
begin

lemma ins_del:
  assumes "minv t" "used t < cap t" "abs t k = None"
  shows "\<exists>t1 t2. ins t k v = Some t1 \<and> del t1 k = Some (Some v, t2) \<and> minv t2 \<and> abs t2 = abs t \<and>
    used t2 = used t"
proof -
  obtain t1 where t1: "ins t k v = Some t1" "minv t1" "abs t1 = (abs t)(k \<mapsto> v)" "used t1 = used t + 1"
    using ins_ok [OF assms, of v] by blast
  obtain t2 where t2: "del t1 k = Some (abs t1 k, t2)" "minv t2" "abs t2 = (abs t1)(k := None)"
    "used t2 = (if abs t1 k = None then used t1 else used t1 - 1)"
    using del_ok [OF t1(2), of k] by blast
  have "abs t1 k = Some v" "abs t2 = abs t"
    using assms(3) by (simp_all add: t1(3) t2(3) fun_upd_idem)
  then show ?thesis
    using t1(1,4) t2(1,2,4) by (intro exI [of _ t1] exI [of _ t2]) simp
qed

fun ins_all :: "'t \<Rightarrow> ('k \<times> 'v) list \<Rightarrow> 't option" where
  "ins_all t [] = Some t"
| "ins_all t ((k, v) # ps) = Option.bind (ins t k v) (\<lambda>t'. ins_all t' ps)"

lemma ins_all_ok:
  "minv t \<Longrightarrow> used t + length ps \<le> cap t \<Longrightarrow> distinct (map fst ps) \<Longrightarrow>
     \<forall>k \<in> set (map fst ps). abs t k = None \<Longrightarrow>
   \<exists>t'. ins_all t ps = Some t' \<and> minv t' \<and> used t' = used t + length ps \<and>
     abs t' = (abs t)(map fst ps [\<mapsto>] map snd ps)"
proof (induction ps arbitrary: t)
  case (Cons p ps)
  obtain k v where p: "p = (k, v)"
    by fastforce
  obtain t1 where t1: "ins t k v = Some t1" "minv t1" "abs t1 = (abs t)(k \<mapsto> v)" "cap t1 = cap t"
    "used t1 = used t + 1"
  proof -
    have "used t < cap t" "abs t k = None"
      using Cons.prems(2,4) by (simp_all add: p)
    then show thesis
      using ins_ok [OF Cons.prems(1), of k v] that by blast
  qed
  have "\<forall>k \<in> set (map fst ps). abs t1 k = None"
    using Cons.prems(3,4) by (auto simp: t1(3) p)
  moreover have "used t1 + length ps \<le> cap t1" "distinct (map fst ps)"
    using Cons.prems(2,3) t1(4,5) by simp_all
  ultimately obtain t' where t': "ins_all t1 ps = Some t'" "minv t'" "used t' = used t1 + length ps"
    "abs t' = (abs t1)(map fst ps [\<mapsto>] map snd ps)"
    using Cons.IH [OF t1(2)] by blast
  have "abs t' = (abs t)(map fst (p # ps) [\<mapsto>] map snd (p # ps))"
    by (simp add: p t'(4) t1(3) del: map_upd_upds_conv_if)
  then show ?case
    using t'(1-3) t1(1,5) by (intro exI [of _ t']) (simp add: p)
qed simp

end

definition ins_op :: "('k::linorder, 'v) ordered_table \<Rightarrow> 'k \<Rightarrow> 'v \<Rightarrow> ('k, 'v) ordered_table option" where
  "ins_op t k v = insert_prepared t (PreparedEntry k v)"

interpretation ot_map: bounded_map ot_inv tmap ins_op remove_by limit len
  by unfold_locales (unfold ins_op_def, erule (2) insert_prepared_ok, erule remove_by_ok)

section \<open>The table as a transition system\<close>

inductive ot_step :: "('k::linorder, 'v) ordered_table \<Rightarrow> ('k, 'v) ordered_table \<Rightarrow> bool" where
  insert_prepared: "insert_prepared t e = Some t' \<Longrightarrow> ot_step t t'"
| try_insert: "try_insert room t k v = Some (r, t') \<Longrightarrow> ot_step t t'"
| get_mut_by: "get_mut_by f t k = (x, t') \<Longrightarrow> ot_step t t'"
| remove_by: "remove_by t k = Some (x, t') \<Longrightarrow> ot_step t t'"
| pop_first: "pop_first t = Some (m, t') \<Longrightarrow> ot_step t t'"

lemma insert_prepared_inv:
  assumes "ot_inv t" "insert_prepared t e = Some t'"
  shows "ot_inv t'"
proof -
  have "len t < limit t" "tmap t (pe_key e) = None"
    using assms get_by_tmap [OF assms(1)] by (auto simp: insert_prepared_def split: if_splits)
  then show ?thesis
    using insert_prepared_ok [OF assms(1), of "pe_key e" "pe_value e"] assms(2) by auto
qed

lemma ot_step_inv: "ot_step t t' \<Longrightarrow> ot_inv t \<Longrightarrow> ot_inv t'"
proof (induction rule: ot_step.induct)
  case (try_insert room t k v r t')
  then show ?case
    using insert_prepared_inv
    by (auto simp: try_insert_def split: option.splits result.splits)
next
  case (remove_by t k x t')
  then show ?case
    using remove_by_ok [of t k] by auto
next
  case (pop_first t m t')
  then show ?case
    using pop_first_ok [of t] by auto
qed (auto intro: insert_prepared_inv dest: get_mut_by_ok)

lemma new_inv: "new lim = Some t \<Longrightarrow> ot_inv t"
  by (auto simp: new_def ot_inv_def bst_def split: if_splits)

interpretation ot: inv_system "\<lambda>t. \<exists>lim. new lim = Some t" ot_step ot_inv
  by unfold_locales (auto intro: new_inv ot_step_inv)

section \<open>Heights\<close>

fun heights :: "('k, 'v) link \<Rightarrow> nat set" where
  "heights Tip = {}"
| "heights (Node _ _ h l r) = insert h (heights l \<union> heights r)"

lemma heights_le: "avl t \<Longrightarrow> h \<in> heights t \<Longrightarrow> h \<le> height t"
  by (induction t) (auto simp: le_max_iff_disj)

text \<open>An AVL tree of height \<open>h\<close> has at least \<open>2 ^ (h div 2) - 1\<close> nodes.\<close>

lemma avl_size: "avl t \<Longrightarrow> 2 ^ (height t div 2) \<le> length (inorder t) + 1"
proof (induction t)
  case (Node k v h l r)
  have step: "2 ^ (Suc a div 2) \<le> m + n + (2::nat)"
    if "2 ^ (a div 2) \<le> m + 1" "2 ^ (b div 2) \<le> n + 1" "a \<le> Suc b" for a b m n
  proof (cases a)
    case (Suc c)
    then have "(2::nat) ^ (c div 2) \<le> 2 ^ (a div 2)" "(2::nat) ^ (c div 2) \<le> 2 ^ (b div 2)"
      using that(3) by (simp_all add: div_le_mono)
    moreover have "(2::nat) ^ (Suc a div 2) = 2 * 2 ^ (c div 2)"
      by (simp add: Suc)
    ultimately show ?thesis
      using that(1,2) by linarith
  qed simp
  have il: "2 ^ (height l div 2) \<le> length (inorder l) + 1"
    and ir: "2 ^ (height r div 2) \<le> length (inorder r) + 1"
    and h: "h = Suc (max (height l) (height r))" "height l \<le> Suc (height r)" "height r \<le> Suc (height l)"
    using Node by auto
  have n: "length (inorder (Node k v h l r)) + 1 = length (inorder l) + length (inorder r) + 2"
    by simp
  show ?case
  proof (cases "height r \<le> height l")
    case True
    then have hl: "height (Node k v h l r) = Suc (height l)"
      using h(1) by simp
    show ?thesis
      unfolding n hl by (rule step [OF il ir h(2)])
  next
    case False
    then have hr: "height (Node k v h l r) = Suc (height r)"
      using h(1) by simp
    show ?thesis
      unfolding n hr using step [OF ir il h(3)] by (simp only: add.commute [of "length (inorder l)"])
  qed
qed simp

section \<open>An example table\<close>

text \<open>Inserting 3, 1 and 2 makes a double rotation.\<close>

definition demo_tree :: "(nat, bool) link \<Rightarrow> nat \<Rightarrow> (nat, bool) ordered_table" where
  "demo_tree r n = \<lparr>root = r, len = n, limit = 4\<rparr>"

definition demo_ot :: "(nat, bool) ordered_table" where
  "demo_ot = demo_tree (Node 2 True 2 (Node 1 True 1 Tip Tip) (Node 3 False 1 Tip Tip)) 3"

lemma demo_ot_inv: "ot_inv demo_ot"
  by (simp add: ot_inv_def demo_ot_def demo_tree_def bst_def)

lemma demo_ot_steps: "ot_step\<^sup>*\<^sup>* (demo_tree Tip 0) demo_ot"
proof -
  have "insert_prepared (demo_tree Tip 0) (PreparedEntry 3 False) =
      Some (demo_tree (Node 3 False 1 Tip Tip) 1)"
    "insert_prepared (demo_tree (Node 3 False 1 Tip Tip) 1) (PreparedEntry 1 True) =
      Some (demo_tree (Node 3 False 2 (Node 1 True 1 Tip Tip) Tip) 2)"
    "insert_prepared (demo_tree (Node 3 False 2 (Node 1 True 1 Tip Tip) Tip) 2) (PreparedEntry 2 True) =
      Some demo_ot"
    by code_simp+
  note s = this [THEN ot_step.insert_prepared]
  show ?thesis
    by (rule converse_rtranclp_into_rtranclp [OF s(1)
          converse_rtranclp_into_rtranclp [OF s(2) r_into_rtranclp [of ot_step, OF s(3)]]])
qed

section \<open>Properties\<close>

text \<open>
  Claim C12. Every table built by the operations is a strictly ordered, height-balanced tree with
  correct stored heights, its length is the number of its entries, and it never exceeds its limit.
\<close>

theorem ordered_table_wf:
  assumes "new lim = Some t0" "ot_step\<^sup>*\<^sup>* t0 t"
  shows "avl (root t) \<and> bst (root t) \<and> len t = length (inorder (root t)) \<and> len t \<le> limit t"
  using ot.inv_reachable [of t0 t] assms by (auto simp: ot_inv_def)

theorem ordered_table_wf_witness:
  "avl (root demo_ot) \<and> bst (root demo_ot) \<and> len demo_ot = length (inorder (root demo_ot)) \<and>
   len demo_ot \<le> limit demo_ot"
proof -
  have "new 4 = Some (demo_tree Tip 0)"
    by (simp add: new_def demo_tree_def)
  then show ?thesis
    by (rule ordered_table_wf [OF _ demo_ot_steps])
qed



text \<open>
  Iteration is in key order: \<open>next_after\<close> returns the entry with the least key greater
  than the cursor (the least key of all without a cursor), and \<open>None\<close> only when there is no such key.
\<close>

theorem next_after_least:
  assumes "ot_inv t"
  shows "case next_after t c of
      Some (k, v) \<Rightarrow> tmap t k = Some v \<and> (\<forall>x. c = Some x \<longrightarrow> x < k) \<and>
        (\<forall>k'. tmap t k' \<noteq> None \<and> (\<forall>x. c = Some x \<longrightarrow> x < k') \<longrightarrow> k \<le> k')
    | None \<Rightarrow> (\<forall>k'. tmap t k' \<noteq> None \<longrightarrow> (\<exists>x. c = Some x \<and> k' \<le> x))"
proof -
  let ?P = "\<lambda>p :: 'a \<times> 'b. case c of None \<Rightarrow> True | Some c \<Rightarrow> c < fst p"
  have b: "bst (root t)" "sorted_wrt (\<lambda>p q. fst p < fst q) (inorder (root t))"
    using assms by (auto simp: ot_inv_def bst_def sorted_wrt_map)
  have P: "?P p \<longleftrightarrow> (\<forall>x. c = Some x \<longrightarrow> x < fst p)" for p
    by (cases c) auto
  have n: "next_after t c = find ?P (inorder (root t))"
    using next_loop_find [OF b(1), of c None] by (simp add: next_after_def split: option.splits)
  have dom: "tmap t k \<noteq> None \<longleftrightarrow> (\<exists>v. (k, v) \<in> set (inorder (root t)))" for k
    by (force simp: tmap_def map_of_eq_None_iff)
  show ?thesis
  proof (cases "find ?P (inorder (root t))")
    case None
    then have "\<not> (\<forall>x. c = Some x \<longrightarrow> x < fst q)" if "q \<in> set (inorder (root t))" for q
      using that unfolding find_None_iff P by blast
    then show ?thesis
      unfolding n None option.case dom by (fastforce simp: not_less)
  next
    case (Some p)
    have p: "next_after t c = Some p" "tmap t (fst p) = Some (snd p)"
      using n find_SomeD [OF Some] bst_distinct [OF b(1)] by (simp_all add: tmap_def Some)
    moreover have "\<forall>x. c = Some x \<longrightarrow> x < fst p"
      using find_SomeD [OF Some] P by blast
    moreover have "fst p \<le> k'" if "(k', v) \<in> set (inorder (root t))" "\<forall>x. c = Some x \<longrightarrow> x < k'" for k' v
      using find_least [OF b(2) Some that(1)] P [of "(k', v)"] that(2) by simp
    ultimately show ?thesis
      unfolding p(1) option.case dom by (auto split: prod.splits)
  qed
qed

text \<open>
  Claim C13. A visibility scan is exact: it writes the keys behind the cursor in order, stops at the
  first invisible entry or when the output is full, leaves the rest of the output alone, and reports whether anything was left out.
\<close>

theorem scan_visible_exact:
  assumes "ot_inv t" "xs = filter (\<lambda>p. c < fst p) (inorder (root t))"
    and "n = min (length out) (length (takeWhile (\<lambda>p. visible (snd p)) xs))"
  shows "scan_visible t visible c out =
    (n, n < length xs, map fst (take n xs) @ drop n out)"
  using assms(1) scan_eq_list [of "root t" visible c "(out, 0)"]
    scan_list_exact [of 0 out n visible xs] assms(2,3)
  by (simp add: scan_visible_def ot_inv_def above_def)

theorem scan_visible_exact_witness:
  "scan_visible demo_ot (\<lambda>v. v) 0 [9, 9, 9, 9] = (2, True, [1, 2, 9, 9])"
  using scan_visible_exact [OF demo_ot_inv refl refl, of "\<lambda>v. v" 0 "[9, 9, 9, 9]"]
  by (simp add: demo_ot_def demo_tree_def numeral_eq_Suc)

text \<open>
  The stored heights fit their byte: in any table with fewer than \<open>2 ^ 64\<close> entries no
  stored height exceeds 129.
\<close>

theorem heights_fit_u8:
  assumes "ot_inv t" "len t < usize_bound"
  shows "\<forall>h \<in> heights (root t). h \<le> 129"
proof
  fix h
  assume "h \<in> heights (root t)"
  then have "h \<le> height (root t)"
    using assms(1) heights_le by (auto simp: ot_inv_def)
  moreover have "height (root t) div 2 \<le> 64"
  proof -
    have "avl (root t)" "len t = length (inorder (root t))"
      using assms(1) by (auto simp: ot_inv_def)
    then have "(2::nat) ^ (height (root t) div 2) \<le> 2 ^ 64"
      using avl_size [of "root t"] assms(2) by linarith
    then show ?thesis
      by (simp only: power_increasing_iff one_less_numeral_iff semiring_norm)
  qed
  ultimately show "h \<le> 129"
    by linarith
qed

end
