(* ===== verification/Timer_Queue.thy ===== *)
theory Timer_Queue
  imports Prelude
begin

text \<open>
  The cancellable deadline queue of \<open>shared/timer_queue\<close>: tokens packed into 63 bits, an arena of
  slots with generations and a free list threaded through its vacant slots, and an indexed
  binary heap of arena slots ordered by deadline. This theory holds the definitions;
  \<open>Timer_Queue_Heap\<close> the heap lemmas, \<open>Timer_Queue_Props\<close> and \<open>Timer_Queue_Ops\<close> the
  invariant and the operations, \<open>Timer_Queue_Contract\<close> the contract and the properties.

  Every index out of range, failed \<open>let \<dots> else\<close> and underflow is \<^const>\<open>None\<close>. Whether
  \<open>try_reserve\<close> finds room for the heap and for the arena are the arguments \<open>hroom\<close> and \<open>aroom\<close>.
\<close>

section \<open>Tokens\<close>

definition OWNER_BITS :: nat where "OWNER_BITS = 8"
definition SLOT_BITS :: nat where "SLOT_BITS = 28"
definition GENERATION_BITS :: nat where "GENERATION_BITS = 27"
definition OWNER_MASK :: u64 where "OWNER_MASK = push_bit OWNER_BITS 1 - 1"
definition SLOT_MASK :: u64 where "SLOT_MASK = push_bit SLOT_BITS 1 - 1"
definition GENERATION_MASK :: u64 where "GENERATION_MASK = push_bit GENERATION_BITS 1 - 1"
definition GENERATION_MAX :: u32 where "GENERATION_MAX = ucast GENERATION_MASK"

datatype timer_token = TimerToken (token_raw: u64)

definition RAW_MASK :: u64 where
  "RAW_MASK = push_bit (OWNER_BITS + SLOT_BITS + GENERATION_BITS) 1 - 1"

definition token_owner_slot :: "timer_token \<Rightarrow> nat" where
  "token_owner_slot t = unat (token_raw t AND OWNER_MASK)"

text \<open>\<open>slot\<close> subtracts one: \<^const>\<open>None\<close> is the underflow.\<close>

definition token_slot :: "timer_token \<Rightarrow> nat option" where
  "token_slot t = usize_sub (unat (drop_bit OWNER_BITS (token_raw t) AND SLOT_MASK)) 1"

definition token_generation :: "timer_token \<Rightarrow> u32" where
  "token_generation t = ucast (drop_bit (OWNER_BITS + SLOT_BITS) (token_raw t))"

definition token_new :: "nat \<Rightarrow> nat \<Rightarrow> u32 \<Rightarrow> timer_token" where
  "token_new owner_slot slot gen =
     TimerToken (push_bit (OWNER_BITS + SLOT_BITS) (ucast gen)
       OR push_bit OWNER_BITS (of_nat slot + 1) OR of_nat owner_slot)"

section \<open>The queue\<close>

datatype 'a slot_state =
    Vacant "nat option"
  | Occupied u64 'a nat
  | Parked 'a
  | Retired

record 'a slot =
  sl_gen :: u32
  sl_state :: "'a slot_state"

record 'a timer_queue =
  owner_slot :: "nat option"
  arena :: "'a slot list"
  free_head :: "nat option"
  heap :: "nat list"
  live :: nat

definition new :: "nat \<Rightarrow> 'a timer_queue option" where
  "new owner =
     (if owner \<le> unat OWNER_MASK
      then Some \<lparr>owner_slot = Some owner, arena = [], free_head = None, heap = [], live = 0\<rparr>
      else None)"

definition unbound :: "'a timer_queue" where
  "unbound = \<lparr>owner_slot = None, arena = [], free_head = None, heap = [], live = 0\<rparr>"

definition bind_owner :: "'a timer_queue \<Rightarrow> nat \<Rightarrow> bool \<times> 'a timer_queue" where
  "bind_owner q owner =
     (if owner > unat OWNER_MASK then (False, q)
      else case owner_slot q of
        Some own \<Rightarrow> (own = owner, q)
      | None \<Rightarrow> (True, q\<lparr>owner_slot := Some owner\<rparr>))"

definition len :: "'a timer_queue \<Rightarrow> nat" where
  "len q = live q"

definition is_empty :: "'a timer_queue \<Rightarrow> bool" where
  "is_empty q \<longleftrightarrow> live q = 0"

definition set_slot_state :: "'a timer_queue \<Rightarrow> nat \<Rightarrow> 'a slot_state \<Rightarrow> 'a timer_queue option" where
  "set_slot_state q s st =
     (if s < length (arena q)
      then Some (q\<lparr>arena := (arena q)[s := (arena q ! s)\<lparr>sl_state := st\<rparr>]\<rparr>) else None)"

definition expires_at :: "'a timer_queue \<Rightarrow> nat \<Rightarrow> u64 option" where
  "expires_at q s =
     do {
       entry \<leftarrow> at (arena q) s;
       (case sl_state entry of Occupied e _ _ \<Rightarrow> Some e | _ \<Rightarrow> None)
     }"

definition set_heap_index :: "'a timer_queue \<Rightarrow> nat \<Rightarrow> nat \<Rightarrow> 'a timer_queue option" where
  "set_heap_index q s i =
     do {
       entry \<leftarrow> at (arena q) s;
       (case sl_state entry of
          Occupied e v _ \<Rightarrow> set_slot_state q s (Occupied e v i)
        | _ \<Rightarrow> None)
     }"

text \<open>The deadline of the entry at a heap position: \<open>self.expires_at(self.heap[i])\<close>.\<close>

definition heap_key :: "'a timer_queue \<Rightarrow> nat \<Rightarrow> u64 option" where
  "heap_key q i = do { s \<leftarrow> at (heap q) i; expires_at q s }"

text \<open>The three statements both sift loops end with: swap and record the new positions.\<close>

definition swap_heap :: "'a timer_queue \<Rightarrow> nat \<Rightarrow> nat \<Rightarrow> 'a timer_queue option" where
  "swap_heap q parent child =
     do {
       sp \<leftarrow> at (heap q) parent;
       sc \<leftarrow> at (heap q) child;
       let q1 = q\<lparr>heap := (heap q)[parent := sc, child := sp]\<rparr>;
       q2 \<leftarrow> set_heap_index q1 sc parent;
       set_heap_index q2 sp child
     }"

function sift_up :: "'a timer_queue \<Rightarrow> nat \<Rightarrow> 'a timer_queue option" where
  "sift_up q child =
     (if child = 0 then Some q
      else let parent = (child - 1) div 2 in
        do {
          kp \<leftarrow> heap_key q parent;
          kc \<leftarrow> heap_key q child;
          if kp \<le> kc then Some q
          else do { q' \<leftarrow> swap_heap q parent child; sift_up q' parent }
        })"
  by pat_completeness auto
termination
  by (relation "measure snd") auto

lemma at_Some [simp]: "at xs i = Some x \<longleftrightarrow> i < length xs \<and> x = xs ! i"
  by (auto simp: at_def)

lemma set_heap_index_Some:
  "set_heap_index q s i = Some q' \<longleftrightarrow>
     s < length (arena q) \<and>
     (\<exists>e v k. sl_state (arena q ! s) = Occupied e v k \<and>
        q' = q\<lparr>arena := (arena q)[s := (arena q ! s)\<lparr>sl_state := Occupied e v i\<rparr>]\<rparr>)"
  by (auto simp: set_heap_index_def set_slot_state_def bind_eq_Some_conv
      split: slot_state.split_asm slot_state.split)

lemma swap_heap_length: "swap_heap q i j = Some q' \<Longrightarrow> length (heap q') = length (heap q)"
  by (auto simp: swap_heap_def Let_def bind_eq_Some_conv set_heap_index_Some)

text \<open>The child \<open>sift_down\<close> compares with: the right one when it exists and is strictly earlier.\<close>

definition earlier_child :: "'a timer_queue \<Rightarrow> nat \<Rightarrow> nat option" where
  "earlier_child q left =
     do {
       kl \<leftarrow> heap_key q left;
       (if left + 1 < length (heap q)
        then do { kr \<leftarrow> heap_key q (left + 1); Some (if kr < kl then left + 1 else left) }
        else Some left)
     }"

lemma earlier_child_ge: "earlier_child q l = Some c \<Longrightarrow> l \<le> c \<and> c \<le> l + 1"
  by (auto simp: earlier_child_def bind_eq_Some_conv split: if_splits)

function sift_down :: "'a timer_queue \<Rightarrow> nat \<Rightarrow> 'a timer_queue option" where
  "sift_down q parent =
     (if parent * 2 + 1 \<ge> length (heap q) then Some q
      else do {
        child \<leftarrow> earlier_child q (parent * 2 + 1);
        kp \<leftarrow> heap_key q parent;
        kc \<leftarrow> heap_key q child;
        if kp \<le> kc then Some q
        else do { q' \<leftarrow> swap_heap q parent child; sift_down q' child }
      })"
  by pat_completeness auto
termination
  by (relation "measure (\<lambda>(q, parent). length (heap q) - parent)")
     (auto dest!: swap_heap_length earlier_child_ge)

declare sift_up.simps [simp del]
declare sift_down.simps [simp del]

text \<open>\<open>Vec::swap_remove\<close> returns the element and moves the last one into its place.\<close>

definition swap_remove :: "nat list \<Rightarrow> nat \<Rightarrow> (nat \<times> nat list) option" where
  "swap_remove xs i =
     (if i < length xs then Some (xs ! i, butlast (xs[i := last xs])) else None)"

definition detach_heap_index :: "'a timer_queue \<Rightarrow> nat \<Rightarrow> (nat \<times> 'a timer_queue) option" where
  "detach_heap_index q i =
     do {
       (s, h) \<leftarrow> swap_remove (heap q) i;
       let q1 = q\<lparr>heap := h\<rparr>;
       q' \<leftarrow> (if i < length h
              then do {
                let replacement = h ! i;
                q2 \<leftarrow> set_heap_index q1 replacement i;
                up \<leftarrow> (if i > 0
                       then do {
                         kr \<leftarrow> expires_at q2 replacement;
                         kp \<leftarrow> heap_key q2 ((i - 1) div 2);
                         Some (kr < kp)
                       }
                       else Some False);
                if up then sift_up q2 i else sift_down q2 i
              }
              else Some q1);
       Some (s, q')
     }"

definition recycle :: "'a timer_queue \<Rightarrow> nat \<Rightarrow> 'a timer_queue option" where
  "recycle q s =
     do {
       entry \<leftarrow> at (arena q) s;
       if sl_gen entry = GENERATION_MAX
       then Some (q\<lparr>arena := (arena q)[s := entry\<lparr>sl_state := Retired\<rparr>]\<rparr>)
       else Some (q\<lparr>arena := (arena q)[s := entry\<lparr>sl_gen := sl_gen entry + 1,
                      sl_state := Vacant (free_head q)\<rparr>],
                    free_head := Some s\<rparr>)
     }"

definition remove_heap_index :: "'a timer_queue \<Rightarrow> nat \<Rightarrow> ('a \<times> 'a timer_queue) option" where
  "remove_heap_index q i =
     do {
       (s, q1) \<leftarrow> detach_heap_index q i;
       n \<leftarrow> usize_sub (live q1) 1;
       let q2 = q1\<lparr>live := n\<rparr>;
       entry \<leftarrow> at (arena q2) s;
       q3 \<leftarrow> set_slot_state q2 s Retired;
       (case sl_state entry of
          Occupied _ v _ \<Rightarrow> do { q4 \<leftarrow> recycle q3 s; Some (v, q4) }
        | _ \<Rightarrow> None)
     }"

section \<open>Operations\<close>

text \<open>The slot and generation \<open>try_register\<close> takes, from the free list or by growing the arena.\<close>

definition take_slot :: "'a timer_queue \<Rightarrow> (nat \<times> u32 \<times> 'a timer_queue) option" where
  "take_slot q =
     (case free_head q of
        Some i \<Rightarrow>
          do {
            entry \<leftarrow> at (arena q) i;
            (case sl_state entry of
               Vacant nxt \<Rightarrow> Some (i, sl_gen entry, q\<lparr>free_head := nxt\<rparr>)
             | _ \<Rightarrow> None)
          }
      | None \<Rightarrow>
          Some (length (arena q), 1, q\<lparr>arena := arena q @ [\<lparr>sl_gen = 1, sl_state = Retired\<rparr>]\<rparr>))"

definition try_register ::
  "bool \<Rightarrow> bool \<Rightarrow> 'a timer_queue \<Rightarrow> u64 \<Rightarrow> 'a \<Rightarrow>
     ((timer_token, unit) result \<times> 'a timer_queue) option" where
  "try_register hroom aroom q expires v =
     (case owner_slot q of
        None \<Rightarrow> Some (Err (), q)
      | Some owner \<Rightarrow>
          (case usize_add (live q) 1 of
             None \<Rightarrow> Some (Err (), q)
           | Some required \<Rightarrow>
               do {
                 _ \<leftarrow> usize_sub required (length (heap q));
                 if \<not> hroom then Some (Err (), q)
                 else if free_head q = None \<and> (\<not> aroom \<or> length (arena q) \<ge> unat SLOT_MASK)
                 then Some (Err (), q)
                 else do {
                   (s, gen, q1) \<leftarrow> take_slot q;
                   let i = length (heap q1);
                   q2 \<leftarrow> set_slot_state q1 s (Occupied expires v i);
                   let q3 = q2\<lparr>heap := heap q2 @ [s], live := live q2 + 1\<rparr>;
                   q4 \<leftarrow> sift_up q3 i;
                   Some (Ok (token_new owner s gen), q4)
                 }
               }))"

text \<open>\<open>valid_slot\<close>: the outer option is the underflow of \<open>slot\<close>, the inner one its answer.\<close>

definition valid_slot :: "'a timer_queue \<Rightarrow> timer_token \<Rightarrow> nat option option" where
  "valid_slot q t =
     map_option
       (\<lambda>s. case at (arena q) s of
              None \<Rightarrow> None
            | Some entry \<Rightarrow>
                if token_generation t \<noteq> 0 \<and> sl_gen entry = token_generation t then Some s else None)
       (token_slot t)"

definition cancel :: "'a timer_queue \<Rightarrow> timer_token \<Rightarrow> ('a option \<times> 'a timer_queue) option" where
  "cancel q t =
     (if owner_slot q \<noteq> Some (token_owner_slot t) then Some (None, q)
      else do {
        found \<leftarrow> valid_slot q t;
        (case found of
           None \<Rightarrow> Some (None, q)
         | Some s \<Rightarrow>
             (case sl_state (arena q ! s) of
                Occupied _ _ i \<Rightarrow> map_option (\<lambda>(v, q'). (Some v, q')) (remove_heap_index q i)
              | Parked v \<Rightarrow>
                  do {
                    q1 \<leftarrow> set_slot_state q s Retired;
                    n \<leftarrow> usize_sub (live q1) 1;
                    q2 \<leftarrow> recycle (q1\<lparr>live := n\<rparr>) s;
                    Some (Some v, q2)
                  }
              | Vacant _ \<Rightarrow> Some (None, q)
              | Retired \<Rightarrow> Some (None, q)))
      })"

text \<open>\<open>value_mut\<close> hands out a reference: the model applies the caller's change.\<close>

definition value_mut ::
  "('a \<Rightarrow> 'a) \<Rightarrow> 'a timer_queue \<Rightarrow> timer_token \<Rightarrow> ('a option \<times> 'a timer_queue) option" where
  "value_mut f q t =
     (if owner_slot q \<noteq> Some (token_owner_slot t) then Some (None, q)
      else do {
        found \<leftarrow> valid_slot q t;
        (case found of
           None \<Rightarrow> Some (None, q)
         | Some s \<Rightarrow>
             (case sl_state (arena q ! s) of
                Occupied e v i \<Rightarrow>
                  map_option (\<lambda>q'. (Some v, q')) (set_slot_state q s (Occupied e (f v) i))
              | Parked v \<Rightarrow> map_option (\<lambda>q'. (Some v, q')) (set_slot_state q s (Parked (f v)))
              | Vacant _ \<Rightarrow> Some (None, q)
              | Retired \<Rightarrow> Some (None, q)))
      })"

definition reschedule :: "'a timer_queue \<Rightarrow> timer_token \<Rightarrow> u64 \<Rightarrow> (bool \<times> 'a timer_queue) option" where
  "reschedule q t deadline =
     (if owner_slot q \<noteq> Some (token_owner_slot t) then Some (False, q)
      else do {
        found \<leftarrow> valid_slot q t;
        (case found of
           None \<Rightarrow> Some (False, q)
         | Some s \<Rightarrow>
             (case sl_state (arena q ! s) of
                Parked v \<Rightarrow>
                  do {
                    let i = length (heap q);
                    q1 \<leftarrow> set_slot_state q s (Occupied deadline v i);
                    q2 \<leftarrow> sift_up (q1\<lparr>heap := heap q1 @ [s]\<rparr>) i;
                    Some (True, q2)
                  }
              | Occupied old v i \<Rightarrow>
                  do {
                    q1 \<leftarrow> set_slot_state q s (Occupied deadline v i);
                    q2 \<leftarrow> (if deadline < old then sift_up q1 i
                           else if deadline > old then sift_down q1 i
                           else Some q1);
                    Some (True, q2)
                  }
              | Vacant _ \<Rightarrow> Some (False, q)
              | Retired \<Rightarrow> Some (False, q)))
      })"

definition park :: "'a timer_queue \<Rightarrow> timer_token \<Rightarrow> (bool \<times> 'a timer_queue) option" where
  "park q t =
     (if owner_slot q \<noteq> Some (token_owner_slot t) then Some (False, q)
      else do {
        found \<leftarrow> valid_slot q t;
        (case found of
           None \<Rightarrow> Some (False, q)
         | Some s \<Rightarrow>
             (case sl_state (arena q ! s) of
                Occupied _ _ i \<Rightarrow>
                  do {
                    (removed, q1) \<leftarrow> detach_heap_index q i;
                    entry \<leftarrow> at (arena q1) s;
                    (case sl_state entry of
                       Occupied _ v _ \<Rightarrow> map_option (\<lambda>q2. (True, q2)) (set_slot_state q1 s (Parked v))
                     | _ \<Rightarrow> None)
                  }
              | Parked _ \<Rightarrow> Some (True, q)
              | Vacant _ \<Rightarrow> Some (False, q)
              | Retired \<Rightarrow> Some (False, q)))
      })"

definition peek :: "'a timer_queue \<Rightarrow> (timer_token \<times> u64 \<times> 'a) option option" where
  "peek q =
     (case heap q of
        [] \<Rightarrow> Some None
      | s # _ \<Rightarrow>
          do {
            entry \<leftarrow> at (arena q) s;
            (case sl_state entry of
               Occupied e v _ \<Rightarrow>
                 Some (map_option (\<lambda>owner. (token_new owner s (sl_gen entry), e, v)) (owner_slot q))
             | _ \<Rightarrow> None)
          })"

definition peek_expires_at :: "'a timer_queue \<Rightarrow> u64 option option" where
  "peek_expires_at q =
     (case heap q of [] \<Rightarrow> Some None | s # _ \<Rightarrow> map_option Some (expires_at q s))"

definition pop_expired ::
  "'a timer_queue \<Rightarrow> u64 \<Rightarrow> ((timer_token \<times> 'a) option \<times> 'a timer_queue) option" where
  "pop_expired q now =
     (case (owner_slot q, heap q) of
        (Some owner, s # _) \<Rightarrow>
          do {
            e \<leftarrow> expires_at q s;
            if e > now then Some (None, q)
            else do {
              entry \<leftarrow> at (arena q) s;
              (v, q') \<leftarrow> remove_heap_index q 0;
              Some (Some (token_new owner s (sl_gen entry), v), q')
            }
          }
      | _ \<Rightarrow> Some (None, q))"

end
