(* ===== verification/Timer_Queue_Heap.thy ===== *)
theory Timer_Queue_Heap
  imports Timer_Queue
begin

text \<open>
  The indexed heap of the timer queue. Positions and slots name each other (\<open>hwf\<close>), the sift
  loops permute the heap without touching deadlines, values, generations or the free list
  (\<open>calm\<close>), and they restore the heap order (\<open>ordered\<close>) without ever panicking.
\<close>

section \<open>Heap order on keys by position\<close>

definition par :: "nat \<Rightarrow> nat" where
  "par i = (i - 1) div 2"

lemma par_less: "0 < i \<Longrightarrow> par i < i"
  by (simp add: par_def)

lemma par_iff: "0 < j \<Longrightarrow> par j = p \<longleftrightarrow> j = 2 * p + 1 \<or> j = 2 * p + 2"
  by (auto simp: par_def)

definition ordered :: "nat \<Rightarrow> (nat \<Rightarrow> 'k::linorder) \<Rightarrow> bool" where
  "ordered n k \<longleftrightarrow> (\<forall>i. 0 < i \<longrightarrow> i < n \<longrightarrow> k (par i) \<le> k i)"

text \<open>Ordered but for position \<open>c\<close> against its parent, or position \<open>p\<close> against its children.\<close>

definition up_ord :: "nat \<Rightarrow> (nat \<Rightarrow> 'k::linorder) \<Rightarrow> nat \<Rightarrow> bool" where
  "up_ord n k c \<longleftrightarrow>
     (\<forall>i. 0 < i \<longrightarrow> i < n \<longrightarrow> i \<noteq> c \<longrightarrow> k (par i) \<le> k i) \<and>
     (\<forall>j. 0 < j \<longrightarrow> j < n \<longrightarrow> par j = c \<longrightarrow> 0 < c \<longrightarrow> k (par c) \<le> k j)"

definition down_ord :: "nat \<Rightarrow> (nat \<Rightarrow> 'k::linorder) \<Rightarrow> nat \<Rightarrow> bool" where
  "down_ord n k p \<longleftrightarrow>
     (\<forall>i. 0 < i \<longrightarrow> i < n \<longrightarrow> par i \<noteq> p \<longrightarrow> k (par i) \<le> k i) \<and>
     (\<forall>j. 0 < j \<longrightarrow> j < n \<longrightarrow> par j = p \<longrightarrow> 0 < p \<longrightarrow> k (par p) \<le> k j)"

lemma up_ord_done: "up_ord n k c \<Longrightarrow> c = 0 \<or> k (par c) \<le> k c \<Longrightarrow> ordered n k"
  by (auto simp: up_ord_def ordered_def)

lemma up_ord_swap:
  assumes "up_ord n k c" "0 < c" "c < n" "k c < k (par c)"
  shows "up_ord n (k(par c := k c, c := k (par c))) (par c)"
proof -
  let ?p = "par c"
  have p: "?p < c"
    using assms(2) by (rule par_less)
  have c1: "k (par i) \<le> k i" if "0 < i" "i < n" "i \<noteq> c" for i
    using assms(1) that by (auto simp: up_ord_def)
  have c2: "k ?p \<le> k j" if "0 < j" "j < n" "par j = c" for j
    using assms(1,2) that by (auto simp: up_ord_def)
  have up: "k (par ?p) \<le> k ?p" if "0 < ?p"
    using c1 [of ?p] that p assms(3) by simp
  show ?thesis
    unfolding up_ord_def
  proof (intro conjI allI impI)
    fix i
    assume i: "0 < i" "i < n" "i \<noteq> ?p"
    consider "i = c" | "i \<noteq> c" "par i = c" | "i \<noteq> c" "par i = ?p" | "i \<noteq> c" "par i \<noteq> c" "par i \<noteq> ?p"
      by blast
    then show "(k(?p := k c, c := k ?p)) (par i) \<le> (k(?p := k c, c := k ?p)) i"
    proof cases
      case 3
      then show ?thesis
        using c1 [of i] assms(4) i p by simp
    qed (use i c1 [of i] c2 [of i] assms(4) p in simp_all)
  next
    fix j
    assume j: "0 < j" "j < n" "par j = ?p" "0 < ?p"
    have "par ?p \<noteq> c" "par ?p \<noteq> ?p" "j \<noteq> ?p"
      using par_less [of ?p] par_less [of j] p j by auto
    then show "(k(?p := k c, c := k ?p)) (par ?p) \<le> (k(?p := k c, c := k ?p)) j"
      using up c1 [of j] j by (cases "j = c") simp_all
  qed
qed

lemma down_ord_done:
  assumes "down_ord n k p" "\<And>j. 0 < j \<Longrightarrow> j < n \<Longrightarrow> par j = p \<Longrightarrow> k p \<le> k j"
  shows "ordered n k"
  using assms by (auto simp: down_ord_def ordered_def)

lemma down_ord_swap:
  assumes "down_ord n k p" "0 < c" "c < n" "par c = p" "k c < k p"
    and "\<And>j. 0 < j \<Longrightarrow> j < n \<Longrightarrow> par j = p \<Longrightarrow> k c \<le> k j"
  shows "down_ord n (k(p := k c, c := k p)) c"
proof -
  have p: "p < c"
    using assms(2,4) par_less by blast
  have c1: "k (par i) \<le> k i" if "0 < i" "i < n" "par i \<noteq> p" for i
    using assms(1) that by (auto simp: down_ord_def)
  have c2: "k (par p) \<le> k c" if "0 < p"
    using assms(1-4) that by (auto simp: down_ord_def)
  show ?thesis
    unfolding down_ord_def
  proof (intro conjI allI impI)
    fix i
    assume i: "0 < i" "i < n" "par i \<noteq> c"
    consider "i = p" | "i = c" | "i \<noteq> p" "i \<noteq> c" "par i = p" | "i \<noteq> p" "i \<noteq> c" "par i \<noteq> p"
      by blast
    then show "(k(p := k c, c := k p)) (par i) \<le> (k(p := k c, c := k p)) i"
    proof cases
      case 1
      then show ?thesis
        using i p c2 par_less [of p] by simp
    next
      case 2
      then show ?thesis
        using assms(4,5) p by simp
    qed (use i c1 [of i] assms(6) [of i] p in simp_all)
  next
    fix j
    assume j: "0 < j" "j < n" "par j = c" "0 < c"
    then have "j \<noteq> p" "j \<noteq> c"
      using p par_less [of j] by auto
    then show "(k(p := k c, c := k p)) (par c) \<le> (k(p := k c, c := k p)) j"
      using c1 [of j] assms(4) p j by simp
  qed
qed

text \<open>The root of an ordered heap is the minimum.\<close>

lemma ordered_root: "ordered n k \<Longrightarrow> i < n \<Longrightarrow> k 0 \<le> k i"
proof (induction i rule: less_induct)
  case (less i)
  show ?case
  proof (cases "i = 0")
    case False
    then have "k 0 \<le> k (par i)"
      using less par_less [of i] by auto
    also have "k (par i) \<le> k i"
      using less False by (auto simp: ordered_def)
    finally show ?thesis .
  qed simp
qed

section \<open>Consistency of heap and arena\<close>

abbreviation st :: "'a timer_queue \<Rightarrow> nat \<Rightarrow> 'a slot_state" where
  "st q s \<equiv> sl_state (arena q ! s)"

text \<open>\<open>X\<close> holds the slots that are occupied and taken out of the heap.\<close>

definition hwf :: "nat set \<Rightarrow> 'a timer_queue \<Rightarrow> bool" where
  "hwf X q \<longleftrightarrow>
     (\<forall>i < length (heap q). heap q ! i < length (arena q) \<and> heap q ! i \<notin> X \<and>
        (\<exists>e v. st q (heap q ! i) = Occupied e v i)) \<and>
     (\<forall>s < length (arena q). \<forall>e v i. s \<notin> X \<longrightarrow> st q s = Occupied e v i \<longrightarrow>
        i < length (heap q) \<and> heap q ! i = s)"

definition blur :: "'a slot \<Rightarrow> 'a slot" where
  "blur s = (case sl_state s of Occupied e v _ \<Rightarrow> s\<lparr>sl_state := Occupied e v 0\<rparr> | _ \<Rightarrow> s)"

definition calm :: "'a timer_queue \<Rightarrow> 'a timer_queue \<Rightarrow> bool" where
  "calm q q' \<longleftrightarrow>
     map blur (arena q') = map blur (arena q) \<and> free_head q' = free_head q \<and>
     owner_slot q' = owner_slot q \<and> live q' = live q"

definition key_at :: "'a timer_queue \<Rightarrow> nat \<Rightarrow> u64" where
  "key_at q i = (case st q (heap q ! i) of Occupied e _ _ \<Rightarrow> e | _ \<Rightarrow> 0)"

lemma calm_refl [simp]: "calm q q"
  by (simp add: calm_def)

lemma calm_trans: "calm a b \<Longrightarrow> calm b c \<Longrightarrow> calm a c"
  by (simp add: calm_def)

lemma hwf_at:
  "hwf X q \<Longrightarrow> i < length (heap q) \<Longrightarrow>
     heap q ! i < length (arena q) \<and> heap q ! i \<notin> X \<and> (\<exists>e v. st q (heap q ! i) = Occupied e v i)"
  by (simp add: hwf_def)

lemma hwf_slot:
  "hwf X q \<Longrightarrow> s < length (arena q) \<Longrightarrow> s \<notin> X \<Longrightarrow> st q s = Occupied e v i \<Longrightarrow>
     i < length (heap q) \<and> heap q ! i = s"
  by (simp add: hwf_def)

lemma hwf_heap:
  assumes "hwf X q" "i < length (heap q)"
  obtains e v where "heap q ! i < length (arena q)" "heap q ! i \<notin> X" "st q (heap q ! i) = Occupied e v i"
  using hwf_at [OF assms] by blast

lemma hwf_key:
  assumes "hwf X q" "i < length (heap q)"
  shows "heap_key q i = Some (key_at q i)"
  using hwf_at [OF assms] assms(2) by (auto simp: key_at_def heap_key_def expires_at_def at_def)

lemma hwf_distinct:
  assumes "hwf X q"
  shows "distinct (heap q)"
  unfolding distinct_conv_nth
proof (intro allI impI)
  fix i j
  assume i: "i < length (heap q)" and j: "j < length (heap q)" and "i \<noteq> j"
  then show "heap q ! i \<noteq> heap q ! j"
    using hwf_at [OF assms i] hwf_at [OF assms j] by auto
qed

lemma blur_set_index:
  "st q s = Occupied e v k \<Longrightarrow> blur ((arena q ! s)\<lparr>sl_state := Occupied e v i\<rparr>) = blur (arena q ! s)"
  by (simp add: blur_def)

lemma map_blur_update:
  "s < length xs \<Longrightarrow> blur y = blur (xs ! s) \<Longrightarrow> map blur (xs[s := y]) = map blur xs"
  by (simp add: map_update list_update_same_conv)

lemma other_position:
  assumes "hwf X q" "p < length (heap q)" "c < length (heap q)" "i < length (heap q)" "i \<noteq> p" "i \<noteq> c"
  shows "heap q ! i \<noteq> heap q ! p \<and> heap q ! i \<noteq> heap q ! c"
  using hwf_distinct [OF assms(1)] assms(2-) by (simp add: nth_eq_iff_index_eq)

lemma hwf_swap:
  assumes "hwf X q" "p < length (heap q)" "c < length (heap q)" "p \<noteq> c"
    and h: "heap q' ! p = heap q ! c" "heap q' ! c = heap q ! p"
      "\<And>i. i \<noteq> p \<Longrightarrow> i \<noteq> c \<Longrightarrow> heap q' ! i = heap q ! i" "length (heap q') = length (heap q)"
    and ar: "length (arena q') = length (arena q)" "st q' (heap q ! p) = Occupied ep vp c"
      "st q' (heap q ! c) = Occupied ec vc p"
      "\<And>s. s \<noteq> heap q ! p \<Longrightarrow> s \<noteq> heap q ! c \<Longrightarrow> arena q' ! s = arena q ! s"
  shows "hwf X q'"
  unfolding hwf_def h(4) ar(1)
proof (intro conjI allI impI)
  fix i
  assume i: "i < length (heap q)"
  consider "i = p" | "i = c" | "i \<noteq> p" "i \<noteq> c"
    by blast
  then have "heap q' ! i < length (arena q) \<and> heap q' ! i \<notin> X \<and> (\<exists>e v. st q' (heap q' ! i) = Occupied e v i)"
  proof cases
    case 3
    then show ?thesis
      using hwf_at [OF assms(1) i] other_position [OF assms(1-3) i] ar(4) h(3) by simp
  qed (use hwf_at [OF assms(1,2)] hwf_at [OF assms(1,3)] in \<open>simp_all add: h ar\<close>)
  then show "heap q' ! i < length (arena q)" "heap q' ! i \<notin> X" "\<exists>e v. st q' (heap q' ! i) = Occupied e v i"
    by blast+
next
  fix s e v i
  assume s: "s < length (arena q)" "s \<notin> X" "st q' s = Occupied e v i"
  consider "s = heap q ! p" | "s = heap q ! c" | "s \<noteq> heap q ! p" "s \<noteq> heap q ! c"
    by blast
  then have "i < length (heap q) \<and> heap q' ! i = s"
  proof cases
    case 3
    then have "i < length (heap q) \<and> heap q ! i = s"
      using hwf_slot [OF assms(1), of s e v i] s ar(4) by simp
    then show ?thesis
      using 3 h(3) by metis
  qed (use s ar h assms(2,3) in auto)
  then show "i < length (heap q)" "heap q' ! i = s"
    by blast+
qed

lemma swap_heap_ok:
  assumes "hwf X q" "p < length (heap q)" "c < length (heap q)" "p \<noteq> c"
  shows "\<exists>q'. swap_heap q p c = Some q' \<and> hwf X q' \<and> calm q q' \<and>
    heap q' = (heap q)[p := heap q ! c, c := heap q ! p] \<and>
    (\<forall>i < length (heap q). key_at q' i = ((key_at q)(p := key_at q c, c := key_at q p)) i)"
proof -
  obtain ep vp where P: "heap q ! p < length (arena q)" "heap q ! p \<notin> X"
    "st q (heap q ! p) = Occupied ep vp p"
    using hwf_heap [OF assms(1,2)] by blast
  obtain ec vc where C: "heap q ! c < length (arena q)" "heap q ! c \<notin> X"
    "st q (heap q ! c) = Occupied ec vc c"
    using hwf_heap [OF assms(1,3)] by blast
  have ne: "heap q ! p \<noteq> heap q ! c"
    using hwf_distinct [OF assms(1)] assms(2-4) by (simp add: nth_eq_iff_index_eq)
  define ar where "ar = (arena q)[heap q ! c := (arena q ! (heap q ! c))\<lparr>sl_state := Occupied ec vc p\<rparr>,
     heap q ! p := (arena q ! (heap q ! p))\<lparr>sl_state := Occupied ep vp c\<rparr>]"
  define q' where "q' = q\<lparr>heap := (heap q)[p := heap q ! c, c := heap q ! p], arena := ar\<rparr>"
  have run: "swap_heap q p c = Some q'"
    using assms P C ne
    by (simp add: swap_heap_def Let_def set_heap_index_def set_slot_state_def q'_def ar_def at_def)
  have ar: "length ar = length (arena q)" "sl_state (ar ! (heap q ! p)) = Occupied ep vp c"
    "sl_state (ar ! (heap q ! c)) = Occupied ec vc p"
    "\<And>s. s \<noteq> heap q ! p \<Longrightarrow> s \<noteq> heap q ! c \<Longrightarrow> ar ! s = arena q ! s"
    using P C ne by (auto simp: ar_def nth_list_update)
  have "map blur ar = map blur (arena q)"
    using P C ne unfolding ar_def by (subst map_blur_update; simp add: map_blur_update blur_set_index)
  then have "calm q q'"
    by (simp add: calm_def q'_def)
  moreover have h: "heap q' ! p = heap q ! c" "heap q' ! c = heap q ! p"
    "\<And>i. i \<noteq> p \<Longrightarrow> i \<noteq> c \<Longrightarrow> heap q' ! i = heap q ! i" "length (heap q') = length (heap q)"
    "arena q' = ar"
    using assms(2-4) by (simp_all add: q'_def)
  have "hwf X q'"
    by (rule hwf_swap [OF assms h(1-4)]) (simp_all add: h(5) ar)
  moreover have "key_at q' i = ((key_at q)(p := key_at q c, c := key_at q p)) i" if "i < length (heap q)" for i
    using other_position [OF assms(1-3) that]
    by (cases "i = p"; cases "i = c") (simp_all add: key_at_def h ar P C assms(4))
  ultimately show ?thesis
    using run by (intro exI [of _ q']) (simp add: q'_def)
qed

section \<open>The sift loops\<close>

lemma par_le: "i < n \<Longrightarrow> par i < n"
  by (simp add: par_def)

lemma up_ord_cong: "up_ord n k' c \<Longrightarrow> \<forall>i < n. k i = k' i \<Longrightarrow> c < n \<Longrightarrow> up_ord n k c"
  by (simp add: up_ord_def par_le)

lemma down_ord_cong: "down_ord n k' p \<Longrightarrow> \<forall>i < n. k i = k' i \<Longrightarrow> p < n \<Longrightarrow> down_ord n k p"
  by (simp add: down_ord_def par_le)

text \<open>What both loops achieve.\<close>

definition sifted :: "nat set \<Rightarrow> 'a timer_queue \<Rightarrow> 'a timer_queue \<Rightarrow> bool" where
  "sifted X q q' \<longleftrightarrow> hwf X q' \<and> calm q q' \<and> mset (heap q') = mset (heap q) \<and>
     ordered (length (heap q')) (key_at q')"

lemma mset_swap2:
  "p < length xs \<Longrightarrow> c < length xs \<Longrightarrow> mset (xs[p := xs ! c, c := xs ! p]) = mset xs"
  by (rule mset_swap)

lemma sift_up_ok:
  "hwf X q \<Longrightarrow> c < length (heap q) \<Longrightarrow> up_ord (length (heap q)) (key_at q) c \<Longrightarrow>
     \<exists>q'. sift_up q c = Some q' \<and> sifted X q q'"
proof (induction q c rule: sift_up.induct)
  case (1 q c)
  let ?n = "length (heap q)"
  show ?case
  proof (cases "c = 0 \<or> key_at q (par c) \<le> key_at q c")
    case True
    then have "ordered ?n (key_at q)" "sift_up q c = Some q"
      using 1(2-4) up_ord_done hwf_key [OF 1(2)]
      by (auto simp: sift_up.simps [of q c] Let_def par_def)
    then show ?thesis
      using 1(2) by (simp add: sifted_def)
  next
    case False
    let ?p = "par c"
    have p: "?p < ?n" "?p \<noteq> c"
      using False 1(3) par_less [of c] by auto
    obtain q1 where q1: "swap_heap q ?p c = Some q1" "hwf X q1" "calm q q1"
      "heap q1 = (heap q)[?p := heap q ! c, c := heap q ! ?p]"
      "\<forall>i < ?n. key_at q1 i = ((key_at q)(?p := key_at q c, c := key_at q ?p)) i"
      using swap_heap_ok [OF 1(2) p(1) 1(3) p(2)] by blast
    have n1: "length (heap q1) = ?n" "mset (heap q1) = mset (heap q)"
      using q1(4) mset_swap2 [OF p(1) 1(3)] by simp_all
    have "up_ord ?n ((key_at q)(?p := key_at q c, c := key_at q ?p)) ?p"
      using up_ord_swap [OF 1(4)] False 1(3) by auto
    then have "up_ord (length (heap q1)) (key_at q1) ?p"
      unfolding n1(1) using q1(5) p(1) by (rule up_ord_cong)
    moreover have k: "heap_key q ((c - 1) div 2) = Some (key_at q ?p)" "heap_key q c = Some (key_at q c)"
      "\<not> key_at q ?p \<le> key_at q c" "c \<noteq> 0"
      using hwf_key [OF 1(2) p(1)] hwf_key [OF 1(2) 1(3)] False by (simp_all add: par_def)
    moreover have step: "sift_up q c = sift_up q1 ?p"
      using q1(1) k by (simp add: sift_up.simps [of q c] Let_def par_def)
    ultimately obtain q2 where q2: "sift_up q1 ?p = Some q2" "sifted X q1 q2"
      using 1(1) [OF k(4) refl k(1-3) q1(1) [unfolded par_def] q1(2)] p(1) n1(1)
      by (auto simp: par_def)
    then show ?thesis
      using q1(3) n1 step by (auto simp: sifted_def intro: calm_trans)
  qed
qed

lemma earlier_child_ok:
  assumes "hwf X q" "p * 2 + 1 < length (heap q)"
  shows "\<exists>c. earlier_child q (p * 2 + 1) = Some c \<and> 0 < c \<and> c < length (heap q) \<and> par c = p \<and>
    (\<forall>j. 0 < j \<longrightarrow> j < length (heap q) \<longrightarrow> par j = p \<longrightarrow> key_at q c \<le> key_at q j)"
proof (cases "p * 2 + 2 < length (heap q)")
  case True
  then show ?thesis
    using assms hwf_key [OF assms(1), of "p * 2 + 1"] hwf_key [OF assms(1), of "p * 2 + 2"]
    by (auto simp: earlier_child_def par_iff mult.commute)
next
  case False
  then have "j = p * 2 + 1" if "0 < j" "j < length (heap q)" "par j = p" for j
    using that by (auto simp: par_iff)
  then show ?thesis
    using assms False hwf_key [OF assms(1), of "p * 2 + 1"]
    by (auto simp: earlier_child_def par_iff mult.commute)
qed

lemma sift_down_ok:
  "hwf X q \<Longrightarrow> p < length (heap q) \<Longrightarrow> down_ord (length (heap q)) (key_at q) p \<Longrightarrow>
     \<exists>q'. sift_down q p = Some q' \<and> sifted X q q'"
proof (induction q p rule: sift_down.induct)
  case (1 q p)
  let ?n = "length (heap q)"
  show ?case
  proof (cases "?n \<le> p * 2 + 1")
    case True
    then have "ordered ?n (key_at q)"
      by (intro down_ord_done [OF 1(4)]) (auto simp: par_iff)
    then show ?thesis
      using True 1(2) by (simp add: sift_down.simps [of q p] sifted_def)
  next
    case False
    then obtain c where c: "earlier_child q (p * 2 + 1) = Some c" "0 < c" "c < ?n" "par c = p"
      "\<forall>j. 0 < j \<longrightarrow> j < ?n \<longrightarrow> par j = p \<longrightarrow> key_at q c \<le> key_at q j"
      using earlier_child_ok [OF 1(2), of p] by auto
    note k = hwf_key [OF 1(2) 1(3)] hwf_key [OF 1(2) c(3)]
    show ?thesis
    proof (cases "key_at q p \<le> key_at q c")
      case True
      then have "ordered ?n (key_at q)"
        using c(5) by (intro down_ord_done [OF 1(4)]) (auto intro: order_trans)
      then show ?thesis
        using True False c(1) k 1(2) by (simp add: sift_down.simps [of q p] sifted_def)
    next
      case less: False
      have pc: "p \<noteq> c"
        using less by auto
      obtain q1 where q1: "swap_heap q p c = Some q1" "hwf X q1" "calm q q1"
        "heap q1 = (heap q)[p := heap q ! c, c := heap q ! p]"
        "\<forall>i < ?n. key_at q1 i = ((key_at q)(p := key_at q c, c := key_at q p)) i"
        using swap_heap_ok [OF 1(2,3) c(3) pc] by blast
      have n1: "length (heap q1) = ?n" "mset (heap q1) = mset (heap q)"
        using q1(4) mset_swap2 [OF 1(3) c(3)] by simp_all
      have "down_ord ?n ((key_at q)(p := key_at q c, c := key_at q p)) c"
        using less c by (intro down_ord_swap [OF 1(4)]) auto
      then have "down_ord (length (heap q1)) (key_at q1) c"
        unfolding n1(1) using q1(5) c(3) by (rule down_ord_cong)
      moreover have "sift_down q p = sift_down q1 c"
        using False less q1(1) c(1) k by (simp add: sift_down.simps [of q p])
      ultimately show ?thesis
        using 1(1) [OF False c(1) k less q1(1,2)] c(3) n1 q1(3)
        by (auto simp: sifted_def intro: calm_trans)
    qed
  qed
qed

section \<open>Detaching\<close>

lemma swap_remove_ok:
  assumes "i < length xs" "distinct xs"
  shows "\<exists>h. swap_remove xs i = Some (xs ! i, h) \<and> length h = length xs - 1 \<and>
    (\<forall>j < length h. h ! j = (if j = i then last xs else xs ! j)) \<and>
    set h = set xs - {xs ! i}"
proof -
  let ?h = "butlast (xs[i := last xs])"
  have ne: "xs \<noteq> []"
    using assms by auto
  have nth: "?h ! j = (if j = i then last xs else xs ! j)" if "j < length xs - 1" for j
    using that assms by (simp add: nth_butlast nth_list_update)
  have "set ?h \<subseteq> set xs - {xs ! i}"
  proof
    fix x
    assume "x \<in> set ?h"
    then obtain j where j: "j < length xs - 1" "x = ?h ! j"
      by (auto simp: in_set_conv_nth)
    then have "x = (if j = i then xs ! (length xs - 1) else xs ! j)"
      using nth [of j] ne by (simp add: last_conv_nth)
    then show "x \<in> set xs - {xs ! i}"
      using j(1) assms by (auto simp: nth_eq_iff_index_eq)
  qed
  moreover have "set xs - {xs ! i} \<subseteq> set ?h"
  proof
    fix x
    assume "x \<in> set xs - {xs ! i}"
    then obtain k where k: "k < length xs" "x = xs ! k" "k \<noteq> i"
      by (auto simp: in_set_conv_nth)
    have len: "length ?h = length xs - 1"
      by simp
    show "x \<in> set ?h"
    proof (cases "k < length xs - 1")
      case True
      then show ?thesis
        using nth [OF True] k len by (metis nth_mem)
    next
      case False
      then have "i < length xs - 1" "x = last xs"
        using k ne assms(1) by (auto simp: last_conv_nth) (metis One_nat_def Suc_pred length_greater_0_conv less_antisym)
      then show ?thesis
        using nth [of i] len by (metis nth_mem)
    qed
  qed
  ultimately have "set ?h = set xs - {xs ! i}"
    by (rule equalityI)
  then show ?thesis
    using assms(1) nth by (auto simp: swap_remove_def)
qed

lemma hwf_detach_last:
  assumes "hwf X q" "i < length (heap q)" "n = length (heap q) - 1"
    and h: "length h = n" "\<And>j. j < n \<Longrightarrow> j \<noteq> i \<Longrightarrow> h ! j = heap q ! j" "i < n \<Longrightarrow> h ! i = heap q ! n"
    and q': "heap q' = h" "length (arena q') = length (arena q)"
      "\<And>s. s \<noteq> heap q ! n \<Longrightarrow> arena q' ! s = arena q ! s"
      "i < n \<Longrightarrow> \<exists>e v. st q' (heap q ! n) = Occupied e v i"
  shows "hwf (insert (heap q ! i) X) q'"
  unfolding hwf_def q'(1,2) h(1)
proof (intro conjI allI impI)
  have d: "heap q ! j = heap q ! k \<longleftrightarrow> j = k" if "j \<le> n" "k \<le> n" for j k
    using hwf_distinct [OF assms(1)] that assms(2,3) by (simp add: nth_eq_iff_index_eq)
  {
    fix j
    assume j: "j < n"
    have n: "n < length (heap q)" "j < length (heap q)"
      using assms(2,3) j by auto
    have "h ! j < length (arena q) \<and> h ! j \<notin> insert (heap q ! i) X \<and> (\<exists>e v. st q' (h ! j) = Occupied e v j)"
    proof (cases "j = i")
      case True
      then show ?thesis
        using hwf_at [OF assms(1) n(1)] h(3) q'(4) j d [of n i] by simp
    next
      case False
      then show ?thesis
        using hwf_at [OF assms(1) n(2)] h(2) [OF j] q'(3) [of "heap q ! j"] j d [of j i] d [of j n] assms(2,3) by simp
    qed
    then show "h ! j < length (arena q)" "h ! j \<notin> insert (heap q ! i) X"
      "\<exists>e v. st q' (h ! j) = Occupied e v j"
      by blast+
  }
  fix s e v k
  assume s: "s < length (arena q)" "s \<notin> insert (heap q ! i) X" "st q' s = Occupied e v k"
  have "k < n \<and> h ! k = s"
  proof (cases "s = heap q ! n")
    case True
    then have "i \<noteq> n"
      using s(2) by auto
    then show ?thesis
      using True s(3) q'(4) h(3) assms(2,3) by auto
  next
    case False
    then have "k < length (heap q) \<and> heap q ! k = s"
      using hwf_slot [OF assms(1) s(1), of e v k] s q'(3) by simp
    moreover from this have "k \<noteq> n" "k \<noteq> i"
      using False s(2) by auto
    ultimately show ?thesis
      using h(2) [of k] assms(3) by auto
  qed
  then show "k < n" "h ! k = s"
    by blast+
qed

text \<open>The order around a replaced position: what decides between the two loops.\<close>

lemma replaced_up_ord:
  assumes "ordered (Suc n) k" "i < n" "0 < i" "k n < k (par i)"
  shows "up_ord n (k(i := k n)) i"
  unfolding up_ord_def
proof (intro conjI allI impI)
  have o: "k (par j) \<le> k j" if "0 < j" "j < n" for j
    using assms(1) that by (simp add: ordered_def)
  {
    fix j
    assume j: "0 < j" "j < n" "j \<noteq> i"
    have "k n \<le> k j" if "par j = i"
      using assms(3,4) o [of i] o [OF j(1,2)] assms(2) that by simp
    then show "(k(i := k n)) (par j) \<le> (k(i := k n)) j"
      using o [OF j(1,2)] j(3) by simp
  }
  fix j
  assume j: "0 < j" "j < n" "par j = i"
  have "j \<noteq> i" "par i \<noteq> i"
    using j par_less [of j] par_less [of i] assms(3) by auto
  then show "(k(i := k n)) (par i) \<le> (k(i := k n)) j"
    using o [of i] o [OF j(1,2)] assms(2,3) j(3) by simp
qed

lemma replaced_down_ord:
  assumes "ordered (Suc n) k" "i < n" "i = 0 \<or> k (par i) \<le> k n"
  shows "down_ord n (k(i := k n)) i"
  unfolding down_ord_def
proof (intro conjI allI impI)
  have o: "k (par j) \<le> k j" if "0 < j" "j < n" for j
    using assms(1) that by (simp add: ordered_def)
  {
    fix j
    assume j: "0 < j" "j < n" "par j \<noteq> i"
    then show "(k(i := k n)) (par j) \<le> (k(i := k n)) j"
      using o [OF j(1,2)] assms(3) by auto
  }
  fix j
  assume j: "0 < j" "j < n" "par j = i" "0 < i"
  have "j \<noteq> i" "par i \<noteq> i"
    using j par_less [of j] par_less [of i] by auto
  then show "(k(i := k n)) (par i) \<le> (k(i := k n)) j"
    using o [of i] o [OF j(1,2)] assms(2) j(3,4) by simp
qed

definition detached :: "nat set \<Rightarrow> 'a timer_queue \<Rightarrow> nat \<Rightarrow> 'a timer_queue \<Rightarrow> bool" where
  "detached X q s q' \<longleftrightarrow> hwf (insert s X) q' \<and> calm q q' \<and> set (heap q') = set (heap q) - {s} \<and>
     length (heap q') = length (heap q) - 1 \<and> ordered (length (heap q')) (key_at q')"

lemma detach_last_ok:
  assumes "hwf X q" "ordered (length (heap q)) (key_at q)" "i < length (heap q)"
    and "swap_remove (heap q) i = Some (heap q ! i, h)" "\<not> i < length h"
    and h: "length h = length (heap q) - 1" "\<forall>j < length h. h ! j = (if j = i then last (heap q) else heap q ! j)"
      "set h = set (heap q) - {heap q ! i}"
  shows "detach_heap_index q i = Some (heap q ! i, q\<lparr>heap := h\<rparr>) \<and> detached X q (heap q ! i) (q\<lparr>heap := h\<rparr>)"
proof -
  have n: "h ! j = heap q ! j" if "j < length (heap q) - 1" for j
    using that h(1,2) assms(5) by auto
  have "hwf (insert (heap q ! i) X) (q\<lparr>heap := h\<rparr>)"
    by (rule hwf_detach_last [OF assms(1,3) refl]) (use n h(1) assms(5) in auto)
  moreover have "ordered (length h) (key_at (q\<lparr>heap := h\<rparr>))"
    using assms(2) n h(1) par_le by (auto simp: ordered_def key_at_def)
  ultimately show ?thesis
    using assms(4,5) h(1,3) by (simp add: detach_heap_index_def detached_def calm_def)
qed

text \<open>Moving the last entry into position \<open>i\<close>, before sifting.\<close>

lemma detach_moved:
  assumes "hwf X q" "i < length (heap q) - 1" "swap_remove (heap q) i = Some (heap q ! i, h)"
    and h: "length h = length (heap q) - 1" "\<forall>j < length h. h ! j = (if j = i then last (heap q) else heap q ! j)"
  shows "\<exists>q2. set_heap_index (q\<lparr>heap := h\<rparr>) (h ! i) i = Some q2 \<and> hwf (insert (heap q ! i) X) q2 \<and>
    calm q q2 \<and> heap q2 = h \<and> expires_at q2 (h ! i) = Some (key_at q2 i) \<and>
    (\<forall>j < length h. key_at q2 j = ((key_at q)(i := key_at q (length (heap q) - 1))) j)"
proof -
  define n where "n = length (heap q) - 1"
  have n: "n < length (heap q)" "i < n" "length h = n" "heap q \<noteq> []"
    using assms(2) h(1) by (auto simp: n_def)
  have hi: "h ! i = heap q ! n" "\<And>j. j < n \<Longrightarrow> j \<noteq> i \<Longrightarrow> h ! j = heap q ! j"
    using h(2) n by (auto simp: last_conv_nth n_def)
  obtain e v where l: "heap q ! n < length (arena q)" "st q (heap q ! n) = Occupied e v n"
    using hwf_at [OF assms(1) n(1)] by blast
  define q2 where "q2 = q\<lparr>heap := h, arena := (arena q)[heap q ! n := (arena q ! (heap q ! n))\<lparr>sl_state := Occupied e v i\<rparr>]\<rparr>"
  have q2: "heap q2 = h" "length (arena q2) = length (arena q)"
    "\<And>s. s \<noteq> heap q ! n \<Longrightarrow> arena q2 ! s = arena q ! s" "st q2 (heap q ! n) = Occupied e v i"
    using l by (simp_all add: q2_def)
  have "hwf (insert (heap q ! i) X) q2"
    by (rule hwf_detach_last [OF assms(1) _ n_def]) (use n hi q2 in auto)
  moreover have "calm q q2"
    using l by (simp add: calm_def q2_def map_blur_update blur_set_index)
  moreover have "key_at q2 j = ((key_at q)(i := key_at q n)) j" if "j < n" for j
  proof (cases "j = i")
    case True
    then show ?thesis
      using q2(4) l(2) by (simp add: key_at_def q2(1) hi(1))
  next
    case False
    moreover have "heap q ! j \<noteq> heap q ! n"
      using that n hwf_distinct [OF assms(1)] by (simp add: nth_eq_iff_index_eq)
    ultimately show ?thesis
      using q2(3) hi(2) [OF that] by (simp add: key_at_def q2(1))
  qed
  moreover have "expires_at q2 (h ! i) = Some (key_at q2 i)"
    using q2 l(1) hi(1) by (simp add: expires_at_def key_at_def at_def)
  moreover have "set_heap_index (q\<lparr>heap := h\<rparr>) (h ! i) i = Some q2"
    using l by (simp add: set_heap_index_Some hi(1) q2_def)
  ultimately show ?thesis
    using n(3) q2(1) by (intro exI [of _ q2]) (simp add: n_def)
qed

lemma replaced_sift:
  assumes "hwf X q" "i < length (heap q)" "ordered (Suc (length (heap q))) k"
    and keys: "\<forall>j < length (heap q). key_at q j = (k(i := k (length (heap q)))) j"
  shows "\<exists>q'. (if 0 < i \<and> key_at q i < key_at q (par i) then sift_up q i else sift_down q i) = Some q' \<and>
    sifted X q q'"
proof -
  let ?n = "length (heap q)" and ?up = "0 < i \<and> key_at q i < key_at q (par i)"
  have k: "key_at q i = k ?n" "0 < i \<Longrightarrow> key_at q (par i) = k (par i)"
    using keys assms(2) par_le [OF assms(2)] par_less [of i] by auto
  show ?thesis
  proof (cases ?up)
    case True
    then have "up_ord ?n (key_at q) i"
      using up_ord_cong [OF replaced_up_ord [OF assms(3,2)] keys assms(2)] k by simp
    then show ?thesis
      using sift_up_ok [OF assms(1,2)] True by simp
  next
    case False
    then have "i = 0 \<or> k (par i) \<le> k ?n"
      using k by (cases "i = 0") auto
    then have "down_ord ?n (key_at q) i"
      using down_ord_cong [OF replaced_down_ord [OF assms(3,2)] keys assms(2)] by simp
    then show ?thesis
      unfolding if_not_P [OF False] using sift_down_ok [OF assms(1,2)] by simp
  qed
qed

lemma detach_ok:
  assumes "hwf X q" "ordered (length (heap q)) (key_at q)" "i < length (heap q)"
  shows "\<exists>q'. detach_heap_index q i = Some (heap q ! i, q') \<and> detached X q (heap q ! i) q'"
proof -
  obtain h where h: "swap_remove (heap q) i = Some (heap q ! i, h)" "length h = length (heap q) - 1"
    "\<forall>j < length h. h ! j = (if j = i then last (heap q) else heap q ! j)"
    "set h = set (heap q) - {heap q ! i}"
    using swap_remove_ok [OF assms(3) hwf_distinct [OF assms(1)]] by blast
  show ?thesis
  proof (cases "i < length h")
    case False
    then show ?thesis
      using detach_last_ok [OF assms h(1) False h(2-4)] by blast
  next
    case True
    let ?n = "length h" and ?X = "insert (heap q ! i) X"
    obtain q2 where q2: "set_heap_index (q\<lparr>heap := h\<rparr>) (h ! i) i = Some q2" "hwf ?X q2" "calm q q2"
      "heap q2 = h" "expires_at q2 (h ! i) = Some (key_at q2 i)"
      "\<forall>j < ?n. key_at q2 j = ((key_at q)(i := key_at q ?n)) j"
      using detach_moved [OF assms(1) _ h(1-3)] True h(2) by auto
    have "Suc ?n = length (heap q)"
      using assms(3) h(2) by simp
    then have o: "ordered (Suc ?n) (key_at q)"
      using assms(2) by simp
    have par: "heap_key q2 (par i) = Some (key_at q2 (par i))"
      using True par_le hwf_key [OF q2(2)] q2(4) by auto
    let ?up = "0 < i \<and> key_at q2 i < key_at q2 (par i)"
    have "\<exists>q'. (if ?up then sift_up q2 i else sift_down q2 i) = Some q' \<and> sifted ?X q2 q'"
      using replaced_sift [OF q2(2)] True o q2(4,6) by simp
    then obtain q' where q': "(if ?up then sift_up q2 i else sift_down q2 i) = Some q'" "sifted ?X q2 q'"
      by blast
    have "detach_heap_index q i = Some (heap q ! i, q')"
      using h(1) True q2(1,5) par q'(1)
      by (auto simp: detach_heap_index_def Let_def par_def split: if_splits)
    moreover have "set (heap q') = set h" "length (heap q') = ?n"
      using q'(2) q2(4) by (auto simp: sifted_def dest: mset_eq_setD mset_eq_length)
    ultimately show ?thesis
      using q'(2) q2(3) h(2,4) by (auto simp: detached_def sifted_def intro: calm_trans)
  qed
qed

end
