(* ===== verification/Timer_Queue_Props.thy ===== *)
theory Timer_Queue_Props
  imports Timer_Queue_Heap
begin

text \<open>
  The timer queue as a map from live tokens to deadlines and values: the whole invariant, that
  no operation panics, what each operation does to the map, and that dead tokens stay dead.
\<close>

section \<open>Tokens\<close>

lemma masks:
  "OWNER_MASK = mask 8" "SLOT_MASK = mask 28" "GENERATION_MASK = mask 27"
  by (simp_all add: OWNER_MASK_def SLOT_MASK_def GENERATION_MASK_def OWNER_BITS_def SLOT_BITS_def
      GENERATION_BITS_def mask_eq_decr_exp push_bit_eq_mult)

lemma mask_values:
  "unat OWNER_MASK = 255" "unat SLOT_MASK = 2 ^ 28 - 1" "GENERATION_MAX = mask 27"
  "unat GENERATION_MAX = 2 ^ 27 - 1"
  by (simp_all add: OWNER_MASK_def SLOT_MASK_def GENERATION_MAX_def GENERATION_MASK_def
      OWNER_BITS_def SLOT_BITS_def GENERATION_BITS_def mask_eq_decr_exp)

text \<open>The parts of a token, as words.\<close>

lemma token_parts:
  fixes o' w :: u64 and g :: u32
  assumes "unat o' < 2 ^ 8" "unat w < 2 ^ 28" "unat g < 2 ^ 28"
  defines "r \<equiv> push_bit 36 (ucast g) OR push_bit 8 w OR o'"
  shows "r AND mask 8 = o'" "drop_bit 8 r AND mask 28 = w" "(ucast (drop_bit 36 r) :: u32) = g"
proof -
  have b: "bit o' m \<Longrightarrow> m < 8" "bit w m \<Longrightarrow> m < 28" "bit g m \<Longrightarrow> m < 28" for m
    using small_word_bits assms(1-3) by blast+
  show "r AND mask 8 = o'"
    unfolding r_def by (rule bit_word_eqI) (auto simp: bit_simps dest: b)
  show "drop_bit 8 r AND mask 28 = w"
    unfolding r_def by (rule bit_word_eqI) (auto simp: bit_simps dest: b)
  show "(ucast (drop_bit 36 r) :: u32) = g"
    unfolding r_def by (rule bit_word_eqI) (auto simp: bit_simps dest: b)
qed

lemma token_new_parts:
  assumes "own \<le> 255" "s < 2 ^ 28 - 1" "g \<le> GENERATION_MAX"
  shows "token_owner_slot (token_new own s g) = own" "token_slot (token_new own s g) = Some s"
    "token_generation (token_new own s g) = g"
proof -
  have w: "unat (of_nat s + 1 :: u64) = s + 1"
    using assms(2) by (simp add: unat_word_ariths unat_of_nat)
  have "unat g \<le> 2 ^ 27 - 1"
    using assms(3) mask_values(4) by (simp add: word_le_nat_alt)
  then have p: "unat (of_nat own :: u64) < 2 ^ 8" "unat (of_nat s + 1 :: u64) < 2 ^ 28" "unat g < 2 ^ 28"
    using assms(1,2) w by (auto simp: unat_of_nat)
  note r = token_parts [OF p]
  show "token_owner_slot (token_new own s g) = own"
    using r(1) assms(1)
    by (simp add: token_owner_slot_def token_new_def masks OWNER_BITS_def SLOT_BITS_def unat_of_nat)
  show "token_slot (token_new own s g) = Some s"
    using r(2) w by (simp add: token_slot_def token_new_def masks OWNER_BITS_def SLOT_BITS_def)
  show "token_generation (token_new own s g) = g"
    using r(3) by (simp add: token_generation_def token_new_def OWNER_BITS_def SLOT_BITS_def)
qed

text \<open>A token is determined by its parts.\<close>

lemma token_of_parts:
  assumes "token_slot t = Some s"
  shows "t = token_new (token_owner_slot t) s (token_generation t)"
proof (cases t)
  case (TimerToken r)
  have s: "unat (drop_bit 8 r AND mask 28) = s + 1"
    using assms by (simp add: TimerToken token_slot_def masks OWNER_BITS_def)
  then have "of_nat s + 1 = (of_nat (unat (drop_bit 8 r AND mask 28)) :: u64)"
    by simp
  then have "of_nat s + 1 = drop_bit 8 r AND mask 28"
    unfolding of_nat_unat ucast_id .
  moreover have "push_bit 36 (ucast (ucast (drop_bit 36 r) :: u32)) OR
      push_bit 8 (drop_bit 8 r AND mask 28) OR (r AND mask 8) = r" (is "?l = r")
  proof (rule bit_word_eqI)
    fix n
    assume "n < LENGTH(64)"
    then show "bit ?l n \<longleftrightarrow> bit r n"
      by (cases "36 \<le> n") (auto simp: bit_simps)
  qed
  ultimately show ?thesis
    by (simp add: TimerToken token_new_def token_owner_slot_def token_generation_def masks
        OWNER_BITS_def SLOT_BITS_def)
qed

section \<open>The invariant\<close>

fun chain :: "'a slot list \<Rightarrow> nat option \<Rightarrow> nat list \<Rightarrow> bool" where
  "chain ar h [] \<longleftrightarrow> h = None"
| "chain ar h (i # fs) \<longleftrightarrow>
     h = Some i \<and> i < length ar \<and> (\<exists>n. sl_state (ar ! i) = Vacant n \<and> chain ar n fs)"

definition vacant :: "'a slot \<Rightarrow> bool" where
  "vacant s \<longleftrightarrow> (case sl_state s of Vacant _ \<Rightarrow> True | _ \<Rightarrow> False)"

text \<open>What a slot holds for its users: a deadline (none when parked) and a value.\<close>

definition view :: "'a slot \<Rightarrow> (u64 option \<times> 'a) option" where
  "view s = (case sl_state s of
      Occupied e v _ \<Rightarrow> Some (Some e, v) | Parked v \<Rightarrow> Some (None, v) | _ \<Rightarrow> None)"

abbreviation active :: "'a slot \<Rightarrow> bool" where
  "active s \<equiv> view s \<noteq> None"

definition free_list :: "'a timer_queue \<Rightarrow> bool" where
  "free_list q \<longleftrightarrow> (\<exists>fs. chain (arena q) (free_head q) fs \<and> distinct fs \<and>
     (\<forall>s < length (arena q). vacant (arena q ! s) \<longleftrightarrow> s \<in> set fs))"

definition skel :: "'a timer_queue \<Rightarrow> bool" where
  "skel q \<longleftrightarrow>
     free_list q \<and> live q = length (filter active (arena q)) \<and>
     (\<forall>s < length (arena q). sl_gen (arena q ! s) \<noteq> 0 \<and> sl_gen (arena q ! s) \<le> GENERATION_MAX) \<and>
     length (arena q) \<le> 2 ^ 28 - 1 \<and> (\<forall>own. owner_slot q = Some own \<longrightarrow> own \<le> 255)"

definition heaped :: "'a timer_queue \<Rightarrow> bool" where
  "heaped q \<longleftrightarrow> hwf {} q \<and> ordered (length (heap q)) (key_at q)"

definition tq_inv :: "'a timer_queue \<Rightarrow> bool" where
  "tq_inv q \<longleftrightarrow> heaped q \<and> skel q"

lemma chain_cong:
  "chain ar h fs \<Longrightarrow> (\<And>i. i \<in> set fs \<Longrightarrow> i < length ar' \<and> sl_state (ar' ! i) = sl_state (ar ! i)) \<Longrightarrow>
     chain ar' h fs"
  by (induction fs arbitrary: h) auto

lemma chain_update: "s \<notin> set fs \<Longrightarrow> chain (ar[s := x]) h fs = chain ar h fs"
  by (induction fs arbitrary: h) auto

lemma chain_vacant: "chain ar h fs \<Longrightarrow> i \<in> set fs \<Longrightarrow> i < length ar \<and> vacant (ar ! i)"
  by (induction fs arbitrary: h) (auto simp: vacant_def)

lemma blur_eq:
  assumes "blur x = blur y"
  shows "sl_gen x = sl_gen y" "view x = view y" "vacant x = vacant y"
    "vacant x \<Longrightarrow> sl_state x = sl_state y" "sl_state x = Retired \<longleftrightarrow> sl_state y = Retired"
proof -
  have g: "sl_gen (blur z) = sl_gen z" "view (blur z) = view z" "vacant (blur z) = vacant z"
    "sl_state (blur z) = Retired \<longleftrightarrow> sl_state z = Retired" for z :: "'a slot"
    by (simp_all add: blur_def view_def vacant_def split: slot_state.splits)
  show "sl_gen x = sl_gen y" "view x = view y" "vacant x = vacant y"
    "sl_state x = Retired \<longleftrightarrow> sl_state y = Retired"
    using g assms by metis+
  show "sl_state x = sl_state y" if "vacant x"
    using assms that by (cases "sl_state y") (auto simp: blur_def vacant_def split: slot_state.splits)
qed

lemma calm_arena:
  assumes "calm q q'"
  shows "length (arena q') = length (arena q)"
    "s < length (arena q) \<Longrightarrow> blur (arena q' ! s) = blur (arena q ! s)"
    "filter active (arena q') = [] \<longleftrightarrow> filter active (arena q) = []"
    "length (filter active (arena q')) = length (filter active (arena q))"
proof -
  have m: "map blur (arena q') = map blur (arena q)"
    using assms by (simp add: calm_def)
  show l: "length (arena q') = length (arena q)"
    using m by (metis length_map)
  show "s < length (arena q) \<Longrightarrow> blur (arena q' ! s) = blur (arena q ! s)"
    using m l by (metis nth_map)
  have "view (blur z) = view z" for z :: "'a slot"
    by (simp add: blur_def view_def split: slot_state.splits)
  then have "length (filter active (map blur ar)) = length (filter active ar)" for ar :: "'a slot list"
    by (simp add: filter_map comp_def)
  then show n: "length (filter active (arena q')) = length (filter active (arena q))"
    using m by metis
  show "filter active (arena q') = [] \<longleftrightarrow> filter active (arena q) = []"
    using n by (metis length_0_conv)
qed

lemma calm_skel:
  assumes "calm q q'" "skel q"
  shows "skel q'"
proof -
  note c = calm_arena [OF assms(1)]
  have f: "owner_slot q' = owner_slot q" "free_head q' = free_head q" "live q' = live q"
    using assms(1) by (auto simp: calm_def)
  obtain fs where fs: "chain (arena q) (free_head q) fs" "distinct fs"
    "\<forall>s < length (arena q). vacant (arena q ! s) \<longleftrightarrow> s \<in> set fs"
    using assms(2) by (auto simp: skel_def free_list_def)
  have "chain (arena q') (free_head q') fs"
    unfolding f(2)
  proof (rule chain_cong [OF fs(1)])
    fix i
    assume "i \<in> set fs"
    then have "i < length (arena q)" "vacant (arena q ! i)"
      using chain_vacant [OF fs(1)] by auto
    then show "i < length (arena q') \<and> sl_state (arena q' ! i) = sl_state (arena q ! i)"
      using c(1) c(2) [of i] blur_eq(4) [of "arena q ! i" "arena q' ! i"] by simp
  qed
  then have "free_list q'"
    using fs(2,3) c(1,2) blur_eq(3) unfolding free_list_def by metis
  then show ?thesis
    using assms(2) f c blur_eq(1) unfolding skel_def by metis
qed

section \<open>Changing one slot\<close>

lemma active_not_vacant: "active s \<Longrightarrow> \<not> vacant s"
  by (simp add: view_def vacant_def split: slot_state.splits)

lemma live_pos: "skel q \<Longrightarrow> s < length (arena q) \<Longrightarrow> active (arena q ! s) \<Longrightarrow> 0 < live q"
  by (simp add: skel_def filter_empty_conv) (metis nth_mem option.distinct(1))

lemma free_list_update:
  assumes "free_list q" "s < length (arena q)" "\<not> vacant (arena q ! s)" "\<not> vacant x"
    "arena q' = (arena q)[s := x]" "free_head q' = free_head q"
  shows "free_list q'"
proof -
  obtain fs where fs: "chain (arena q) (free_head q) fs" "distinct fs"
    "\<forall>s < length (arena q). vacant (arena q ! s) \<longleftrightarrow> s \<in> set fs"
    using assms(1) by (auto simp: free_list_def)
  have "s \<notin> set fs"
    using fs(3) assms(2,3) by blast
  then have "chain (arena q') (free_head q') fs"
    using fs(1) by (simp add: assms(5,6) chain_update)
  then show ?thesis
    using fs(2,3) assms(2-5) \<open>s \<notin> set fs\<close> unfolding free_list_def
    by (intro exI [of _ fs]) (auto simp: nth_list_update)
qed

lemma skel_update:
  assumes "skel q" "s < length (arena q)" "active (arena q ! s)" "\<not> vacant x" "sl_gen x = sl_gen (arena q ! s)"
    "arena q' = (arena q)[s := x]" "free_head q' = free_head q" "owner_slot q' = owner_slot q"
    "live q' + 1 = live q + (if active x then 1 else 0)"
  shows "skel q'"
proof -
  have "free_list q'"
    using free_list_update [OF _ assms(2) active_not_vacant [OF assms(3)] assms(4,6,7)] assms(1)
    by (simp add: skel_def)
  moreover have "live q' = length (filter active (arena q'))"
    using length_filter_update [OF assms(2), of active x] assms(1,3,9) unfolding assms(6) by (simp add: skel_def)
  ultimately show ?thesis
    using assms(1,2,5,8) unfolding skel_def assms(6) by (simp add: nth_list_update)
qed

definition recycled :: "'a timer_queue \<Rightarrow> nat \<Rightarrow> 'a timer_queue" where
  "recycled q s =
     (if sl_gen (arena q ! s) = GENERATION_MAX
      then q\<lparr>arena := (arena q)[s := (arena q ! s)\<lparr>sl_state := Retired\<rparr>], live := live q - 1\<rparr>
      else q\<lparr>arena := (arena q)[s := (arena q ! s)\<lparr>sl_gen := sl_gen (arena q ! s) + 1,
                        sl_state := Vacant (free_head q)\<rparr>],
             free_head := Some s, live := live q - 1\<rparr>)"

lemma gen_succ:
  "(g :: u32) \<noteq> GENERATION_MAX \<Longrightarrow> g \<le> GENERATION_MAX \<Longrightarrow>
     unat (g + 1) = unat g + 1 \<and> g + 1 \<noteq> 0 \<and> g + 1 \<le> GENERATION_MAX"
proof -
  assume a: "g \<noteq> GENERATION_MAX" "g \<le> GENERATION_MAX"
  then have "unat g < unat GENERATION_MAX"
    by (metis order_le_imp_less_or_eq word_less_nat_alt)
  moreover from this have "unat (g + 1) = unat g + 1"
    by (intro unat_plus_one) (auto simp: mask_values(4) unsigned_minus_1_eq_mask mask_eq_exp_minus_1)
  ultimately show ?thesis
    by (metis Suc_eq_plus1 Suc_leI nat.distinct(1) unat_0 word_le_nat_alt)
qed

lemma skel_recycled:
  assumes "skel q" "s < length (arena q)" "active (arena q ! s)"
  shows "skel (recycled q s)"
proof (cases "sl_gen (arena q ! s) = GENERATION_MAX")
  case True
  then show ?thesis
    using assms live_pos [OF assms] by (intro skel_update [OF assms]) (auto simp: recycled_def vacant_def view_def)
next
  case False
  let ?x = "(arena q ! s)\<lparr>sl_gen := sl_gen (arena q ! s) + 1, sl_state := Vacant (free_head q)\<rparr>"
  obtain fs where fs: "chain (arena q) (free_head q) fs" "distinct fs"
    "\<forall>s < length (arena q). vacant (arena q ! s) \<longleftrightarrow> s \<in> set fs"
    using assms(1) by (auto simp: skel_def free_list_def)
  have s: "s \<notin> set fs" "\<not> active ?x" "vacant ?x"
    using fs(3) assms(2) active_not_vacant [OF assms(3)] by (blast, simp_all add: view_def vacant_def)
  have "chain ((arena q)[s := ?x]) (free_head q) fs"
    using fs(1) s(1) by (simp add: chain_update)
  then have "free_list (recycled q s)"
    using False fs(2,3) s assms(2) unfolding free_list_def
    by (intro exI [of _ "s # fs"]) (auto simp: recycled_def nth_list_update)
  moreover have "live q - 1 = length (filter active ((arena q)[s := ?x]))"
    using length_filter_update [OF assms(2), of active ?x] s(2) assms(1,3) by (simp add: skel_def)
  moreover have "sl_gen (arena q ! s) + 1 \<noteq> 0 \<and> sl_gen (arena q ! s) + 1 \<le> GENERATION_MAX"
    using gen_succ [OF False] assms(1,2) by (simp add: skel_def)
  then have "\<forall>t < length (arena q). sl_gen ((arena q)[s := ?x] ! t) \<noteq> 0 \<and> sl_gen ((arena q)[s := ?x] ! t) \<le> GENERATION_MAX"
    using assms(1,2) by (simp add: skel_def nth_list_update)
  ultimately show ?thesis
    using assms(1) False unfolding skel_def by (simp add: recycled_def)
qed

lemma heaped_update:
  assumes "hwf {s} q" "ordered (length (heap q)) (key_at q)"
    "arena q' = (arena q)[s := x]" "heap q' = heap q" "\<And>e v i. sl_state x \<noteq> Occupied e v i"
  shows "heaped q'"
proof -
  have ns: "heap q ! i \<noteq> s" if "i < length (heap q)" for i
    using hwf_at [OF assms(1) that] by simp
  have "hwf {} q'"
    unfolding hwf_def assms(3,4)
  proof (intro conjI allI impI)
    fix i
    assume i: "i < length (heap q)"
    then show "heap q ! i < length ((arena q)[s := x])" "heap q ! i \<notin> {}"
      "\<exists>e v. sl_state ((arena q)[s := x] ! (heap q ! i)) = Occupied e v i"
      using hwf_at [OF assms(1) i] ns [OF i] by auto
  next
    fix t e v i
    assume t: "t < length ((arena q)[s := x])" "sl_state ((arena q)[s := x] ! t) = Occupied e v i"
    then have "t \<noteq> s"
      using assms(5) by (auto simp: nth_list_update split: if_splits)
    then show "i < length (heap q)" "heap q ! i = t"
      using hwf_slot [OF assms(1), of t e v i] t by auto
  qed
  moreover have "key_at q' i = key_at q i" if "i < length (heap q)" for i
    using ns [OF that] by (simp add: key_at_def assms(3,4))
  then have "ordered (length (heap q')) (key_at q')"
    using assms(2) par_le by (simp add: ordered_def assms(4))
  ultimately show ?thesis
    by (simp add: heaped_def)
qed

section \<open>The token map\<close>

definition gen_of :: "'a timer_queue \<Rightarrow> nat \<Rightarrow> u32" where
  "gen_of q s = sl_gen (arena q ! s)"

text \<open>What a token names: nothing, or a deadline and a value.\<close>

definition tok_map :: "'a timer_queue \<Rightarrow> timer_token \<Rightarrow> (u64 option \<times> 'a) option" where
  "tok_map q t =
     (if owner_slot q \<noteq> Some (token_owner_slot t) then None
      else case valid_slot q t of Some (Some s) \<Rightarrow> view (arena q ! s) | _ \<Rightarrow> None)"

lemma valid_slot_cases:
  "valid_slot q t = Some (Some s) \<longleftrightarrow>
     token_slot t = Some s \<and> s < length (arena q) \<and> token_generation t \<noteq> 0 \<and> gen_of q s = token_generation t"
  by (auto simp: valid_slot_def at_def gen_of_def split: if_splits option.splits)

lemma valid_slot_total: "token_slot t \<noteq> None \<Longrightarrow> \<exists>r. valid_slot q t = Some r"
  by (auto simp: valid_slot_def)

lemma valid_slot_new:
  assumes "skel q" "owner_slot q = Some own" "s < length (arena q)"
  shows "valid_slot q (token_new own s (gen_of q s)) = Some (Some s)"
    "token_owner_slot (token_new own s (gen_of q s)) = own"
proof -
  have "own \<le> 255" "s < 2 ^ 28 - 1" "gen_of q s \<le> GENERATION_MAX" "gen_of q s \<noteq> 0"
    using assms by (auto simp: skel_def gen_of_def)
  then show "valid_slot q (token_new own s (gen_of q s)) = Some (Some s)"
    "token_owner_slot (token_new own s (gen_of q s)) = own"
    by (simp_all add: valid_slot_cases token_new_parts assms(3))
qed

text \<open>The valid tokens of a queue are the tokens of its slots.\<close>

lemma tok_map_new:
  "skel q \<Longrightarrow> owner_slot q = Some own \<Longrightarrow> s < length (arena q) \<Longrightarrow>
     tok_map q (token_new own s (gen_of q s)) = view (arena q ! s)"
  by (simp add: tok_map_def valid_slot_new)

lemma tok_map_Some:
  assumes "tok_map q t = Some x"
  obtains own s where "owner_slot q = Some own" "s < length (arena q)"
    "t = token_new own s (gen_of q s)" "view (arena q ! s) = Some x" "valid_slot q t = Some (Some s)"
proof -
  from assms obtain s where s: "owner_slot q = Some (token_owner_slot t)" "valid_slot q t = Some (Some s)"
    "view (arena q ! s) = Some x"
    by (auto simp: tok_map_def split: if_splits option.splits)
  then have "s < length (arena q)" "gen_of q s = token_generation t" "token_slot t = Some s"
    by (auto simp: valid_slot_cases)
  then show thesis
    using s that [OF s(1), of s] token_of_parts [of t s] by simp
qed

lemma token_new_inject:
  assumes "skel q" "skel q'" "owner_slot q = Some own" "owner_slot q' = Some own"
    "s < length (arena q)" "s' < length (arena q')"
    "token_new own s (gen_of q s) = token_new own s' (gen_of q' s')"
  shows "s = s' \<and> gen_of q s = gen_of q' s'"
  using valid_slot_new(1) [OF assms(1,3,5)] valid_slot_new(1) [OF assms(2,4,6)] assms(7)
  by (auto simp: valid_slot_cases)

text \<open>How the map changes when one slot changes.\<close>

lemma tok_map_update:
  assumes "skel q" "skel q'" "owner_slot q = Some own" "owner_slot q' = Some own"
    and "s < length (arena q)" "length (arena q') = length (arena q)"
    and other: "\<And>s'. s' < length (arena q) \<Longrightarrow> s' \<noteq> s \<Longrightarrow>
      view (arena q' ! s') = view (arena q ! s') \<and> gen_of q' s' = gen_of q s'"
    and gone: "gen_of q' s \<noteq> gen_of q s \<Longrightarrow> view (arena q' ! s) = None"
  shows "tok_map q' = (tok_map q)(token_new own s (gen_of q s) := view (arena q' ! s))"
proof
  fix t
  let ?t = "token_new own s (gen_of q s)"
  show "tok_map q' t = ((tok_map q)(?t := view (arena q' ! s))) t"
  proof (cases "t = ?t")
    case True
    show ?thesis
    proof (cases "gen_of q' s = gen_of q s")
      case True
      then show ?thesis
        using tok_map_new [OF assms(2,4), of s] assms(5,6) \<open>t = ?t\<close> by simp
    next
      case False
      then have "valid_slot q' ?t \<noteq> Some (Some s')" for s'
        using valid_slot_new(1) [OF assms(1,3,5)] by (auto simp: valid_slot_cases)
      then show ?thesis
        using True gone [OF False] by (auto simp: tok_map_def split: option.splits)
    qed
  next
    case False
    have "tok_map q' t = Some x \<longleftrightarrow> tok_map q t = Some x" for x
    proof
      assume "tok_map q' t = Some x"
      then obtain s' where s': "s' < length (arena q)" "t = token_new own s' (gen_of q' s')"
        "view (arena q' ! s') = Some x"
        using assms(4,6) by (auto elim!: tok_map_Some)
      then have "s' \<noteq> s"
        using False gone by (metis option.distinct(1))
      then show "tok_map q t = Some x"
        using s' other [OF s'(1)] tok_map_new [OF assms(1,3) s'(1)] by simp
    next
      assume "tok_map q t = Some x"
      then obtain s' where s': "s' < length (arena q)" "t = token_new own s' (gen_of q s')"
        "view (arena q ! s') = Some x"
        using assms(3) by (auto elim!: tok_map_Some)
      then have "s' \<noteq> s"
        using False by auto
      then show "tok_map q' t = Some x"
        using s' other [OF s'(1)] tok_map_new [OF assms(2,4), of s'] assms(6) by simp
    qed
    then show ?thesis
      using False by (metis fun_upd_other not_None_eq)
  qed
qed

lemma calm_tok_map:
  assumes "calm q q'"
  shows "tok_map q' = tok_map q"
proof
  fix t
  note c = calm_arena [OF assms]
  have "gen_of q' s = gen_of q s \<and> view (arena q' ! s) = view (arena q ! s)" if "s < length (arena q)" for s
    using blur_eq(1,2) [OF c(2) [OF that]] by (simp add: gen_of_def)
  then have vs: "valid_slot q' t = Some (Some s) \<longleftrightarrow> valid_slot q t = Some (Some s)" for s
    by (auto simp: valid_slot_cases c(1))
  have "(case valid_slot q' t of Some (Some s) \<Rightarrow> view (arena q' ! s) | _ \<Rightarrow> None) =
      (case valid_slot q t of Some (Some s) \<Rightarrow> view (arena q ! s) | _ \<Rightarrow> None)"
  proof (cases "\<exists>s. valid_slot q t = Some (Some s)")
    case True
    then obtain s where s: "valid_slot q t = Some (Some s)"
      by blast
    then have "view (arena q' ! s) = view (arena q ! s)"
      using blur_eq(2) [OF c(2)] by (simp add: valid_slot_cases)
    then show ?thesis
      using s vs [of s] by simp
  next
    case False
    then show ?thesis
      using vs by (auto split: option.splits)
  qed
  then show "tok_map q' t = tok_map q t"
    using assms by (simp add: tok_map_def calm_def)
qed

end
