(* ===== verification/Timer_Queue_Ops.thy ===== *)
theory Timer_Queue_Ops
  imports Timer_Queue_Props
begin

text \<open>
  Each operation of the timer queue against the map from tokens to deadlines and values, the
  queue as a transition system, and the properties of the component.
\<close>

section \<open>Generations only grow\<close>

definition slot_ev :: "'a slot \<Rightarrow> 'a slot \<Rightarrow> bool" where
  "slot_ev s s' \<longleftrightarrow>
     sl_gen s < sl_gen s' \<or>
     sl_gen s = sl_gen s' \<and> (sl_state s = Retired \<longrightarrow> sl_state s' = Retired)"

definition evolves :: "'a timer_queue \<Rightarrow> 'a timer_queue \<Rightarrow> bool" where
  "evolves q q' \<longleftrightarrow>
     length (arena q) \<le> length (arena q') \<and>
     (\<forall>own. owner_slot q = Some own \<longrightarrow> owner_slot q' = Some own) \<and>
     (\<forall>s < length (arena q). slot_ev (arena q ! s) (arena q' ! s))"

lemma slot_ev_refl [simp]: "slot_ev s s"
  by (simp add: slot_ev_def)

lemma slot_ev_trans: "slot_ev a b \<Longrightarrow> slot_ev b c \<Longrightarrow> slot_ev a c"
  by (auto simp: slot_ev_def)

lemma tq_evolves_refl [simp]: "evolves q q"
  by (simp add: evolves_def)

lemma tq_evolves_trans: "evolves a b \<Longrightarrow> evolves b c \<Longrightarrow> evolves a c"
  unfolding evolves_def by (auto intro: slot_ev_trans)

lemma calm_evolves:
  assumes "calm q q'"
  shows "evolves q q'"
proof -
  have "slot_ev (arena q ! s) (arena q' ! s)" if "s < length (arena q)" for s
    using blur_eq(1,5) [OF calm_arena(2) [OF assms that]] by (simp add: slot_ev_def)
  then show ?thesis
    using assms calm_arena(1) [OF assms] by (simp add: evolves_def calm_def)
qed

lemma update_evolves:
  assumes "s < length (arena q)" "arena q' = (arena q)[s := x]" "owner_slot q' = owner_slot q"
    "slot_ev (arena q ! s) x"
  shows "evolves q q'"
  using assms by (auto simp: evolves_def nth_list_update)

definition dead :: "'a timer_queue \<Rightarrow> timer_token \<Rightarrow> bool" where
  "dead q t \<longleftrightarrow>
     (\<exists>s. token_slot t = Some s \<and> s < length (arena q) \<and>
        (token_generation t < gen_of q s \<or>
         token_generation t = gen_of q s \<and> sl_state (arena q ! s) = Retired))"

lemma tq_evolves_dead: "evolves q q' \<Longrightarrow> dead q t \<Longrightarrow> dead q' t"
  unfolding dead_def evolves_def slot_ev_def gen_of_def by force

lemma dead_tok_map: "dead q t \<Longrightarrow> tok_map q t = None"
  by (auto simp: dead_def tok_map_def valid_slot_def at_def gen_of_def view_def split: option.splits)

section \<open>Taking an entry out\<close>

lemma recycled_sel:
  "heap (recycled q s) = heap q" "owner_slot (recycled q s) = owner_slot q"
  "length (arena (recycled q s)) = length (arena q)"
  by (simp_all add: recycled_def)

lemma recycled_arena:
  assumes "skel q" "s < length (arena q)"
  shows "\<exists>x. arena (recycled q s) = (arena q)[s := x] \<and> view x = None \<and>
    (\<forall>e v i. sl_state x \<noteq> Occupied e v i) \<and>
    (sl_gen (arena q ! s) < sl_gen x \<or> sl_gen (arena q ! s) = sl_gen x \<and> sl_state x = Retired)"
proof (cases "sl_gen (arena q ! s) = GENERATION_MAX")
  case True
  then show ?thesis
    by (intro exI [of _ "(arena q ! s)\<lparr>sl_state := Retired\<rparr>"]) (simp add: recycled_def view_def)
next
  case False
  have "sl_gen (arena q ! s) < sl_gen (arena q ! s) + 1"
    using gen_succ [OF False] assms by (simp add: skel_def word_less_nat_alt)
  then show ?thesis
    using False
    by (intro exI [of _ "(arena q ! s)\<lparr>sl_gen := sl_gen (arena q ! s) + 1, sl_state := Vacant (free_head q)\<rparr>"])
       (simp add: recycled_def view_def)
qed

text \<open>Dropping an active slot that is in no heap position.\<close>

lemma recycled_ok:
  assumes "hwf {s} q" "ordered (length (heap q)) (key_at q)" "skel q" "s < length (arena q)"
    "active (arena q ! s)" "owner_slot q = Some own"
  shows "tq_inv (recycled q s)" "evolves q (recycled q s)"
    "tok_map (recycled q s) = (tok_map q)(token_new own s (gen_of q s) := None)"
    "dead (recycled q s) (token_new own s (gen_of q s))"
proof -
  obtain x where x: "arena (recycled q s) = (arena q)[s := x]" "view x = None"
    "\<And>e v i. sl_state x \<noteq> Occupied e v i"
    "sl_gen (arena q ! s) < sl_gen x \<or> sl_gen (arena q ! s) = sl_gen x \<and> sl_state x = Retired"
    using recycled_arena [OF assms(3,4)] by blast
  have sk: "skel (recycled q s)"
    by (rule skel_recycled [OF assms(3-5)])
  show "tq_inv (recycled q s)"
    using heaped_update [OF assms(1,2) x(1) recycled_sel(1) x(3)] sk by (simp add: tq_inv_def)
  show "evolves q (recycled q s)"
    using x(4) by (intro update_evolves [OF assms(4) x(1) recycled_sel(2)]) (auto simp: slot_ev_def)
  have own: "owner_slot (recycled q s) = Some own"
    by (simp add: recycled_sel assms(6))
  have "view (arena (recycled q s) ! s) = None"
    using x(2) assms(4) by (simp add: x(1))
  then show "tok_map (recycled q s) = (tok_map q)(token_new own s (gen_of q s) := None)"
    using tok_map_update [OF assms(3) sk assms(6) own assms(4) recycled_sel(3)]
    by (simp add: x(1) gen_of_def)
  show "dead (recycled q s) (token_new own s (gen_of q s))"
    using valid_slot_new(1) [OF assms(3,6,4)] x(4) assms(4)
    by (auto simp: dead_def valid_slot_cases gen_of_def x(1))
qed

lemma calm_slot:
  assumes "calm q q'" "s < length (arena q)"
  shows "view (arena q' ! s) = view (arena q ! s)" "gen_of q' s = gen_of q s"
  using blur_eq [OF calm_arena(2) [OF assms]] by (simp_all add: gen_of_def)

lemma view_Occupied: "view s = Some (Some e, v) \<longleftrightarrow> (\<exists>i. sl_state s = Occupied e v i)"
  by (simp add: view_def split: slot_state.splits)

lemma view_Parked: "view s = Some (None, v) \<longleftrightarrow> sl_state s = Parked v"
  by (simp add: view_def split: slot_state.splits)

lemma remove_heap_index_ok:
  assumes "tq_inv q" "i < length (heap q)" "owner_slot q = Some own"
    "s = heap q ! i" "view (arena q ! s) = Some (Some e, v)"
  shows "\<exists>q'. remove_heap_index q i = Some (v, q') \<and> tq_inv q' \<and> evolves q q' \<and>
    tok_map q' = (tok_map q)(token_new own s (gen_of q s) := None) \<and>
    dead q' (token_new own s (gen_of q s)) \<and> owner_slot q' = Some own"
proof -
  have inv: "hwf {} q" "ordered (length (heap q)) (key_at q)" "skel q"
    using assms(1) by (auto simp: tq_inv_def heaped_def)
  obtain q1 where q1: "detach_heap_index q i = Some (s, q1)" "detached {} q s q1"
    using detach_ok [OF inv(1,2) assms(2)] unfolding assms(4) by blast
  have s: "s < length (arena q)" "st q s = Occupied e v i"
  proof -
    obtain e' v' where "s < length (arena q)" "st q s = Occupied e' v' i"
      using hwf_at [OF inv(1) assms(2)] unfolding assms(4) by blast
    then show "s < length (arena q)" "st q s = Occupied e v i"
      using assms(5) by (simp_all add: view_def)
  qed
  have d: "hwf {s} q1" "calm q q1" "ordered (length (heap q1)) (key_at q1)"
    using q1(2) unfolding detached_def by blast+
  have own1: "owner_slot q1 = Some own" and s1: "s < length (arena q1)"
    using d(2) s(1) assms(3) calm_arena(1) [OF d(2)] by (auto simp: calm_def)
  note sk1 = calm_skel [OF d(2) inv(3)]
  note eqs = calm_tok_map [OF d(2)] calm_slot(2) [OF d(2) s(1)]
  obtain j where j: "st q1 s = Occupied e v j"
    using trans [OF calm_slot(1) [OF d(2) s(1)] assms(5)] unfolding view_Occupied by blast
  have a1: "active (arena q1 ! s)"
    using j by (simp add: view_def)
  have "0 < live q1"
    by (rule live_pos [OF sk1 s1 a1])
  then have "remove_heap_index q i = Some (v, recycled q1 s)"
    using q1(1) s1 j
    by (simp add: remove_heap_index_def set_slot_state_def recycle_def at_def recycled_def usize_sub_def Let_def)
  moreover note r = recycled_ok [OF d(1,3) sk1 s1 a1 own1, unfolded eqs]
  moreover have "evolves q (recycled q1 s)"
    using calm_evolves [OF d(2)] r(2) by (rule tq_evolves_trans)
  ultimately show ?thesis
    using own1 by (intro exI [of _ "recycled q1 s"]) (simp add: recycled_sel)
qed

section \<open>Putting an entry in, and changing its deadline\<close>

lemma append_up_ord:
  assumes "ordered n k" "\<And>i. i < n \<Longrightarrow> k' i = k i"
  shows "up_ord (Suc n) k' n"
  unfolding up_ord_def
proof (intro conjI allI impI)
  fix i
  assume "0 < i" "i < Suc n" "i \<noteq> n"
  then show "k' (par i) \<le> k' i"
    using assms par_le [of i n] by (simp add: ordered_def)
next
  fix j
  assume "0 < j" "j < Suc n" "par j = n" "0 < n"
  then show "k' (par n) \<le> k' j"
    using par_less [of j] by simp
qed

lemma rekey_up_ord:
  assumes "ordered n k" "i < n" "d < k i"
  shows "up_ord n (k(i := d)) i"
  unfolding up_ord_def
proof (intro conjI allI impI)
  have o: "k (par j) \<le> k j" if "0 < j" "j < n" for j
    using assms(1) that by (simp add: ordered_def)
  {
    fix j
    assume j: "0 < j" "j < n" "j \<noteq> i"
    have "d \<le> k j" if "par j = i"
      using o [OF j(1,2)] assms(3) that by simp
    then show "(k(i := d)) (par j) \<le> (k(i := d)) j"
      using o [OF j(1,2)] j(3) by simp
  }
  fix j
  assume j: "0 < j" "j < n" "par j = i" "0 < i"
  have "j \<noteq> i" "par i \<noteq> i"
    using j par_less [of j] par_less [of i] by auto
  then show "(k(i := d)) (par i) \<le> (k(i := d)) j"
    using o [of i] o [OF j(1,2)] assms(2) j(3,4) by simp
qed

lemma rekey_down_ord:
  assumes "ordered n k" "i < n" "k i \<le> d"
  shows "down_ord n (k(i := d)) i"
  unfolding down_ord_def
proof (intro conjI allI impI)
  have o: "k (par j) \<le> k j" if "0 < j" "j < n" for j
    using assms(1) that by (simp add: ordered_def)
  {
    fix j
    assume j: "0 < j" "j < n" "par j \<noteq> i"
    have "k (par i) \<le> d" if "j = i"
      using o [OF j(1,2)] assms(3) that by simp
    then show "(k(i := d)) (par j) \<le> (k(i := d)) j"
      using o [OF j(1,2)] j(3) by simp
  }
  fix j
  assume j: "0 < j" "j < n" "par j = i" "0 < i"
  have "j \<noteq> i" "par i \<noteq> i"
    using j par_less [of j] par_less [of i] by auto
  then show "(k(i := d)) (par i) \<le> (k(i := d)) j"
    using o [of i] o [OF j(1,2)] assms(2) j(3,4) by simp
qed

lemma append_heap_ok:
  assumes "heaped q" "s < length (arena q)" "\<And>e v i. st q s \<noteq> Occupied e v i"
    and q': "arena q' = (arena q)[s := x]" "sl_state x = Occupied d v (length (heap q))"
      "heap q' = heap q @ [s]"
  shows "\<exists>q''. sift_up q' (length (heap q)) = Some q'' \<and> sifted {} q' q''"
proof -
  let ?n = "length (heap q)"
  have h: "hwf {} q" "ordered ?n (key_at q)"
    using assms(1) by (auto simp: heaped_def)
  have ns: "heap q ! i \<noteq> s" if "i < ?n" for i
    using hwf_at [OF h(1) that] assms(3) by metis
  have "hwf {} q'"
    unfolding hwf_def q'(1,3)
  proof (intro conjI allI impI)
    fix i
    assume i: "i < length (heap q @ [s])"
    have "(heap q @ [s]) ! i < length (arena q) \<and>
        (\<exists>e v. sl_state ((arena q)[s := x] ! ((heap q @ [s]) ! i)) = Occupied e v i)"
    proof (cases "i < ?n")
      case True
      then show ?thesis
        using hwf_at [OF h(1) True] ns [OF True] by (simp add: nth_append)
    next
      case False
      then have "i = ?n"
        using i by simp
      then show ?thesis
        using assms(2) q'(2) by simp
    qed
    then show "(heap q @ [s]) ! i < length ((arena q)[s := x])" "(heap q @ [s]) ! i \<notin> {}"
      "\<exists>e v. sl_state ((arena q)[s := x] ! ((heap q @ [s]) ! i)) = Occupied e v i"
      by simp_all
  next
    fix t e v' i
    assume t: "t < length ((arena q)[s := x])" "sl_state ((arena q)[s := x] ! t) = Occupied e v' i"
    have "i < Suc ?n \<and> (heap q @ [s]) ! i = t"
    proof (cases "t = s")
      case True
      then show ?thesis
        using t q'(2) assms(2) by auto
    next
      case False
      then show ?thesis
        using hwf_slot [OF h(1), of t e v' i] t by (simp add: nth_append)
    qed
    then show "i < length (heap q @ [s])" "(heap q @ [s]) ! i = t"
      by simp_all
  qed
  moreover have "key_at q' i = key_at q i" if "i < ?n" for i
    using that ns [OF that] by (simp add: key_at_def q'(1,3) nth_append)
  then have "up_ord (length (heap q')) (key_at q') ?n"
    using append_up_ord [OF h(2), of "key_at q'"] by (simp add: q'(3))
  ultimately show ?thesis
    by (intro sift_up_ok) (simp_all add: q'(3))
qed

text \<open>Changing the deadline of an entry of the heap.\<close>

lemma rekey_ok:
  assumes "heaped q" "i < length (heap q)" "s = heap q ! i" "st q s = Occupied old v i"
    and q': "q' = q\<lparr>arena := (arena q)[s := (arena q ! s)\<lparr>sl_state := Occupied d v' i\<rparr>]\<rparr>"
  shows "\<exists>q''. (if d < old then sift_up q' i else if d > old then sift_down q' i else Some q') = Some q'' \<and>
    sifted {} q' q''"
proof -
  let ?n = "length (heap q)"
  have h: "hwf {} q" "ordered ?n (key_at q)"
    using assms(1) by (auto simp: heaped_def)
  have s: "s < length (arena q)"
    using hwf_at [OF h(1) assms(2)] by (simp add: assms(3))
  have ns: "heap q ! j \<noteq> s" if "j < ?n" "j \<noteq> i" for j
    using hwf_distinct [OF h(1)] that assms(2,3) by (simp add: nth_eq_iff_index_eq)
  have k: "\<forall>j < ?n. key_at q' j = ((key_at q)(i := d)) j"
  proof (intro allI impI)
    fix j
    assume "j < ?n"
    then show "key_at q' j = ((key_at q)(i := d)) j"
      using ns [of j] s assms(3) by (cases "j = i") (simp_all add: key_at_def q')
  qed
  have ki: "key_at q i = old"
    using assms(3,4) by (simp add: key_at_def)
  have "hwf {} q'"
    unfolding hwf_def
  proof (intro conjI allI impI)
    fix j
    assume j: "j < length (heap q')"
    have "heap q ! j < length (arena q) \<and> (\<exists>e v. st q' (heap q ! j) = Occupied e v j)"
      using hwf_at [OF h(1), of j] j ns [of j] s assms(3) by (cases "j = i") (simp_all add: q')
    then show "heap q' ! j < length (arena q')" "heap q' ! j \<notin> {}"
      "\<exists>e v. st q' (heap q' ! j) = Occupied e v j"
      by (simp_all add: q')
  next
    fix t e w j
    assume "t < length (arena q')" "st q' t = Occupied e w j"
    then show "j < length (heap q')" "heap q' ! j = t"
      using hwf_slot [OF h(1), of t e w j] s assms(2,3) by (auto simp: q' nth_list_update split: if_splits)
  qed
  note sift_up_ok [OF this, of i] sift_down_ok [OF this, of i]
  moreover have "up_ord ?n (key_at q') i" if "d < old"
    using up_ord_cong [OF rekey_up_ord [OF h(2) assms(2)] k assms(2)] that ki by simp
  moreover have "down_ord ?n (key_at q') i" if "old \<le> d"
    using down_ord_cong [OF rekey_down_ord [OF h(2) assms(2)] k assms(2)] that ki by simp
  moreover have "sifted {} q' q'" if "d = old"
    using \<open>hwf {} q'\<close> h(2) k par_le that ki by (auto simp: sifted_def ordered_def q')
  ultimately show ?thesis
    using assms(2) by (auto simp: q')
qed

section \<open>The operations\<close>

lemma view_None: "view s = None \<longleftrightarrow> sl_state s = Retired \<or> (\<exists>n. sl_state s = Vacant n)"
  by (simp add: view_def split: slot_state.splits)

text \<open>A token that names nothing: every operation answers so and changes nothing.\<close>

lemma ops_absent:
  assumes "tok_map q t = None" "token_slot t \<noteq> None"
  shows "cancel q t = Some (None, q)" "park q t = Some (False, q)"
    "reschedule q t d = Some (False, q)" "value_mut f q t = Some (None, q)"
proof -
  obtain r where r: "valid_slot q t = Some r"
    using valid_slot_total [OF assms(2)] by blast
  have "view (arena q ! s) = None" if "owner_slot q = Some (token_owner_slot t)" "r = Some s" for s
    using assms(1) r that by (simp add: tok_map_def)
  then show "cancel q t = Some (None, q)" "park q t = Some (False, q)"
    "reschedule q t d = Some (False, q)" "value_mut f q t = Some (None, q)"
    using r by (auto simp: cancel_def park_def reschedule_def value_mut_def view_None split: option.splits)
qed

lemma token_present:
  assumes "tok_map q t = Some x"
  obtains own s where "owner_slot q = Some own" "token_owner_slot t = own" "s < length (arena q)"
    "t = token_new own s (gen_of q s)" "view (arena q ! s) = Some x" "valid_slot q t = Some (Some s)"
proof (rule tok_map_Some [OF assms])
  fix own s
  assume a: "owner_slot q = Some own" "s < length (arena q)" "t = token_new own s (gen_of q s)"
    "view (arena q ! s) = Some x" "valid_slot q t = Some (Some s)"
  have "token_owner_slot t = own"
    using assms a(1) by (simp add: tok_map_def split: if_splits)
  then show thesis
    using that a by blast
qed

lemma hwf_insert:
  assumes "hwf X q" "\<And>e v i. st q s \<noteq> Occupied e v i"
  shows "hwf (insert s X) q"
  unfolding hwf_def
proof (intro conjI allI impI)
  fix i
  assume i: "i < length (heap q)"
  show "heap q ! i < length (arena q)" "\<exists>e v. st q (heap q ! i) = Occupied e v i"
    using hwf_at [OF assms(1) i] by blast+
  show "heap q ! i \<notin> insert s X"
    using hwf_at [OF assms(1) i] assms(2) by blast
next
  fix t e v i
  assume "t < length (arena q)" "t \<notin> insert s X" "st q t = Occupied e v i"
  then show "i < length (heap q)" "heap q ! i = t"
    using hwf_slot [OF assms(1), of t e v i] by auto
qed

lemma cancel_ok:
  assumes "tq_inv q" "token_slot t \<noteq> None"
  shows "\<exists>q'. cancel q t = Some (map_option snd (tok_map q t), q') \<and> tq_inv q' \<and> evolves q q' \<and>
    tok_map q' = (tok_map q)(t := None) \<and> (tok_map q t \<noteq> None \<longrightarrow> dead q' t)"
proof (cases "tok_map q t")
  case None
  then show ?thesis
    using ops_absent(1) [OF None assms(2)] assms(1) by (simp add: fun_upd_idem)
next
  case (Some x)
  obtain own s where t: "owner_slot q = Some own" "token_owner_slot t = own" "s < length (arena q)"
    "t = token_new own s (gen_of q s)" "view (arena q ! s) = Some x" "valid_slot q t = Some (Some s)"
    using token_present [OF Some] by blast
  have inv: "hwf {} q" "ordered (length (heap q)) (key_at q)" "skel q"
    using assms(1) by (auto simp: tq_inv_def heaped_def)
  show ?thesis
  proof (cases "fst x")
    case None
    then obtain v where v: "x = (None, v)" "st q s = Parked v"
      using t(5) by (cases x) (auto simp: view_Parked)
    note r = recycled_ok [OF hwf_insert [OF inv(1)] inv(2,3) t(3) _ t(1)]
    have "active (arena q ! s)"
      using t(5) by simp
    moreover from live_pos [OF inv(3) t(3) this] have "cancel q t = Some (Some v, recycled q s)"
      using t v(2) by (simp add: cancel_def set_slot_state_def usize_sub_def recycle_def at_def recycled_def)
    ultimately show ?thesis
      using r t(4) v Some by auto
  next
    case (Some e)
    then obtain v i where v: "x = (Some e, v)" "st q s = Occupied e v i"
      using t(5) by (cases x) (auto simp: view_Occupied)
    note i = hwf_slot [OF inv(1) t(3) _ v(2), simplified]
    obtain q' where q': "remove_heap_index q i = Some (v, q')" "tq_inv q'" "evolves q q'"
      "tok_map q' = (tok_map q)(t := None)" "dead q' t"
      using remove_heap_index_ok [OF assms(1) conjunct1 [OF i] t(1), of s e v] i t(4,5) v(1) by auto
    then have "cancel q t = Some (Some v, q')"
      using t v(2) by (simp add: cancel_def)
    then show ?thesis
      using q' \<open>tok_map q t = Some x\<close> v(1) by auto
  qed
qed

text \<open>The end of every operation that sifts.\<close>

lemma sifted_done:
  assumes "sifted {} q1 q2" "skel q1"
  shows "tq_inv q2 \<and> tok_map q2 = tok_map q1 \<and> evolves q1 q2 \<and> owner_slot q2 = owner_slot q1 \<and>
    length (heap q2) = length (heap q1)"
proof -
  have s: "hwf {} q2" "calm q1 q2" "mset (heap q2) = mset (heap q1)" "ordered (length (heap q2)) (key_at q2)"
    using assms(1) by (auto simp: sifted_def)
  have "owner_slot q2 = owner_slot q1" "length (heap q2) = length (heap q1)"
    using s(2,3) by (auto simp: calm_def dest: mset_eq_length)
  then show ?thesis
    using s calm_skel [OF s(2) assms(2)] calm_tok_map [OF s(2)] calm_evolves [OF s(2)]
    by (simp add: tq_inv_def heaped_def)
qed

text \<open>Replacing what an active slot holds.\<close>

lemma set_view:
  assumes "skel q" "owner_slot q = Some own" "s < length (arena q)" "active (arena q ! s)"
    and "view x = Some y" "sl_gen x = gen_of q s"
    and q': "arena q' = (arena q)[s := x]" "owner_slot q' = owner_slot q" "free_head q' = free_head q"
      "live q' = live q"
  shows "skel q' \<and> evolves q q' \<and> tok_map q' = (tok_map q)(token_new own s (gen_of q s) \<mapsto> y)"
proof -
  have x: "\<not> vacant x" "sl_state x \<noteq> Retired"
    using assms(5) by (auto simp: view_def vacant_def split: slot_state.splits)
  have sk: "skel q'"
    using assms(5,6) q' x(1) by (intro skel_update [OF assms(1,3,4)]) (auto simp: gen_of_def)
  moreover have "sl_state (arena q ! s) \<noteq> Retired"
    using assms(4) by (auto simp: view_def)
  then have "evolves q q'"
    using assms(6) by (intro update_evolves [OF assms(3) q'(1,2)]) (simp add: slot_ev_def gen_of_def)
  moreover have "tok_map q' = (tok_map q)(token_new own s (gen_of q s) := view (arena q' ! s))"
    using q' assms(2,3,6) by (intro tok_map_update [OF assms(1) sk assms(2)]) (auto simp: gen_of_def)
  ultimately show ?thesis
    using assms(3,5) q'(1) by simp
qed

lemma value_mut_ok:
  assumes "tq_inv q" "token_slot t \<noteq> None"
  shows "\<exists>q'. value_mut f q t = Some (map_option snd (tok_map q t), q') \<and> tq_inv q' \<and> evolves q q' \<and>
    tok_map q' = (tok_map q)(t := map_option (apsnd f) (tok_map q t))"
proof (cases "tok_map q t")
  case None
  then show ?thesis
    using ops_absent(4) [OF None assms(2)] assms(1) by (simp add: fun_upd_idem)
next
  case (Some x)
  obtain own s where t: "owner_slot q = Some own" "token_owner_slot t = own" "s < length (arena q)"
    "t = token_new own s (gen_of q s)" "view (arena q ! s) = Some x" "valid_slot q t = Some (Some s)"
    using token_present [OF Some] by blast
  have inv: "heaped q" "hwf {} q" "ordered (length (heap q)) (key_at q)" "skel q"
    using assms(1) by (auto simp: tq_inv_def heaped_def)
  have act: "active (arena q ! s)"
    using t(5) by simp
  show ?thesis
  proof (cases "fst x")
    case None
    then obtain v where v: "x = (None, v)" "st q s = Parked v"
      using t(5) by (cases x) (auto simp: view_Parked)
    let ?x = "(arena q ! s)\<lparr>sl_state := Parked (f v)\<rparr>"
    let ?q = "q\<lparr>arena := (arena q)[s := ?x]\<rparr>"
    have "heaped ?q"
      by (rule heaped_update [OF hwf_insert [OF inv(2), of s] inv(3)]) (use v(2) in auto)
    moreover have "view ?x = Some (apsnd f x)"
      by (simp add: v(1) view_def)
    note set_view [OF inv(4) t(1,3) act this, of ?q]
    moreover have "value_mut f q t = Some (Some v, ?q)"
      using t v(2) by (simp add: value_mut_def set_slot_state_def)
    ultimately show ?thesis
      using Some t(4) v(1) by (simp add: tq_inv_def gen_of_def)
  next
    case (Some e)
    then obtain v i where v: "x = (Some e, v)" "st q s = Occupied e v i"
      using t(5) by (cases x) (auto simp: view_Occupied)
    note i = hwf_slot [OF inv(2) t(3) _ v(2), simplified]
    let ?x = "(arena q ! s)\<lparr>sl_state := Occupied e (f v) i\<rparr>"
    let ?q = "q\<lparr>arena := (arena q)[s := ?x]\<rparr>"
    have "sifted {} ?q ?q"
      using rekey_ok [OF inv(1) conjunct1 [OF i] _ v(2) refl, of e "f v"] i by simp
    then have "heaped ?q"
      by (simp add: sifted_def heaped_def)
    moreover have "view ?x = Some (apsnd f x)"
      by (simp add: v(1) view_def)
    note set_view [OF inv(4) t(1,3) act this, of ?q]
    moreover have "value_mut f q t = Some (Some v, ?q)"
      using t v(2) by (simp add: value_mut_def set_slot_state_def)
    ultimately show ?thesis
      using \<open>tok_map q t = Some x\<close> t(4) v(1) by (simp add: tq_inv_def gen_of_def)
  qed
qed

lemma park_ok:
  assumes "tq_inv q" "token_slot t \<noteq> None"
  shows "\<exists>q'. park q t = Some (tok_map q t \<noteq> None, q') \<and> tq_inv q' \<and> evolves q q' \<and>
    tok_map q' = (tok_map q)(t := map_option (\<lambda>x. (None, snd x)) (tok_map q t))"
proof (cases "tok_map q t")
  case None
  then show ?thesis
    using ops_absent(2) [OF None assms(2)] assms(1) by (simp add: fun_upd_idem)
next
  case (Some x)
  obtain own s where t: "owner_slot q = Some own" "token_owner_slot t = own" "s < length (arena q)"
    "t = token_new own s (gen_of q s)" "view (arena q ! s) = Some x" "valid_slot q t = Some (Some s)"
    using token_present [OF Some] by blast
  have inv: "hwf {} q" "ordered (length (heap q)) (key_at q)" "skel q"
    using assms(1) by (auto simp: tq_inv_def heaped_def)
  show ?thesis
  proof (cases "fst x")
    case None
    then obtain v where v: "x = (None, v)" "st q s = Parked v"
      using t(5) by (cases x) (auto simp: view_Parked)
    then have "park q t = Some (True, q)"
      using t by (simp add: park_def)
    then show ?thesis
      using Some v(1) assms(1) by (simp add: fun_upd_idem)
  next
    case (Some e)
    then obtain v i where v: "x = (Some e, v)" "st q s = Occupied e v i"
      using t(5) by (cases x) (auto simp: view_Occupied)
    note i = hwf_slot [OF inv(1) t(3) _ v(2), simplified]
    obtain q1 where q1: "detach_heap_index q i = Some (s, q1)" "detached {} q s q1"
      using detach_ok [OF inv(1,2) conjunct1 [OF i]] i by auto
    have d: "hwf {s} q1" "calm q q1" "ordered (length (heap q1)) (key_at q1)"
      using q1(2) unfolding detached_def by blast+
    have own1: "owner_slot q1 = Some own" and s1: "s < length (arena q1)"
      using d(2) t(1,3) calm_arena(1) [OF d(2)] by (auto simp: calm_def)
    note eqs = calm_tok_map [OF d(2)] calm_slot(2) [OF d(2) t(3)]
    have vw: "view (arena q1 ! s) = Some (Some e, v)"
      using calm_slot(1) [OF d(2) t(3)] t(5) v(1) by simp
    let ?x = "(arena q1 ! s)\<lparr>sl_state := Parked v\<rparr>"
    let ?q = "q1\<lparr>arena := (arena q1)[s := ?x]\<rparr>"
    have "heaped ?q"
      by (rule heaped_update [OF d(1,3)]) auto
    moreover have "active (arena q1 ! s)" "view ?x = Some (None, v)"
      using vw by (simp_all add: view_def)
    note set_view [OF calm_skel [OF d(2) inv(3)] own1 s1 this, of ?q, unfolded eqs]
    moreover have "park q t = Some (True, ?q)"
      using t v(2) q1(1) s1 vw by (auto simp: park_def set_slot_state_def at_def view_Occupied)
    ultimately show ?thesis
      using \<open>tok_map q t = Some x\<close> t(4) v(1) calm_evolves [OF d(2)] eqs
      by (auto simp: tq_inv_def gen_of_def intro: tq_evolves_trans)
  qed
qed

lemma reschedule_ok:
  assumes "tq_inv q" "token_slot t \<noteq> None"
  shows "\<exists>q'. reschedule q t d = Some (tok_map q t \<noteq> None, q') \<and> tq_inv q' \<and> evolves q q' \<and>
    tok_map q' = (tok_map q)(t := map_option (\<lambda>x. (Some d, snd x)) (tok_map q t))"
proof (cases "tok_map q t")
  case None
  then show ?thesis
    using ops_absent(3) [OF None assms(2)] assms(1) by (simp add: fun_upd_idem)
next
  case (Some x)
  obtain own s where t: "owner_slot q = Some own" "token_owner_slot t = own" "s < length (arena q)"
    "t = token_new own s (gen_of q s)" "view (arena q ! s) = Some x" "valid_slot q t = Some (Some s)"
    using token_present [OF Some] by blast
  have inv: "heaped q" "hwf {} q" "skel q"
    using assms(1) by (auto simp: tq_inv_def heaped_def)
  have act: "active (arena q ! s)"
    using t(5) by simp
  show ?thesis
  proof (cases "fst x")
    case None
    then obtain v where v: "x = (None, v)" "st q s = Parked v"
      using t(5) by (cases x) (auto simp: view_Parked)
    let ?x = "(arena q ! s)\<lparr>sl_state := Occupied d v (length (heap q))\<rparr>"
    let ?q = "q\<lparr>arena := (arena q)[s := ?x], heap := heap q @ [s]\<rparr>"
    have vx: "view ?x = Some (Some d, v)"
      by (simp add: view_def)
    note sv = set_view [OF inv(3) t(1,3) act vx, of ?q]
    have "\<exists>q''. sift_up ?q (length (heap q)) = Some q'' \<and> sifted {} ?q q''"
      by (rule append_heap_ok [OF inv(1) t(3)]) (use v(2) in auto)
    then obtain q2 where q2: "sift_up ?q (length (heap q)) = Some q2" "sifted {} ?q q2"
      by blast
    then have "reschedule q t d = Some (True, q2)"
      using t v(2) by (simp add: reschedule_def set_slot_state_def)
    then show ?thesis
      using Some v(1) t(4) sv sifted_done [OF q2(2)]
      by (auto simp: gen_of_def intro: tq_evolves_trans)
  next
    case (Some e)
    then obtain v i where v: "x = (Some e, v)" "st q s = Occupied e v i"
      using t(5) by (cases x) (auto simp: view_Occupied)
    note i = hwf_slot [OF inv(2) t(3) _ v(2), simplified]
    let ?x = "(arena q ! s)\<lparr>sl_state := Occupied d v i\<rparr>"
    let ?q = "q\<lparr>arena := (arena q)[s := ?x]\<rparr>"
    have vx: "view ?x = Some (Some d, v)"
      by (simp add: view_def)
    note sv = set_view [OF inv(3) t(1,3) act vx, of ?q]
    obtain q2 where q2: "(if d < e then sift_up ?q i else if d > e then sift_down ?q i else Some ?q) = Some q2"
      "sifted {} ?q q2"
      using rekey_ok [OF inv(1) conjunct1 [OF i] _ v(2) refl, of d v] i by auto
    then have "reschedule q t d = Some (True, q2)"
      using t v(2) by (auto simp: reschedule_def set_slot_state_def split: if_splits)
    then show ?thesis
      using \<open>tok_map q t = Some x\<close> v(1) t(4) sv sifted_done [OF q2(2)]
      by (auto simp: gen_of_def intro: tq_evolves_trans)
  qed
qed

section \<open>Registration\<close>

lemma heap_le_live:
  assumes "tq_inv q"
  shows "length (heap q) \<le> live q" "live q \<le> length (arena q)"
proof -
  have inv: "hwf {} q" "live q = length (filter active (arena q))"
    using assms by (auto simp: tq_inv_def heaped_def skel_def)
  have "set (heap q) \<subseteq> {s. s < length (arena q) \<and> active (arena q ! s)}"
  proof
    fix s
    assume "s \<in> set (heap q)"
    then obtain i where i: "i < length (heap q)" "s = heap q ! i"
      by (auto simp: in_set_conv_nth)
    then show "s \<in> {s. s < length (arena q) \<and> active (arena q ! s)}"
      using hwf_at [OF inv(1) i(1)] by (auto simp: view_def)
  qed
  then have "card (set (heap q)) \<le> card {s. s < length (arena q) \<and> active (arena q ! s)}"
    by (intro card_mono) auto
  then show "length (heap q) \<le> live q"
    using hwf_distinct [OF inv(1)] inv(2) by (simp add: distinct_card length_filter_conv_card)
  show "live q \<le> length (arena q)"
    using inv(2) by simp
qed

definition filled :: "'a timer_queue \<Rightarrow> nat \<Rightarrow> u64 \<Rightarrow> 'a \<Rightarrow> 'a timer_queue" where
  "filled q s e v =
     q\<lparr>arena := (arena q)[s := (arena q ! s)\<lparr>sl_state := Occupied e v (length (heap q))\<rparr>],
       heap := heap q @ [s], live := live q + 1\<rparr>"

definition registered :: "'a timer_queue \<Rightarrow> nat \<Rightarrow> u64 \<Rightarrow> 'a \<Rightarrow> nat \<Rightarrow> u32 \<Rightarrow> 'a timer_queue \<Rightarrow> bool" where
  "registered q own e v s g q3 \<longleftrightarrow>
     skel q3 \<and> evolves q q3 \<and> tok_map q (token_new own s g) = None \<and>
     tok_map q3 = (tok_map q)(token_new own s g \<mapsto> (Some e, v)) \<and>
     token_slot (token_new own s g) = Some s \<and>
     (\<exists>q4. sift_up q3 (length (heap q)) = Some q4 \<and> sifted {} q3 q4)"

lemma filter_active_fill:
  assumes "s < length ar" "\<not> active (ar ! s)" "active x"
  shows "length (filter active (ar[s := x])) = length (filter active ar) + 1"
  using length_filter_update [OF assms(1), of active x] assms(2,3) by simp

text \<open>Reusing the head of the free list.\<close>

lemma register_reuse:
  assumes "tq_inv q" "owner_slot q = Some own" "free_head q = Some s"
  shows "\<exists>n. take_slot q = Some (s, gen_of q s, q\<lparr>free_head := n\<rparr>) \<and> s < length (arena q) \<and>
    registered q own e v s (gen_of q s) (filled (q\<lparr>free_head := n\<rparr>) s e v)"
proof -
  have inv: "heaped q" "skel q"
    using assms(1) by (auto simp: tq_inv_def)
  obtain fs where fs: "chain (arena q) (free_head q) fs" "distinct fs"
    "\<forall>s < length (arena q). vacant (arena q ! s) \<longleftrightarrow> s \<in> set fs"
    using inv(2) by (auto simp: skel_def free_list_def)
  obtain fs' n where n: "fs = s # fs'" "s < length (arena q)" "st q s = Vacant n" "chain (arena q) n fs'"
    using fs(1) assms(3) by (cases fs) auto
  let ?x = "(arena q ! s)\<lparr>sl_state := Occupied e v (length (heap q))\<rparr>"
  let ?q = "filled (q\<lparr>free_head := n\<rparr>) s e v"
  have q3: "arena ?q = (arena q)[s := ?x]" "heap ?q = heap q @ [s]" "live ?q = live q + 1"
    "owner_slot ?q = Some own" "free_head ?q = n"
    by (simp_all add: filled_def assms(2))
  have x: "view ?x = Some (Some e, v)" "\<not> vacant ?x" "view (arena q ! s) = None"
    using n(3) by (simp_all add: view_def vacant_def)
  have "free_list ?q"
    unfolding free_list_def q3(1,5)
    using n fs(2,3) x(2) by (intro exI [of _ fs']) (auto simp: chain_update nth_list_update)
  moreover have "live ?q = length (filter active (arena ?q))"
    unfolding q3 using filter_active_fill [OF n(2), of ?x] x inv(2) by (simp add: skel_def)
  ultimately have sk: "skel ?q"
    using inv(2) n(2) assms(2) unfolding skel_def q3(1,4) by (simp add: nth_list_update)
  have "evolves q ?q"
    using n(3) by (intro update_evolves [OF n(2) q3(1)]) (simp_all add: q3 assms(2) slot_ev_def)
  moreover have "tok_map ?q = (tok_map q)(token_new own s (gen_of q s) := view (arena ?q ! s))"
    using q3 n(2) by (intro tok_map_update [OF inv(2) sk assms(2) q3(4)]) (auto simp: gen_of_def)
  moreover have "\<exists>q4. sift_up ?q (length (heap q)) = Some q4 \<and> sifted {} ?q q4"
    by (rule append_heap_ok [OF inv(1) n(2) _ q3(1) _ q3(2)]) (use n(3) in auto)
  moreover have "take_slot q = Some (s, gen_of q s, q\<lparr>free_head := n\<rparr>)"
    using assms(3) n(2,3) by (simp add: take_slot_def at_def gen_of_def)
  moreover have "token_slot (token_new own s (gen_of q s)) = Some s"
    using valid_slot_new(1) [OF inv(2) assms(2) n(2)] by (simp add: valid_slot_cases)
  ultimately show ?thesis
    using sk x n(2) tok_map_new [OF inv(2) assms(2) n(2)] q3(1)
    by (intro exI [of _ n]) (simp add: registered_def)
qed

text \<open>Growing the arena.\<close>

lemma append_at_end: "(xs @ [y])[length xs := z] = xs @ [z]"
  by simp

lemma tok_map_append:
  assumes "skel q" "skel q'" "owner_slot q = Some own" "owner_slot q' = Some own"
    and q': "arena q' = arena q @ [x]"
  shows "tok_map q' = (tok_map q)(token_new own (length (arena q)) (sl_gen x) := view x)"
    "tok_map q (token_new own (length (arena q)) (sl_gen x)) = None"
proof -
  let ?n = "length (arena q)" and ?t = "token_new own (length (arena q)) (sl_gen x)"
  have g: "gen_of q' ?n = sl_gen x" "\<And>s. s < ?n \<Longrightarrow> gen_of q' s = gen_of q s"
    by (simp_all add: gen_of_def q' nth_append)
  have t: "valid_slot q' ?t = Some (Some ?n)"
    using valid_slot_new(1) [OF assms(2,4), of ?n] by (simp add: q' g)
  show none: "tok_map q ?t = None"
    using t by (auto simp: tok_map_def valid_slot_cases split: option.splits)
  show "tok_map q' = (tok_map q)(?t := view x)"
  proof
    fix t
    show "tok_map q' t = ((tok_map q)(?t := view x)) t"
    proof (cases "t = ?t")
      case True
      then show ?thesis
        using tok_map_new [OF assms(2,4), of ?n] by (simp add: q' g)
    next
      case False
      have "tok_map q' t = Some y \<longleftrightarrow> tok_map q t = Some y" for y
      proof
        assume "tok_map q' t = Some y"
        then obtain s where s: "s < length (arena q')" "t = token_new own s (gen_of q' s)"
          "view (arena q' ! s) = Some y"
          using assms(4) by (auto elim!: tok_map_Some)
        have "s \<noteq> ?n"
          using False s(2) g(1) by auto
        then have "s < ?n"
          using s(1) by (simp add: q')
        then show "tok_map q t = Some y"
          using s(2,3) g(2) tok_map_new [OF assms(1,3), of s] by (simp add: q' nth_append)
      next
        assume "tok_map q t = Some y"
        then obtain s where s: "s < ?n" "t = token_new own s (gen_of q s)" "view (arena q ! s) = Some y"
          using assms(3) by (auto elim!: tok_map_Some)
        then show "tok_map q' t = Some y"
          using g(2) [OF s(1)] tok_map_new [OF assms(2,4), of s] by (simp add: q' nth_append)
      qed
      then show ?thesis
        using False by (metis fun_upd_other not_None_eq)
    qed
  qed
qed

lemma register_grow:
  assumes "tq_inv q" "owner_slot q = Some own" "free_head q = None" "length (arena q) < 2 ^ 28 - 1"
  defines "q1 \<equiv> q\<lparr>arena := arena q @ [\<lparr>sl_gen = 1, sl_state = Retired\<rparr>]\<rparr>" and "s \<equiv> length (arena q)"
  shows "take_slot q = Some (s, 1, q1)" "registered q own e v s 1 (filled q1 s e v)"
proof -
  have inv: "hwf {} q" "ordered (length (heap q)) (key_at q)" "skel q"
    using assms(1) by (auto simp: tq_inv_def heaped_def)
  let ?x = "\<lparr>sl_gen = 1, sl_state = Occupied e v (length (heap q))\<rparr>"
  let ?q = "filled q1 s e v"
  have q3: "arena ?q = arena q @ [?x]" "heap ?q = heap q @ [s]" "live ?q = live q + 1"
    "owner_slot ?q = Some own" "free_head ?q = None"
    by (simp_all add: filled_def q1_def s_def assms(2,3))
  have x: "view ?x = Some (Some e, v)" "\<not> vacant ?x"
    by (simp_all add: view_def vacant_def)
  obtain fs where fs: "chain (arena q) (free_head q) fs" "\<forall>s < length (arena q). vacant (arena q ! s) \<longleftrightarrow> s \<in> set fs"
    using inv(3) by (auto simp: skel_def free_list_def)
  have "fs = []"
    using fs(1) assms(3) by (cases fs) auto
  then have "free_list ?q"
    unfolding free_list_def q3(1,5) using fs(2) x(2)
    by (intro exI [of _ "[]"]) (auto simp: nth_append less_Suc_eq)
  moreover have "(1 :: u32) \<le> GENERATION_MAX"
    by (simp add: word_le_nat_alt mask_values(4))
  ultimately have sk: "skel ?q"
    using inv(3) assms(2,4) x(1) unfolding skel_def q3 by (auto simp: nth_append less_Suc_eq)
  have "evolves q ?q"
    by (simp add: evolves_def q3 assms(2) nth_append)
  moreover note tok_map_append [OF inv(3) sk assms(2) q3(4,1)]
  moreover have "\<exists>q4. sift_up ?q (length (heap q)) = Some q4 \<and> sifted {} ?q q4"
  proof -
    have "heaped q1"
      using inv(1,2) hwf_at [OF inv(1)] par_le
      by (auto simp: heaped_def hwf_def ordered_def key_at_def q1_def nth_append less_Suc_eq)
    then show ?thesis
      using append_heap_ok [of q1 s ?q ?x e v] q3
      by (simp add: q1_def s_def filled_def)
  qed
  moreover have "token_slot (token_new own s 1) = Some s"
  proof -
    have "s < length (arena ?q)" "gen_of ?q s = 1"
      unfolding gen_of_def q3(1) by (simp_all add: s_def)
    then show ?thesis
      using valid_slot_new(1) [OF sk q3(4), of s] by (simp add: valid_slot_cases)
  qed
  ultimately show "registered q own e v s 1 ?q"
    using sk x(1) by (simp add: registered_def s_def)
  show "take_slot q = Some (s, 1, q1)"
    using assms(3) by (simp add: take_slot_def q1_def s_def)
qed

lemma try_register_ok:
  assumes "tq_inv q"
  shows "\<exists>r q'. try_register hroom aroom q e v = Some (r, q') \<and> tq_inv q' \<and> evolves q q' \<and>
    (case r of
       Err _ \<Rightarrow> q' = q \<and> (owner_slot q = None \<or> \<not> hroom \<or> free_head q = None \<and> (\<not> aroom \<or> length (arena q) = 2 ^ 28 - 1))
     | Ok t \<Rightarrow> tok_map q t = None \<and> tok_map q' = (tok_map q)(t \<mapsto> (Some e, v)) \<and> token_slot t \<noteq> None)"
proof (cases "owner_slot q")
  case None
  then show ?thesis
    using assms by (simp add: try_register_def)
next
  case (Some own)
  have b: "live q + 1 < usize_bound" "length (heap q) \<le> live q + 1" "length (arena q) \<le> 2 ^ 28 - 1"
  proof -
    show "length (arena q) \<le> 2 ^ 28 - 1"
      using assms by (simp add: tq_inv_def skel_def)
    then show "live q + 1 < usize_bound" "length (heap q) \<le> live q + 1"
      using heap_le_live [OF assms] by simp_all
  qed
  let ?full = "\<not> hroom \<or> free_head q = None \<and> (\<not> aroom \<or> length (arena q) \<ge> 2 ^ 28 - 1)"
  show ?thesis
  proof (cases ?full)
    case True
    then have "try_register hroom aroom q e v = Some (Err (), q)"
      using Some b(1,2) by (auto simp: try_register_def usize_add_def usize_sub_def mask_values)
    then show ?thesis
      using True assms b(3) by auto
  next
    case False
    have "\<exists>s g q1. take_slot q = Some (s, g, q1) \<and> s < length (arena q1) \<and> length (heap q1) = length (heap q) \<and>
        registered q own e v s g (filled q1 s e v)"
    proof (cases "free_head q")
      case None
      then show ?thesis
        using register_grow [OF assms Some None] False by fastforce
    next
      case (Some s)
      then show ?thesis
        using register_reuse [OF assms \<open>owner_slot q = Some own\<close> Some] by fastforce
    qed
    then obtain s g q1 where q1: "take_slot q = Some (s, g, q1)" "s < length (arena q1)"
      "length (heap q1) = length (heap q)" "registered q own e v s g (filled q1 s e v)"
      by blast
    then obtain q4 where q4: "sift_up (filled q1 s e v) (length (heap q)) = Some q4"
      "sifted {} (filled q1 s e v) q4"
      by (auto simp: registered_def)
    have "try_register hroom aroom q e v = Some (Ok (token_new own s g), q4)"
      using Some False b(1,2) q1(1-3) q4(1)
      by (auto simp: try_register_def usize_add_def usize_sub_def mask_values set_slot_state_def
          filled_def Let_def)
    moreover have "skel (filled q1 s e v)" "evolves q (filled q1 s e v)"
      using q1(4) by (auto simp: registered_def)
    note sifted_done [OF q4(2) this(1)] this(2)
    ultimately show ?thesis
      using q1(4) by (auto simp: registered_def intro: tq_evolves_trans)
  qed
qed

end
