(* ===== verification/Timer_Queue_Contract.thy ===== *)
theory Timer_Queue_Contract
  imports Timer_Queue_Ops
begin

text \<open>
  What the users of the timer queue rely on: popping in deadline order as a contract
  (\<open>deadline_queue\<close>), the queue as a transition system whose tokens die for ever, and the
  properties of the component.
\<close>

section \<open>Popping\<close>

lemma occupied_position:
  assumes "tq_inv q" "tok_map q t = Some (Some e, v)"
  obtains own s i where "owner_slot q = Some own" "t = token_new own s (gen_of q s)" "s < length (arena q)"
    "i < length (heap q)" "heap q ! i = s" "key_at q i = e" "view (arena q ! s) = Some (Some e, v)"
proof -
  have h: "hwf {} q"
    using assms(1) by (simp add: tq_inv_def heaped_def)
  obtain own s where s: "owner_slot q = Some own" "s < length (arena q)" "t = token_new own s (gen_of q s)"
    "view (arena q ! s) = Some (Some e, v)"
    using token_present [OF assms(2)] by metis
  obtain i where i: "st q s = Occupied e v i"
    using s(4) by (auto simp: view_Occupied)
  then have "i < length (heap q)" "heap q ! i = s"
    using hwf_slot [OF h s(2)] by auto
  then show thesis
    using that [OF s(1,3,2)] s(4) i by (simp add: key_at_def)
qed

lemma pop_expired_ok:
  assumes "tq_inv q"
  shows "\<exists>r q'. pop_expired q now = Some (r, q') \<and> tq_inv q' \<and> evolves q q' \<and>
    (case r of
       None \<Rightarrow> q' = q \<and> (\<forall>t e v. tok_map q t = Some (Some e, v) \<longrightarrow> now < e)
     | Some (t, v) \<Rightarrow> dead q' t \<and> tok_map q' = (tok_map q)(t := None) \<and>
         (\<exists>e. tok_map q t = Some (Some e, v) \<and> e \<le> now \<and>
           (\<forall>t' e' v'. tok_map q t' = Some (Some e', v') \<longrightarrow> e \<le> e')))"
proof -
  have inv: "hwf {} q" "ordered (length (heap q)) (key_at q)" "skel q"
    using assms by (auto simp: tq_inv_def heaped_def)
  have least: "heap q \<noteq> [] \<and> key_at q 0 \<le> e" if "tok_map q t = Some (Some e, v)" for t e v
    using occupied_position [OF assms that] ordered_root [OF inv(2)]
    by (metis length_greater_0_conv not_less_zero gr_zeroI)
  show ?thesis
  proof (cases "owner_slot q = None \<or> heap q = []")
    case True
    then have "pop_expired q now = Some (None, q)"
      by (auto simp: pop_expired_def split: option.splits list.splits)
    moreover have "\<not> tok_map q t = Some (Some e, v)" for t e v
      using True least [of t e v] by (auto simp: tok_map_def)
    ultimately show ?thesis
      using assms by simp
  next
    case False
    then obtain own s rest where o: "owner_slot q = Some own" "heap q = s # rest"
      by (cases "heap q") auto
    have h0: "0 < length (heap q)" "heap q ! 0 = s"
      by (simp_all add: o(2))
    obtain e v where s: "s < length (arena q)" "st q s = Occupied e v 0"
      using hwf_at [OF inv(1) h0(1)] by (auto simp: h0(2))
    have k: "key_at q 0 = e" "expires_at q s = Some e" "view (arena q ! s) = Some (Some e, v)"
      using s by (simp_all add: key_at_def h0(2) expires_at_def at_def view_def)
    show ?thesis
    proof (cases "now < e")
      case True
      then have "pop_expired q now = Some (None, q)"
        using o k by (simp add: pop_expired_def)
      moreover have "now < e'" if "tok_map q t = Some (Some e', v')" for t e' v'
        using least [OF that] True k(1) by (auto intro: less_le_trans)
      ultimately show ?thesis
        using assms by simp
    next
      case False
      let ?t = "token_new own s (gen_of q s)"
      obtain q' where q': "remove_heap_index q 0 = Some (v, q')" "tq_inv q'" "evolves q q'"
        "tok_map q' = (tok_map q)(?t := None)" "dead q' ?t"
        using remove_heap_index_ok [OF assms h0(1) o(1) _ k(3)] h0(2) by auto
      have "pop_expired q now = Some (Some (?t, v), q')"
        using o k(2) False q'(1) s(1) by (simp add: pop_expired_def at_def gen_of_def)
      moreover have "tok_map q ?t = Some (Some e, v)"
        using tok_map_new [OF inv(3) o(1) s(1)] k(3) by simp
      ultimately show ?thesis
        using q' False least k(1) by (auto simp: not_less)
    qed
  qed
qed

section \<open>The contract of a deadline queue\<close>

locale deadline_queue =
  fixes dinv :: "'q \<Rightarrow> bool"
    and due :: "'q \<Rightarrow> 't \<Rightarrow> (u64 option \<times> 'v) option"
    and pop :: "'q \<Rightarrow> u64 \<Rightarrow> (('t \<times> 'v) option \<times> 'q) option"
  assumes pop_ok: "dinv q \<Longrightarrow> \<exists>r q'. pop q now = Some (r, q') \<and> dinv q' \<and>
    (case r of
       None \<Rightarrow> q' = q \<and> (\<forall>t e v. due q t = Some (Some e, v) \<longrightarrow> now < e)
     | Some (t, v) \<Rightarrow> due q' = (due q)(t := None) \<and>
         (\<exists>e. due q t = Some (Some e, v) \<and> e \<le> now \<and>
           (\<forall>t' e' v'. due q t' = Some (Some e', v') \<longrightarrow> e \<le> e')))"
begin

text \<open>The loop of a timer interrupt: pop until nothing is due, or \<open>n\<close> times.\<close>

fun drain :: "nat \<Rightarrow> 'q \<Rightarrow> u64 \<Rightarrow> (('t \<times> 'v) list \<times> 'q) option" where
  "drain 0 q now = Some ([], q)"
| "drain (Suc n) q now =
     (case pop q now of
        None \<Rightarrow> None
      | Some (None, q') \<Rightarrow> Some ([], q')
      | Some (Some p, q') \<Rightarrow> map_option (\<lambda>(ps, q''). (p # ps, q'')) (drain n q' now))"

definition deadline :: "'q \<Rightarrow> 't \<Rightarrow> u64" where
  "deadline q t = (case due q t of Some (Some e, _) \<Rightarrow> e | _ \<Rightarrow> 0)"

lemma drain_ok:
  "dinv q \<Longrightarrow> \<exists>ps q'. drain n q now = Some (ps, q') \<and> dinv q' \<and> length ps \<le> n \<and>
     distinct (map fst ps) \<and> sorted (map (\<lambda>p. deadline q (fst p)) ps) \<and>
     (\<forall>(t, v) \<in> set ps. \<exists>e \<le> now. due q t = Some (Some e, v)) \<and>
     due q' = (due q) |` (- set (map fst ps)) \<and>
     (length ps < n \<longrightarrow> (\<forall>t e v. due q' t = Some (Some e, v) \<longrightarrow> now < e))"
proof (induction n arbitrary: q)
  case 0
  then show ?case
    by (simp add: restrict_map_def fun_eq_iff)
next
  case (Suc n)
  obtain r q1 where q1: "pop q now = Some (r, q1)" "dinv q1"
    "case r of
       None \<Rightarrow> q1 = q \<and> (\<forall>t e v. due q t = Some (Some e, v) \<longrightarrow> now < e)
     | Some (t, v) \<Rightarrow> due q1 = (due q)(t := None) \<and>
         (\<exists>e. due q t = Some (Some e, v) \<and> e \<le> now \<and>
           (\<forall>t' e' v'. due q t' = Some (Some e', v') \<longrightarrow> e \<le> e'))"
    using pop_ok [OF Suc.prems, of now] by blast
  show ?case
  proof (cases r)
    case None
    then show ?thesis
      using q1 Suc.prems by (simp add: restrict_map_def fun_eq_iff)
  next
    case (Some p)
    obtain t v where p: "p = (t, v)"
      by fastforce
    obtain e where e: "due q1 = (due q)(t := None)" "due q t = Some (Some e, v)" "e \<le> now"
      "\<And>t' e' v'. due q t' = Some (Some e', v') \<Longrightarrow> e \<le> e'"
      using q1(3) by (auto simp: Some p)
    obtain ps q' where ps: "drain n q1 now = Some (ps, q')" "dinv q'" "length ps \<le> n"
      "distinct (map fst ps)" "sorted (map (\<lambda>p. deadline q1 (fst p)) ps)"
      "\<forall>(t, v) \<in> set ps. \<exists>e \<le> now. due q1 t = Some (Some e, v)"
      "due q' = (due q1) |` (- set (map fst ps))"
      "length ps < n \<longrightarrow> (\<forall>t e v. due q' t = Some (Some e, v) \<longrightarrow> now < e)"
      using Suc.IH [OF q1(2)] by (elim exE conjE)
    have mem: "t' \<noteq> t \<and> (\<exists>e'. due q t' = Some (Some e', v') \<and> e' \<le> now \<and> deadline q1 t' = e' \<and> deadline q t' = e')"
      if "(t', v') \<in> set ps" for t' v'
      using ps(6) that by (fastforce simp: e(1) deadline_def split: if_splits)
    then have notin: "t \<notin> set (map fst ps)"
      by fastforce
    have same: "map (\<lambda>p. deadline q1 (fst p)) ps = map (\<lambda>p. deadline q (fst p)) ps"
      using mem by auto
    have "sorted (map (\<lambda>p. deadline q (fst p)) (p # ps))"
      using ps(5) mem e(2,4) unfolding same by (fastforce simp: p deadline_def)
    moreover have "due q' = (due q) |` (- set (map fst (p # ps)))"
      by (auto simp: ps(7) e(1) p restrict_map_def fun_eq_iff)
    moreover have "\<forall>(t, v) \<in> set (p # ps). \<exists>e \<le> now. due q t = Some (Some e, v)"
      using mem e(2,3) by (auto simp: p)
    moreover have "drain (Suc n) q now = Some (p # ps, q')"
      using q1(1) ps(1) by (simp add: Some)
    ultimately show ?thesis
      using ps(2-4,8) notin by (intro exI [of _ "p # ps"] exI [of _ q']) (simp add: p)
  qed
qed

end

interpretation tq: deadline_queue tq_inv tok_map pop_expired
proof unfold_locales
  fix q :: "'a timer_queue" and now
  assume "tq_inv q"
  from pop_expired_ok [OF this, of now]
  show "\<exists>r q'. pop_expired q now = Some (r, q') \<and> tq_inv q' \<and>
    (case r of
       None \<Rightarrow> q' = q \<and> (\<forall>t e v. tok_map q t = Some (Some e, v) \<longrightarrow> now < e)
     | Some (t, v) \<Rightarrow> tok_map q' = (tok_map q)(t := None) \<and>
         (\<exists>e. tok_map q t = Some (Some e, v) \<and> e \<le> now \<and>
           (\<forall>t' e' v'. tok_map q t' = Some (Some e', v') \<longrightarrow> e \<le> e')))"
    by (elim exE) (auto split: option.splits)
qed

section \<open>The queue as a transition system\<close>

definition tq_init :: "'a timer_queue \<Rightarrow> bool" where
  "tq_init q \<longleftrightarrow> q = unbound \<or> (\<exists>own. Timer_Queue.new own = Some q)"

inductive tq_step :: "'a timer_queue \<Rightarrow> 'a timer_queue \<Rightarrow> bool" where
  tq_bind: "bind_owner q own = (b, q') \<Longrightarrow> tq_step q q'"
| tq_register: "try_register hroom aroom q e v = Some (r, q') \<Longrightarrow> tq_step q q'"
| tq_cancel: "token_slot t \<noteq> None \<Longrightarrow> cancel q t = Some (r, q') \<Longrightarrow> tq_step q q'"
| tq_value: "token_slot t \<noteq> None \<Longrightarrow> value_mut f q t = Some (r, q') \<Longrightarrow> tq_step q q'"
| tq_park: "token_slot t \<noteq> None \<Longrightarrow> park q t = Some (b, q') \<Longrightarrow> tq_step q q'"
| tq_reschedule: "token_slot t \<noteq> None \<Longrightarrow> reschedule q t e = Some (b, q') \<Longrightarrow> tq_step q q'"
| tq_pop: "pop_expired q now = Some (p, q') \<Longrightarrow> tq_step q q'"

lemma bind_owner_ok:
  assumes "tq_inv q" "bind_owner q own = (b, q')"
  shows "tq_inv q'" "evolves q q'"
proof -
  have own: "own \<le> 255" if "\<not> unat OWNER_MASK < own"
    using that by (simp add: mask_values)
  have "tq_inv (q\<lparr>owner_slot := Some own\<rparr>)" if "own \<le> 255"
    using assms(1) that
    by (simp add: tq_inv_def heaped_def skel_def free_list_def hwf_def key_at_def [abs_def])
  then show "tq_inv q'" "evolves q q'"
    using assms own by (auto simp: bind_owner_def evolves_def split: if_splits option.splits)
qed

lemma tq_step_ok:
  assumes "tq_inv q" "tq_step q q'"
  shows "tq_inv q' \<and> evolves q q'"
  using assms(2)
proof cases
  case (tq_bind own b)
  then show ?thesis
    using bind_owner_ok assms(1) by blast
next
  case (tq_register hroom aroom e v r)
  then show ?thesis
    using try_register_ok [OF assms(1), of hroom aroom e v] by auto
next
  case (tq_cancel t r)
  then show ?thesis
    using cancel_ok [OF assms(1), of t] by auto
next
  case (tq_value t f r)
  then show ?thesis
    using value_mut_ok [OF assms(1), of t f] by auto
next
  case (tq_park t b)
  then show ?thesis
    using park_ok [OF assms(1), of t] by auto
next
  case (tq_reschedule t e b)
  then show ?thesis
    using reschedule_ok [OF assms(1), of t e] by auto
next
  case (tq_pop now p)
  then show ?thesis
    using pop_expired_ok [OF assms(1), of now] by auto
qed

lemma tq_init_inv: "tq_init q \<Longrightarrow> tq_inv q"
  by (auto simp: tq_init_def unbound_def Timer_Queue.new_def tq_inv_def heaped_def skel_def free_list_def hwf_def
      ordered_def mask_values exI [of _ "[]"] split: if_splits)

interpretation tq_run: lifetimes tq_init tq_step tq_inv dead
proof unfold_locales
  show "tq_inv q" if "tq_init q" for q :: "'a timer_queue"
    using that by (rule tq_init_inv)
  show "tq_inv q'" if "tq_inv q" "tq_step q q'" for q q' :: "'a timer_queue"
    using tq_step_ok [OF that] by (rule conjunct1)
  show "dead q' t" if "tq_inv q" "tq_step q q'" "dead q t" for q q' :: "'a timer_queue" and t
    using tq_evolves_dead [OF conjunct2 [OF tq_step_ok [OF that(1,2)]] that(3)] .
qed

definition tq_reachable :: "'a timer_queue \<Rightarrow> bool" where
  "tq_reachable q \<longleftrightarrow> (\<exists>q0. tq_init q0 \<and> tq_step\<^sup>*\<^sup>* q0 q)"

lemma tq_reachable_inv: "tq_reachable q \<Longrightarrow> tq_inv q"
  unfolding tq_reachable_def using tq_run.inv_reachable by blast

lemma tq_reachable_step: "tq_reachable q \<Longrightarrow> tq_step q q' \<Longrightarrow> tq_reachable q'"
  unfolding tq_reachable_def using rtranclp.rtrancl_into_rtrancl by metis

lemma tok_map_finite: "finite (dom (tok_map q)) \<and> card (dom (tok_map q)) \<le> length (arena q)"
proof (cases "owner_slot q")
  case None
  then have "dom (tok_map q) = {}"
    by (auto simp: tok_map_def)
  then show ?thesis
    by simp
next
  case (Some own)
  let ?T = "(\<lambda>s. token_new own s (gen_of q s)) ` {..<length (arena q)}"
  have "dom (tok_map q) \<subseteq> ?T"
  proof
    fix t assume "t \<in> dom (tok_map q)"
    then obtain x where "tok_map q t = Some x"
      by blast
    from token_present [OF this] obtain own' s where "owner_slot q = Some own'" "s < length (arena q)"
      "t = token_new own' s (gen_of q s)"
      by metis
    then show "t \<in> ?T"
      using Some by simp
  qed
  moreover have "finite ?T" "card ?T \<le> length (arena q)"
    using card_image_le [of "{..<length (arena q)}" "\<lambda>s. token_new own s (gen_of q s)"] by simp_all
  ultimately show ?thesis
    using card_mono [of ?T "dom (tok_map q)"] finite_subset [of "dom (tok_map q)" ?T] by linarith
qed

text \<open>The queue of owner 3 after registering a timer for 20 and one for 10.\<close>

definition timer_demo :: "nat timer_queue" where
  "timer_demo =
     \<lparr>owner_slot = Some 3, arena = [\<lparr>sl_gen = 1, sl_state = Occupied 20 7 1\<rparr>, \<lparr>sl_gen = 1, sl_state = Occupied 10 8 0\<rparr>],
      free_head = None, heap = [1, 0], live = 2\<rparr>"

lemmas timer_eval = try_register_def take_slot_def set_slot_state_def at_def expires_at_def heap_key_def
  swap_heap_def set_heap_index_def usize_add_def usize_sub_def mask_values

lemma timer_demo_run: "tq_reachable timer_demo"
proof -
  let ?q0 = "\<lparr>owner_slot = Some 3, arena = [], free_head = None, heap = [], live = 0\<rparr> :: nat timer_queue"
  let ?q1 = "\<lparr>owner_slot = Some 3, arena = [\<lparr>sl_gen = 1, sl_state = Occupied 20 7 0\<rparr>],
      free_head = None, heap = [0], live = 1\<rparr> :: nat timer_queue"
  have "tq_init ?q0"
    by (auto simp: tq_init_def Timer_Queue.new_def mask_values intro!: exI [of _ 3])
  then have "tq_reachable ?q0"
    by (auto simp: tq_reachable_def)
  moreover have "try_register True True ?q0 20 7 = Some (Ok (token_new 3 0 1), ?q1)"
    by (simp add: timer_eval sift_up.simps)
  then have "tq_step ?q0 ?q1"
    by (rule tq_register)
  moreover have "try_register True True ?q1 10 8 = Some (Ok (token_new 3 1 1), timer_demo)"
    by (simp add: timer_eval timer_demo_def sift_up.simps [of _ "Suc 0"] sift_up.simps [of _ 0])
  then have "tq_step ?q1 timer_demo"
    by (rule tq_register)
  ultimately show ?thesis
    using tq_reachable_step by blast
qed

lemma timer_demo_slot: "token_slot (token_new 3 0 1) = Some 0" "token_slot (token_new 3 1 1) = Some 1"
  using token_new_parts(2) [of 3 0 1] token_new_parts(2) [of 3 1 1]
  by (simp_all add: word_le_nat_alt mask_values(4))

section \<open>Properties\<close>

text \<open>
  A token names what it was built from: for an owner slot that fits 8 bits, an arena
  slot below \<open>2^28 - 1\<close> and a generation up to \<open>GENERATION_MAX\<close>, unpacking the 63 bit raw value
  gives the three parts back; and every raw value with a non-zero slot field is the token of its
  own parts.
\<close>

theorem timer_token_roundtrip:
  "(own \<le> 255 \<and> s < 2 ^ 28 - 1 \<and> g \<le> GENERATION_MAX \<longrightarrow>
      token_owner_slot (token_new own s g) = own \<and> token_slot (token_new own s g) = Some s \<and>
      token_generation (token_new own s g) = g) \<and>
   (token_slot t = Some s' \<longrightarrow> t = token_new (token_owner_slot t) s' (token_generation t))"
  using token_new_parts [of own s g] token_of_parts [of t s'] by blast

text \<open>
  Claim C14. In every state a queue can reach no operation panics on a token with a slot field, and the
  operations are those of the map from tokens to deadlines (none when parked) and values.
  \<open>try_register\<close> fails without a change, and only when unbound, out of memory or out of slots;
  otherwise it returns a token not in use and binds it. \<open>cancel\<close> returns and unbinds the value, \<open>value_mut\<close>
  changes the value, \<open>park\<close> drops the deadline and \<open>reschedule\<close> sets it, each leaving every other
  token alone and a token that is not bound unanswered.
\<close>

theorem timer_queue_refines_map:
  assumes "tq_reachable q" "token_slot t \<noteq> None"
  shows "(\<exists>r q'. try_register hroom aroom q e v = Some (r, q') \<and>
      (case r of
         Err _ \<Rightarrow> q' = q \<and> (owner_slot q = None \<or> \<not> hroom \<or>
           free_head q = None \<and> (\<not> aroom \<or> length (arena q) = 2 ^ 28 - 1))
       | Ok t' \<Rightarrow> tok_map q t' = None \<and> tok_map q' = (tok_map q)(t' \<mapsto> (Some e, v)) \<and> token_slot t' \<noteq> None)) \<and>
    (\<exists>q'. cancel q t = Some (map_option snd (tok_map q t), q') \<and> tok_map q' = (tok_map q)(t := None)) \<and>
    (\<exists>q'. value_mut f q t = Some (map_option snd (tok_map q t), q') \<and>
      tok_map q' = (tok_map q)(t := map_option (apsnd f) (tok_map q t))) \<and>
    (\<exists>q'. park q t = Some (tok_map q t \<noteq> None, q') \<and>
      tok_map q' = (tok_map q)(t := map_option (\<lambda>x. (None, snd x)) (tok_map q t))) \<and>
    (\<exists>q'. reschedule q t e = Some (tok_map q t \<noteq> None, q') \<and>
      tok_map q' = (tok_map q)(t := map_option (\<lambda>x. (Some e, snd x)) (tok_map q t)))"
proof -
  note i = tq_reachable_inv [OF assms(1)]
  note r = try_register_ok [OF i, of hroom aroom e v] cancel_ok [OF i assms(2)] value_mut_ok [OF i assms(2), of f]
    park_ok [OF i assms(2)] reschedule_ok [OF i assms(2), of e]
  show ?thesis
    by (intro conjI) (use r in blast)+
qed

theorem timer_queue_refines_map_witness:
  "\<exists>q'. reschedule timer_demo (token_new 3 0 1) 5 = Some (tok_map timer_demo (token_new 3 0 1) \<noteq> None, q') \<and>
     tok_map q' = (tok_map timer_demo)
       (token_new 3 0 1 := map_option (\<lambda>x. (Some 5, snd x)) (tok_map timer_demo (token_new 3 0 1)))"
  using timer_queue_refines_map [of timer_demo "token_new 3 0 1" _ _ 5] timer_demo_run timer_demo_slot by simp

text \<open>
  Claim C16. A token that was cancelled or popped is dead for good: whatever is done with the queue later,
  it stays unbound, cancelling, parking or rescheduling it changes nothing, and no registration
  returns it again.
\<close>

theorem timer_tokens_die:
  assumes "tq_reachable q" "tok_map q t \<noteq> None" "token_slot t \<noteq> None"
    and "cancel q t = Some (r, q1) \<or> pop_expired q now = Some (Some (t, v), q1)"
    and "tq_step\<^sup>*\<^sup>* q1 q2"
  shows "tok_map q2 t = None \<and> cancel q2 t = Some (None, q2) \<and> park q2 t = Some (False, q2) \<and>
    reschedule q2 t e = Some (False, q2) \<and>
    \<not> (\<exists>hroom aroom e' v' q3. try_register hroom aroom q2 e' v' = Some (Ok t, q3))"
proof -
  note i = tq_reachable_inv [OF assms(1)]
  have "dead q1 t \<and> tq_inv q1"
    using assms(4) cancel_ok [OF i assms(3)] assms(2) pop_expired_ok [OF i, of now] by auto
  then have d: "dead q2 t" "tq_inv q2"
    using tq_run.dead_forever [OF assms(5)] tq_run.inv_steps [OF assms(5)] by blast+
  then have n: "tok_map q2 t = None"
    by (simp add: dead_tok_map)
  have "False" if r: "try_register hroom aroom q2 e' v' = Some (Ok t, q3)" for hroom aroom e' v' q3
  proof -
    have "evolves q2 q3 \<and> tok_map q3 t \<noteq> None"
      using try_register_ok [OF d(2), of hroom aroom e' v'] r by auto
    then have "dead q3 t" "tok_map q3 t \<noteq> None"
      using tq_evolves_dead [of q2 q3 t] d(1) by simp_all
    then show False
      by (simp add: dead_tok_map)
  qed
  then show ?thesis
    using n ops_absent [OF n assms(3)] by blast
qed

theorem timer_tokens_die_witness:
  "\<exists>r q1. cancel timer_demo (token_new 3 0 1) = Some (r, q1) \<and> tok_map q1 (token_new 3 0 1) = None \<and>
     reschedule q1 (token_new 3 0 1) 5 = Some (False, q1)"
proof -
  obtain q1 where c: "cancel timer_demo (token_new 3 0 1) = Some (map_option snd (tok_map timer_demo (token_new 3 0 1)), q1)"
    using cancel_ok [OF tq_reachable_inv [OF timer_demo_run], of "token_new 3 0 1"] timer_demo_slot by auto
  have "tok_map timer_demo (token_new 3 0 1) \<noteq> None"
    using tok_map_new [of timer_demo 3 0] tq_reachable_inv [OF timer_demo_run]
    by (simp add: tq_inv_def timer_demo_def gen_of_def view_def)
  then show ?thesis
    using timer_tokens_die [OF timer_demo_run _ _ disjI1 [OF c] rtranclp.rtrancl_refl, where e = 5] timer_demo_slot c
    by simp
qed

text \<open>
  Claim C15. A tick that pops until nothing is due ends, after at most one pop per arena slot: it returns
  every timer whose deadline has passed, once each and in deadline order, leaves all others as they were, and
  afterwards nothing is due.
\<close>

theorem timer_drain_complete:
  assumes "tq_reachable q"
  shows "\<exists>ps q'. tq.drain (Suc (length (arena q))) q now = Some (ps, q') \<and> length ps \<le> length (arena q) \<and>
    distinct (map fst ps) \<and> sorted (map (\<lambda>p. tq.deadline q (fst p)) ps) \<and>
    set ps = {(t, v). \<exists>e \<le> now. tok_map q t = Some (Some e, v)} \<and>
    tok_map q' = tok_map q |` (- set (map fst ps)) \<and>
    (\<forall>t e v. tok_map q' t = Some (Some e, v) \<longrightarrow> now < e)"
proof -
  let ?n = "Suc (length (arena q))"
  obtain ps q' where ps: "tq.drain ?n q now = Some (ps, q')" "distinct (map fst ps)"
    "sorted (map (\<lambda>p. tq.deadline q (fst p)) ps)"
    "\<forall>(t, v) \<in> set ps. \<exists>e \<le> now. tok_map q t = Some (Some e, v)"
    "tok_map q' = tok_map q |` (- set (map fst ps))"
    "length ps < ?n \<longrightarrow> (\<forall>t e v. tok_map q' t = Some (Some e, v) \<longrightarrow> now < e)"
    using tq.drain_ok [OF tq_reachable_inv [OF assms], of ?n now] by (elim exE conjE)
  have "set (map fst ps) \<subseteq> dom (tok_map q)"
    using ps(4) by fastforce
  then have "length ps \<le> length (arena q)"
    using distinct_card [OF ps(2)] tok_map_finite [of q] card_mono [of "dom (tok_map q)" "set (map fst ps)"]
    by (simp del: set_map)
  moreover from this have none: "\<forall>t e v. tok_map q' t = Some (Some e, v) \<longrightarrow> now < e"
    using ps(6) by simp
  have "(t, v) \<in> set ps" if "e \<le> now" "tok_map q t = Some (Some e, v)" for t e v
  proof -
    have "t \<in> set (map fst ps)"
      using none that by (auto simp: ps(5) restrict_map_def split: if_splits)
    then obtain v' where "(t, v') \<in> set ps"
      by auto
    then show ?thesis
      using ps(4) that(2) by fastforce
  qed
  then have "set ps = {(t, v). \<exists>e \<le> now. tok_map q t = Some (Some e, v)}"
    using ps(4) by fast
  ultimately show ?thesis
    using ps(1-3,5) none by blast
qed

theorem timer_drain_complete_witness:
  "\<exists>ps q'. tq.drain 3 timer_demo 15 = Some (ps, q') \<and> length ps \<le> 2 \<and>
    set ps = {(t, v). \<exists>e \<le> 15. tok_map timer_demo t = Some (Some e, v)}"
proof -
  have "Suc (length (arena timer_demo)) = 3" "length (arena timer_demo) = 2"
    by (simp_all add: timer_demo_def)
  then show ?thesis
    using timer_drain_complete [OF timer_demo_run, of 15] by metis
qed

end
