(* ===== verification/Work_Debt.thy ===== *)
theory Work_Debt
  imports Monotonic_Id
begin

text \<open>
  The queues of deferred work of \<open>os/work_debt\<close>: a fixed array of slots, one FIFO chain of slots
  per owner, and affine tokens (reservation, finish, wake) that name a slot and its generation.
  \<open>FairBudget\<close>, the budget of a safe point, is at the end.

  The const generics \<open>OWNERS\<close> and \<open>SLOTS\<close> are the lengths of the arrays. Failed assertions and
  \<open>expect\<close> are \<^const>\<open>None\<close>. \<open>Work_Debt_Props\<close> holds the invariant and the properties.
\<close>

section \<open>Data\<close>

datatype reserve_error = Full

datatype phase = Empty | Reserved | Pending | Taken | Parked | Retired

record 'a slot =
  generation :: u32
  phase :: phase
  owner :: nat
  "next" :: "nat option"
  "value" :: "'a option"
  wake_armed :: bool
  woken :: bool

definition empty_slot :: "'a slot" where
  "empty_slot = \<lparr>generation = 1, phase = Empty, owner = 0, next = None, value = None,
     wake_armed = False, woken = False\<rparr>"

datatype table_id = TableId u64

definition TableId_new :: "u64 \<Rightarrow> table_id option" where
  "TableId_new v = (if v \<noteq> 0 then Some (TableId v) else None)"

datatype reservation = Reservation (res_table: table_id) (res_slot: nat) (res_generation: u32)

datatype finish_token =
  FinishToken (fin_table: table_id) (fin_owner: nat) (fin_slot: nat) (fin_generation: u32)

datatype wake_token =
  WakeToken (wake_table: table_id) (wake_owner: nat) (wake_slot: nat) (wake_generation: u32)

datatype 'a taken = TakenWork finish_token 'a

datatype 'a publish_error = PublishError reservation 'a

datatype 'a requeue_error = RequeueError finish_token 'a

datatype park_result = ParkParked | ParkRunnable

datatype wake_result = Latched | WakeRunnable nat

record 'a work_debts =
  table_id :: table_id
  slots :: "'a slot list"
  heads :: "nat option list"
  tails :: "nat option list"
  reserve_cursor :: nat

section \<open>Operations\<close>

definition new_with_id :: "table_id \<Rightarrow> nat \<Rightarrow> nat \<Rightarrow> 'a work_debts option" where
  "new_with_id tid owners n =
     (if 0 < owners \<and> 0 < n
      then Some \<lparr>table_id = tid, slots = replicate n empty_slot, heads = replicate owners None,
        tails = replicate owners None, reserve_cursor = 0\<rparr>
      else None)"

text \<open>
  \<open>try_new\<close> draws from the shared identity sequence; the inner option is its answer, the outer
  one a failed assertion.
\<close>

definition try_new ::
  "atomic_id64 \<Rightarrow> nat \<Rightarrow> nat \<Rightarrow> ('a work_debts option \<times> atomic_id64) option" where
  "try_new ids owners n =
     (case allocate ids of
        (None, ids') \<Rightarrow> Some (None, ids')
      | (Some i, ids') \<Rightarrow>
          do {
            tid \<leftarrow> TableId_new i;
            d \<leftarrow> new_with_id tid owners n;
            Some (Some d, ids')
          })"

definition entry_mut :: "'a work_debts \<Rightarrow> nat \<Rightarrow> u32 \<Rightarrow> 'a slot option" where
  "entry_mut d s g =
     (case at (slots d) s of
        None \<Rightarrow> None
      | Some e \<Rightarrow> if generation e = g then Some e else None)"

text \<open>Writing an entry back through its reference.\<close>

definition put :: "'a work_debts \<Rightarrow> nat \<Rightarrow> 'a slot \<Rightarrow> 'a work_debts" where
  "put d s e = d\<lparr>slots := (slots d)[s := e]\<rparr>"

definition append_slot :: "'a work_debts \<Rightarrow> nat \<Rightarrow> nat \<Rightarrow> 'a work_debts option" where
  "append_slot d o' s =
     do {
       old \<leftarrow> at (tails d) o';
       let d1 = d\<lparr>tails := (tails d)[o' := Some s]\<rparr>;
       (case old of
          Some t \<Rightarrow>
            do {
              e \<leftarrow> at (slots d1) t;
              if next e = None then Some (put d1 t (e\<lparr>next := Some s\<rparr>)) else None
            }
        | None \<Rightarrow>
            do {
              h \<leftarrow> at (heads d1) o';
              if h = None then Some (d1\<lparr>heads := (heads d1)[o' := Some s]\<rparr>) else None
            })
     }"

definition reserve_in ::
  "'a work_debts \<Rightarrow> nat \<Rightarrow> nat \<Rightarrow> (reservation, reserve_error) result \<times> 'a work_debts" where
  "reserve_in d a b =
     (if a \<ge> b \<or> b > length (slots d) then (Err Full, d)
      else
        let cursor = (if a \<le> reserve_cursor d \<and> reserve_cursor d < b then reserve_cursor d else a) in
        (case find (\<lambda>s. phase (slots d ! s) = Empty) ([cursor..<b] @ [a..<cursor]) of
           None \<Rightarrow> (Err Full, d)
         | Some s \<Rightarrow>
             (Ok (Reservation (table_id d) s (generation (slots d ! s))),
              (put d s ((slots d ! s)\<lparr>phase := Reserved\<rparr>))
                \<lparr>reserve_cursor := (s + 1) mod length (slots d)\<rparr>)))"

definition reserve :: "'a work_debts \<Rightarrow> (reservation, reserve_error) result \<times> 'a work_debts" where
  "reserve d = reserve_in d 0 (length (slots d))"

definition cancel :: "'a work_debts \<Rightarrow> reservation \<Rightarrow> (unit, reservation) result \<times> 'a work_debts" where
  "cancel d r =
     (if res_table r \<noteq> table_id d then (Err r, d)
      else case entry_mut d (res_slot r) (res_generation r) of
        None \<Rightarrow> (Err r, d)
      | Some e \<Rightarrow>
          if phase e \<noteq> Reserved then (Err r, d)
          else (Ok (), put d (res_slot r) (e\<lparr>phase := Empty\<rparr>)))"

definition publish ::
  "'a work_debts \<Rightarrow> reservation \<Rightarrow> nat \<Rightarrow> 'a \<Rightarrow> ((unit, 'a publish_error) result \<times> 'a work_debts) option" where
  "publish d r o' v =
     (if res_table r \<noteq> table_id d \<or> o' \<ge> length (heads d) then Some (Err (PublishError r v), d)
      else case entry_mut d (res_slot r) (res_generation r) of
        None \<Rightarrow> Some (Err (PublishError r v), d)
      | Some e \<Rightarrow>
          if phase e \<noteq> Reserved then Some (Err (PublishError r v), d)
          else do {
            let e' = e\<lparr>owner := o', next := None, value := Some v, phase := Pending\<rparr>;
            d' \<leftarrow> append_slot (put d (res_slot r) e') o' (res_slot r);
            Some (Ok (), d')
          })"

definition take_debt :: "'a work_debts \<Rightarrow> nat \<Rightarrow> ('a taken option \<times> 'a work_debts) option" where
  "take_debt d o' =
     (case at (heads d) o' of
        None \<Rightarrow> Some (None, d)
      | Some None \<Rightarrow> Some (None, d)
      | Some (Some s) \<Rightarrow>
          do {
            e \<leftarrow> at (slots d) s;
            if phase e \<noteq> Pending \<or> owner e \<noteq> o' then None
            else do {
              let nx = next e;
              let d1 = d\<lparr>heads := (heads d)[o' := nx]\<rparr>;
              let d2 = (if nx = None then d1\<lparr>tails := (tails d1)[o' := None]\<rparr> else d1);
              v \<leftarrow> value e;
              Some (Some (TakenWork (FinishToken (table_id d) o' s (generation e)) v),
                put d2 s (e\<lparr>next := None, phase := Taken, woken := False, value := None\<rparr>))
            }
          })"

text \<open>The guard \<open>requeue\<close>, \<open>finish\<close> and \<open>rearm\<close> share: the entry the token may hand back.\<close>

definition idle_entry :: "'a work_debts \<Rightarrow> finish_token \<Rightarrow> 'a slot option" where
  "idle_entry d t =
     (if fin_table t \<noteq> table_id d then None
      else case entry_mut d (fin_slot t) (fin_generation t) of
        None \<Rightarrow> None
      | Some e \<Rightarrow>
          if phase e \<noteq> Taken \<or> owner e \<noteq> fin_owner t \<or> wake_armed e then None else Some e)"

definition requeue ::
  "'a work_debts \<Rightarrow> finish_token \<Rightarrow> 'a \<Rightarrow> ((unit, 'a requeue_error) result \<times> 'a work_debts) option" where
  "requeue d t v =
     (case idle_entry d t of
        None \<Rightarrow> Some (Err (RequeueError t v), d)
      | Some e \<Rightarrow>
          do {
            let e' = e\<lparr>value := Some v, next := None, phase := Pending\<rparr>;
            d' \<leftarrow> append_slot (put d (fin_slot t) e') (fin_owner t) (fin_slot t);
            Some (Ok (), d')
          })"

definition arm_wake :: "'a work_debts \<Rightarrow> finish_token \<Rightarrow> wake_token option \<times> 'a work_debts" where
  "arm_wake d t =
     (if fin_table t \<noteq> table_id d then (None, d)
      else case entry_mut d (fin_slot t) (fin_generation t) of
        None \<Rightarrow> (None, d)
      | Some e \<Rightarrow>
          if phase e \<noteq> Taken \<or> owner e \<noteq> fin_owner t \<or> wake_armed e \<or> woken e then (None, d)
          else
            (Some (WakeToken (fin_table t) (fin_owner t) (fin_slot t) (fin_generation t)),
             put d (fin_slot t) (e\<lparr>wake_armed := True\<rparr>)))"

definition cancel_wake ::
  "'a work_debts \<Rightarrow> wake_token \<Rightarrow> (unit, wake_token) result \<times> 'a work_debts" where
  "cancel_wake d w =
     (if wake_table w \<noteq> table_id d then (Err w, d)
      else case entry_mut d (wake_slot w) (wake_generation w) of
        None \<Rightarrow> (Err w, d)
      | Some e \<Rightarrow>
          if phase e \<noteq> Taken \<or> owner e \<noteq> wake_owner w \<or> \<not> wake_armed e then (Err w, d)
          else (Ok (), put d (wake_slot w) (e\<lparr>wake_armed := False\<rparr>)))"

definition park ::
  "'a work_debts \<Rightarrow> finish_token \<Rightarrow> 'a \<Rightarrow>
     ((park_result, 'a requeue_error) result \<times> 'a work_debts) option" where
  "park d t v =
     (if fin_table t \<noteq> table_id d then Some (Err (RequeueError t v), d)
      else case entry_mut d (fin_slot t) (fin_generation t) of
        None \<Rightarrow> Some (Err (RequeueError t v), d)
      | Some e \<Rightarrow>
          if phase e \<noteq> Taken \<or> owner e \<noteq> fin_owner t \<or> \<not> (wake_armed e \<or> woken e)
          then Some (Err (RequeueError t v), d)
          else
            let e1 = e\<lparr>value := Some v, next := None\<rparr> in
            if woken e1 then do {
              d' \<leftarrow> append_slot (put d (fin_slot t) (e1\<lparr>woken := False, phase := Pending\<rparr>))
                (fin_owner t) (fin_slot t);
              Some (Ok ParkRunnable, d')
            }
            else Some (Ok ParkParked, put d (fin_slot t) (e1\<lparr>phase := Parked\<rparr>)))"

definition wake ::
  "'a work_debts \<Rightarrow> wake_token \<Rightarrow> ((wake_result, wake_token) result \<times> 'a work_debts) option" where
  "wake d w =
     (if wake_table w \<noteq> table_id d then Some (Err w, d)
      else case entry_mut d (wake_slot w) (wake_generation w) of
        None \<Rightarrow> Some (Err w, d)
      | Some e \<Rightarrow>
          if owner e \<noteq> wake_owner w \<or> \<not> wake_armed e \<or> \<not> (phase e = Taken \<or> phase e = Parked)
          then Some (Err w, d)
          else
            let e1 = e\<lparr>wake_armed := False\<rparr> in
            if phase e1 = Taken then Some (Ok Latched, put d (wake_slot w) (e1\<lparr>woken := True\<rparr>))
            else do {
              d' \<leftarrow> append_slot (put d (wake_slot w) (e1\<lparr>phase := Pending\<rparr>)) (wake_owner w) (wake_slot w);
              Some (Ok (WakeRunnable (wake_owner w)), d')
            })"

definition finish ::
  "'a work_debts \<Rightarrow> finish_token \<Rightarrow> ((unit, finish_token) result \<times> 'a work_debts) option" where
  "finish d t =
     (case idle_entry d t of
        None \<Rightarrow> Some (Err t, d)
      | Some e \<Rightarrow>
          if value e \<noteq> None then None
          else if generation e = - 1 then Some (Ok (), put d (fin_slot t) (e\<lparr>phase := Retired\<rparr>))
          else Some (Ok (),
            put d (fin_slot t) (e\<lparr>generation := generation e + 1, phase := Empty\<rparr>)))"

definition rearm ::
  "'a work_debts \<Rightarrow> finish_token \<Rightarrow> ((reservation, finish_token) result \<times> 'a work_debts) option" where
  "rearm d t =
     (case idle_entry d t of
        None \<Rightarrow> Some (Err t, d)
      | Some e \<Rightarrow>
          if value e \<noteq> None then None
          else Some (Ok (Reservation (fin_table t) (fin_slot t) (fin_generation t)),
            put d (fin_slot t) (e\<lparr>phase := Reserved\<rparr>)))"

definition has_pending :: "'a work_debts \<Rightarrow> nat \<Rightarrow> bool" where
  "has_pending d o' = (case at (heads d) o' of Some (Some _) \<Rightarrow> True | _ \<Rightarrow> False)"

definition available :: "'a work_debts \<Rightarrow> nat" where
  "available d = length (filter (\<lambda>e. phase e = Empty) (slots d))"

section \<open>The fair budget\<close>

record fair_budget =
  total :: nat
  turn_limit :: nat
  pending :: "bool list"
  used :: nat
  class_index :: nat

definition FairBudget_new :: "nat \<Rightarrow> nat \<Rightarrow> bool list \<Rightarrow> fair_budget option" where
  "FairBudget_new tot lim ps =
     (if 0 < lim \<and> length (filter id ps) \<le> tot
      then Some \<lparr>total = tot, turn_limit = lim, pending = ps, used = 0, class_index = 0\<rparr>
      else None)"

text \<open>\<open>saturating_sub\<close> is the subtraction of natural numbers.\<close>

definition remaining :: "fair_budget \<Rightarrow> nat \<Rightarrow> (nat \<times> fair_budget) option" where
  "remaining b c =
     (if c < length (pending b) \<and> class_index b \<le> c
      then Some (total b - length (filter id (drop (c + 1) (pending b))) - used b, b\<lparr>class_index := c\<rparr>)
      else None)"

definition turn :: "fair_budget \<Rightarrow> nat \<Rightarrow> (nat \<times> fair_budget) option" where
  "turn b c = map_option (\<lambda>(n, b'). (min n (turn_limit b'), b')) (remaining b c)"

definition charge :: "fair_budget \<Rightarrow> nat \<Rightarrow> nat \<Rightarrow> fair_budget option" where
  "charge b c work =
     do {
       (n, b') \<leftarrow> remaining b c;
       if work \<le> n then map_option (\<lambda>u. b'\<lparr>used := u\<rparr>) (usize_add (used b') work) else None
     }"

end
