(* ===== verification/Work_Debt_Props.thy ===== *)
theory Work_Debt_Props
  imports Work_Debt
begin

text \<open>
  The invariant of the work-debt table, its queues as lists of slots, the tokens outstanding as a
  function of the table, and the properties of \<open>Work_Debt\<close>.
\<close>

section \<open>The invariant\<close>

definition slot_ok :: "nat \<Rightarrow> 'a slot \<Rightarrow> bool" where
  "slot_ok owners e \<longleftrightarrow>
     (value e \<noteq> None \<longleftrightarrow> phase e \<in> {Pending, Parked}) \<and> (phase e \<noteq> Pending \<longrightarrow> next e = None) \<and>
     (wake_armed e \<longrightarrow> phase e \<in> {Taken, Parked}) \<and> (phase e = Parked \<longrightarrow> wake_armed e \<and> \<not> woken e) \<and>
     (phase e = Taken \<longrightarrow> \<not> (wake_armed e \<and> woken e)) \<and>
     (phase e \<in> {Pending, Taken, Parked} \<longrightarrow> owner e < owners)"

definition last_of :: "nat list \<Rightarrow> nat option" where
  "last_of is = (if is = [] then None else Some (last is))"

text \<open>
  \<open>queues X d qs\<close>: the chain of every owner \<open>o\<close> is the list \<open>qs o\<close> of its pending slots; the slots
  in \<open>X\<close> are pending and about to be linked.
\<close>

definition chained :: "nat set \<Rightarrow> 'a work_debts \<Rightarrow> nat \<Rightarrow> nat list \<Rightarrow> bool" where
  "chained X d k q \<longleftrightarrow>
     path (\<lambda>s. next (slots d ! s)) (heads d ! k) q \<and> tails d ! k = last_of q \<and> distinct q \<and>
     (\<forall>s \<in> set q. s < length (slots d) \<and> s \<notin> X \<and> phase (slots d ! s) = Pending \<and> owner (slots d ! s) = k)"

definition slotted :: "nat set \<Rightarrow> 'a work_debts \<Rightarrow> (nat \<Rightarrow> nat list) \<Rightarrow> nat \<Rightarrow> bool" where
  "slotted X d qs s \<longleftrightarrow>
     slot_ok (length (heads d)) (slots d ! s) \<and>
     (s \<in> X \<longrightarrow> phase (slots d ! s) = Pending \<and> next (slots d ! s) = None) \<and>
     (phase (slots d ! s) = Pending \<and> s \<notin> X \<longrightarrow> s \<in> set (qs (owner (slots d ! s))))"

definition queues :: "nat set \<Rightarrow> 'a work_debts \<Rightarrow> (nat \<Rightarrow> nat list) \<Rightarrow> bool" where
  "queues X d qs \<longleftrightarrow>
     length (tails d) = length (heads d) \<and> (\<forall>k < length (heads d). chained X d k (qs k)) \<and>
     (\<forall>s < length (slots d). slotted X d qs s)"

lemma queuesD:
  assumes "queues X d qs" "k < length (heads d)"
  shows "path (\<lambda>s. next (slots d ! s)) (heads d ! k) (qs k)" "tails d ! k = last_of (qs k)" "distinct (qs k)"
    "s \<in> set (qs k) \<Longrightarrow> s < length (slots d) \<and> s \<notin> X \<and> phase (slots d ! s) = Pending \<and> owner (slots d ! s) = k"
  using assms unfolding queues_def chained_def by blast+

lemma queues_slot:
  assumes "queues X d qs" "s < length (slots d)"
  shows "slot_ok (length (heads d)) (slots d ! s)"
    "phase (slots d ! s) = Pending \<Longrightarrow> s \<notin> X \<Longrightarrow> s \<in> set (qs (owner (slots d ! s)))"
    "s \<in> X \<Longrightarrow> phase (slots d ! s) = Pending \<and> next (slots d ! s) = None"
  using assms unfolding queues_def slotted_def by blast+

text \<open>A chain does not change when its slots do not.\<close>

lemma chained_cong:
  assumes "chained X d k q" "heads d' ! k = heads d ! k" "tails d' ! k = tails d ! k"
    and "length (slots d') = length (slots d)" "\<And>s. s \<in> set q \<Longrightarrow> slots d' ! s = slots d ! s \<and> s \<notin> X'"
  shows "chained X' d' k q"
  using assms path_cong [of q "\<lambda>s. next (slots d' ! s)" "\<lambda>s. next (slots d ! s)" "heads d ! k"]
  by (simp add: chained_def)

lemma put_debt_sel [simp]:
  "heads (put d s e) = heads d" "tails (put d s e) = tails d" "table_id (put d s e) = table_id d"
  "length (slots (put d s e)) = length (slots d)" "reserve_cursor (put d s e) = reserve_cursor d"
  by (simp_all add: put_def)

lemma put_nth [simp]:
  "s < length (slots d) \<Longrightarrow> slots (put d s e) ! t = (if t = s then e else slots d ! t)"
  by (simp add: put_def nth_list_update)

text \<open>Rewriting a slot that is in no queue.\<close>

lemma queues_put:
  assumes "queues {} d qs" "s < length (slots d)" "phase (slots d ! s) \<noteq> Pending"
    and "slot_ok (length (heads d)) e" "phase e = Pending \<Longrightarrow> next e = None"
  shows "queues (if phase e = Pending then {s} else {}) (put d s e) qs"
proof -
  have notin: "s \<notin> set (qs k)" if "k < length (heads d)" for k
    using queuesD(4) [OF assms(1) that, of s] assms(3) by blast
  let ?X = "if phase e = Pending then {s} else {}"
  have "chained ?X (put d s e) k (qs k)" if "k < length (heads d)" for k
  proof (rule chained_cong [of "{}" d])
    show "chained {} d k (qs k)"
      using assms(1) that unfolding queues_def by blast
    show "slots (put d s e) ! t = slots d ! t \<and> t \<notin> ?X" if "t \<in> set (qs k)" for t
      using that notin [OF \<open>k < length (heads d)\<close>] assms(2) by (cases "t = s") auto
  qed simp_all
  moreover have "slotted ?X (put d s e) qs t" if "t < length (slots d)" for t
    using assms(2,4,5) queues_slot(1,2) [OF assms(1) that] by (cases "t = s") (simp_all add: slotted_def)
  moreover have "length (tails d) = length (heads d)"
    using assms(1) by (simp add: queues_def)
  ultimately show ?thesis
    by (simp add: queues_def)
qed

lemma queues_append:
  assumes "queues {s} d qs" "s < length (slots d)" "owner (slots d ! s) = k"
  shows "\<exists>d'. append_slot d k s = Some d' \<and> queues {} d' (qs(k := qs k @ [s])) \<and>
    table_id d' = table_id d \<and> length (slots d') = length (slots d) \<and> length (heads d') = length (heads d) \<and>
    reserve_cursor d' = reserve_cursor d \<and>
    (\<forall>t < length (slots d). \<exists>n. slots d' ! t = (slots d ! t)\<lparr>next := n\<rparr>)"
proof -
  have s: "phase (slots d ! s) = Pending" "next (slots d ! s) = None"
    using queues_slot(3) [OF assms(1,2)] by blast+
  have k: "k < length (heads d)"
    using queues_slot(1) [OF assms(1,2)] s(1) assms(3) by (simp add: slot_ok_def)
  have kt: "length (tails d) = length (heads d)"
    using assms(1) by (simp add: queues_def)
  note q = queuesD [OF assms(1) k]
  have notin: "s \<notin> set (qs k')" if "k' < length (heads d)" for k'
    using queuesD(4) [OF assms(1) that, of s] by blast
  have ch: "chained {s} d k' (qs k')" if "k' < length (heads d)" for k'
    using assms(1) that by (simp add: queues_def)
  have keep: "\<exists>n. e = e\<lparr>next := n\<rparr>" for e :: "'a slot"
    by (rule exI [of _ "next e"]) simp
  show ?thesis
  proof (cases "qs k = []")
    case True
    let ?d = "d\<lparr>tails := (tails d)[k := Some s], heads := (heads d)[k := Some s]\<rparr>"
    have "append_slot d k s = Some ?d"
      using q(1,2) True k kt by (simp add: append_slot_def at_def last_of_def)
    moreover have "chained {} ?d k' ((qs(k := qs k @ [s])) k')" if "k' < length (heads d)" for k'
    proof (cases "k' = k")
      case True
      then show ?thesis
        using s k kt assms(2,3) \<open>qs k = []\<close> by (simp add: chained_def last_of_def)
    qed (use ch [OF that] in \<open>auto intro: chained_cong\<close>)
    moreover have "slotted {} ?d (qs(k := qs k @ [s])) t" if "t < length (slots d)" for t
      using queues_slot(1,2) [OF assms(1) that] assms(3) by (cases "t = s") (auto simp: slotted_def)
    ultimately show ?thesis
      using kt keep by (simp add: queues_def)
  next
    case False
    let ?t = "last (qs k)"
    define d' where "d' = put (d\<lparr>tails := (tails d)[k := Some s]\<rparr>) ?t ((slots d ! ?t)\<lparr>next := Some s\<rparr>)"
    have t: "?t < length (slots d)" "phase (slots d ! ?t) = Pending" "owner (slots d ! ?t) = k" "?t \<noteq> s"
      using q(4) [of ?t] False notin [OF k] by auto
    have "next (slots d ! ?t) = None"
      using path_last [OF q(1) False] .
    then have a: "append_slot d k s = Some d'"
      using q(2) False k kt t(1) by (simp add: append_slot_def at_def last_of_def d'_def)
    have nth: "slots d' ! i = (if i = ?t then (slots d ! ?t)\<lparr>next := Some s\<rparr> else slots d ! i)" for i
      using t(1) by (simp add: d'_def)
    have sel: "heads d' = heads d" "tails d' = (tails d)[k := Some s]" "length (slots d') = length (slots d)"
      "table_id d' = table_id d" "reserve_cursor d' = reserve_cursor d"
      by (simp_all add: d'_def)
    have "path (\<lambda>i. next (slots d' ! i)) (heads d ! k) (qs k @ [s])"
      using path_snoc [OF q(1) False q(3) notin [OF k] s(2)]
      by (rule iffD1 [OF path_cong, rotated]) (simp add: nth)
    then have "chained {} d' k (qs k @ [s])"
      using q(3,4) notin [OF k] s(1) assms(2,3) k kt by (auto simp: chained_def nth last_of_def sel)
    moreover have "chained {} d' k' (qs k')" if "k' < length (heads d)" "k' \<noteq> k" for k'
    proof (rule chained_cong [OF ch [OF that(1)]])
      have "?t \<notin> set (qs k')"
        using queuesD(4) [OF assms(1) that(1), of ?t] t(3) that(2) by blast
      then show "slots d' ! i = slots d ! i \<and> i \<notin> {}" if "i \<in> set (qs k')" for i
        using that by (auto simp: nth)
    qed (use that in \<open>simp_all add: sel\<close>)
    moreover have "slotted {} d' (qs(k := qs k @ [s])) i" if "i < length (slots d)" for i
    proof -
      have "slot_ok (length (heads d)) (slots d' ! i)"
        using queues_slot(1) [OF assms(1) that] t(2) by (cases "i = ?t") (simp_all add: nth slot_ok_def)
      moreover have "phase (slots d' ! i) = phase (slots d ! i)" "owner (slots d' ! i) = owner (slots d ! i)"
        by (simp_all add: nth)
      ultimately show ?thesis
        using queues_slot(2) [OF assms(1) that] assms(3) by (cases "i = s") (auto simp: slotted_def sel)
    qed
    ultimately have "queues {} d' (qs(k := qs k @ [s]))"
      using kt by (simp add: queues_def sel)
    moreover have "\<exists>n. slots d' ! i = (slots d ! i)\<lparr>next := n\<rparr>" for i
      using keep [of "slots d ! i"] by (auto simp: nth)
    ultimately show ?thesis
      using a by (simp add: sel)
  qed
qed


section \<open>What an operation changes\<close>

text \<open>\<open>eff d s e d'\<close>: the slots of \<open>d'\<close> are those of \<open>d\<close> with \<open>e\<close> at \<open>s\<close>, up to the links.\<close>

definition eff :: "'a work_debts \<Rightarrow> nat \<Rightarrow> 'a slot \<Rightarrow> 'a work_debts \<Rightarrow> bool" where
  "eff d s e d' \<longleftrightarrow>
     table_id d' = table_id d \<and> length (slots d') = length (slots d) \<and> length (heads d') = length (heads d) \<and>
     (\<forall>t < length (slots d). \<exists>n. slots d' ! t = (if t = s then e else slots d ! t)\<lparr>next := n\<rparr>)"

lemma next_update_idem: "\<exists>n. e = e\<lparr>next := n\<rparr>" for e :: "'a slot"
  by (rule exI [of _ "next e"]) simp

lemma eff_put: "s < length (slots d) \<Longrightarrow> eff d s e (put d s e)"
  using next_update_idem by (auto simp: eff_def)

lemma store_ok:
  assumes "queues {} d qs" "s < length (slots d)" "phase (slots d ! s) \<noteq> Pending"
    and "slot_ok (length (heads d)) e" "phase e \<noteq> Pending"
  shows "queues {} (put d s e) qs \<and> eff d s e (put d s e)"
  using queues_put [OF assms(1-4)] assms(5) eff_put [OF assms(2)] by simp

lemma enqueue_ok:
  assumes "queues {} d qs" "s < length (slots d)" "phase (slots d ! s) \<noteq> Pending"
    and "slot_ok (length (heads d)) e" "phase e = Pending" "next e = None" "owner e = k"
  shows "\<exists>d'. append_slot (put d s e) k s = Some d' \<and> queues {} d' (qs(k := qs k @ [s])) \<and> eff d s e d'"
proof -
  have "queues {s} (put d s e) qs"
    using queues_put [OF assms(1-4)] assms(5,6) by simp
  from queues_append [OF this, of k] assms(2,7) obtain d' where d': "append_slot (put d s e) k s = Some d'"
    "queues {} d' (qs(k := qs k @ [s]))" "table_id d' = table_id d" "length (slots d') = length (slots d)"
    "length (heads d') = length (heads d)"
    "\<forall>t < length (slots d). \<exists>n. slots d' ! t = (slots (put d s e) ! t)\<lparr>next := n\<rparr>"
    by auto
  then have "eff d s e d'"
    using assms(2) by (simp add: eff_def)
  then show ?thesis
    using d'(1,2) by blast
qed

definition taken_slot :: "'a slot \<Rightarrow> 'a slot" where
  "taken_slot e = e\<lparr>next := None, phase := Taken, woken := False, value := None\<rparr>"

lemma take_ok:
  assumes "queues {} d qs" "k < length (heads d)" "qs k = s # rest"
  shows "\<exists>v d'. value (slots d ! s) = Some v \<and> s < length (slots d) \<and> phase (slots d ! s) = Pending \<and>
    owner (slots d ! s) = k \<and>
    take_debt d k = Some (Some (TakenWork (FinishToken (table_id d) k s (generation (slots d ! s))) v), d') \<and>
    queues {} d' (qs(k := rest)) \<and> eff d s (taken_slot (slots d ! s)) d'"
proof -
  let ?e = "slots d ! s"
  note q = queuesD [OF assms(1,2), unfolded assms(3)]
  have s: "s < length (slots d)" "phase ?e = Pending" "owner ?e = k" "heads d ! k = Some s"
    "path (\<lambda>s. next (slots d ! s)) (next ?e) rest" "s \<notin> set rest" "distinct rest"
    using q(1,3) q(4) [of s] by auto
  have ok: "slot_ok (length (heads d)) ?e"
    using queues_slot(1) [OF assms(1) s(1)] .
  then obtain v where v: "value ?e = Some v"
    using s(2) by (auto simp: slot_ok_def)
  have kt: "length (tails d) = length (heads d)"
    using assms(1) by (simp add: queues_def)
  define d1 where "d1 = d\<lparr>heads := (heads d)[k := next ?e]\<rparr>"
  define d2 where "d2 = (if next ?e = None then d1\<lparr>tails := (tails d1)[k := None]\<rparr> else d1)"
  define d' where "d' = put d2 s (taken_slot ?e)"
  have sel: "slots d2 = slots d" "heads d2 = (heads d)[k := next ?e]" "table_id d2 = table_id d"
    "length (tails d2) = length (heads d)" "k' \<noteq> k \<Longrightarrow> tails d2 ! k' = tails d ! k'"
    "tails d2 ! k = (if next ?e = None then None else tails d ! k)" for k'
    using kt assms(2) by (auto simp: d1_def d2_def)
  have sel': "heads d' = heads d2" "tails d' = tails d2" "length (slots d') = length (slots d)" "table_id d' = table_id d"
    by (simp_all add: d'_def sel)
  have nth: "slots d' ! t = (if t = s then taken_slot ?e else slots d ! t)" for t
    using s(1) by (simp add: d'_def sel(1))
  have t: "take_debt d k = Some (Some (TakenWork (FinishToken (table_id d) k s (generation ?e)) v), d')"
    using s assms(2) v by (simp add: take_debt_def at_def taken_slot_def Let_def d'_def d2_def d1_def)
  have last: "tails d2 ! k = last_of rest"
    using q(2) s(5) sel(6) by (cases rest) (auto simp: last_of_def)
  have "path (\<lambda>t. next (slots d' ! t)) (next ?e) rest"
    using s(5,6) by (subst path_cong [where nx = "\<lambda>t. next (slots d ! t)"]) (auto simp: nth)
  then have "chained {} d' k rest"
    using s(6,7) q(4) last assms(2) by (auto simp: chained_def sel sel' nth)
  moreover have "chained {} d' k' (qs k')" if "k' < length (heads d)" "k' \<noteq> k" for k'
  proof (rule chained_cong [of "{}" d])
    show "chained {} d k' (qs k')"
      using assms(1) that(1) unfolding queues_def by blast
    have "s \<notin> set (qs k')"
      using queuesD(4) [OF assms(1) that(1), of s] s(3) that(2) by blast
    then show "slots d' ! t = slots d ! t \<and> t \<notin> {}" if "t \<in> set (qs k')" for t
      using that by (auto simp: nth)
  qed (use that sel sel' in simp_all)
  moreover have "slotted {} d' (qs(k := rest)) t" if "t < length (slots d)" for t
  proof (cases "t = s")
    case True
    have "slot_ok (length (heads d)) (taken_slot ?e)"
      using ok s(2) by (simp add: slot_ok_def taken_slot_def)
    then show ?thesis
      unfolding slotted_def nth using True by (simp add: sel sel' taken_slot_def)
  next
    case False
    then show ?thesis
      unfolding slotted_def nth using queues_slot(1,2) [OF assms(1) that] assms(3) by (auto simp: sel sel')
  qed
  ultimately have "queues {} d' (qs(k := rest))"
    by (simp add: queues_def sel sel')
  moreover have "eff d s (taken_slot ?e) d'"
    using next_update_idem by (auto simp: eff_def nth sel sel')
  ultimately show ?thesis
    using t v s by blast
qed

lemma take_none:
  assumes "queues {} d qs" "k < length (heads d) \<Longrightarrow> qs k = []"
  shows "take_debt d k = Some (None, d)"
  using queuesD(1) [OF assms(1), of k] assms(2)
  by (cases "k < length (heads d)") (auto simp: take_debt_def at_def)


section \<open>Outstanding tokens\<close>

text \<open>
  The tokens a table has given out and not taken back are a function of the table: a reservation for
  every reserved slot, a finish token for every taken one, a wake token for every armed one.
\<close>

definition res_tokens :: "'a work_debts \<Rightarrow> reservation set" where
  "res_tokens d = (\<lambda>s. Reservation (table_id d) s (generation (slots d ! s))) `
     {s. s < length (slots d) \<and> phase (slots d ! s) = Reserved}"

definition fin_tokens :: "'a work_debts \<Rightarrow> finish_token set" where
  "fin_tokens d = (\<lambda>s. FinishToken (table_id d) (owner (slots d ! s)) s (generation (slots d ! s))) `
     {s. s < length (slots d) \<and> phase (slots d ! s) = Taken}"

definition wake_tokens :: "'a work_debts \<Rightarrow> wake_token set" where
  "wake_tokens d = (\<lambda>s. WakeToken (table_id d) (owner (slots d ! s)) s (generation (slots d ! s))) `
     {s. s < length (slots d) \<and> wake_armed (slots d ! s)}"

lemmas token_defs = res_tokens_def fin_tokens_def wake_tokens_def

lemma eff_slot:
  assumes "eff d s e d'" "t < length (slots d)"
  shows "generation (slots d' ! t) = generation (if t = s then e else slots d ! t)"
    "phase (slots d' ! t) = phase (if t = s then e else slots d ! t)"
    "owner (slots d' ! t) = owner (if t = s then e else slots d ! t)"
    "value (slots d' ! t) = value (if t = s then e else slots d ! t)"
    "wake_armed (slots d' ! t) = wake_armed (if t = s then e else slots d ! t)"
    "woken (slots d' ! t) = woken (if t = s then e else slots d ! t)"
  using assms by (auto simp: eff_def dest!: spec [of _ t])

lemma eff_table: "eff d s e d' \<Longrightarrow> table_id d' = table_id d \<and> length (slots d') = length (slots d) \<and> length (heads d') = length (heads d)"
  by (simp add: eff_def)

lemma eff_tokens:
  assumes "eff d s e d'" "s < length (slots d)"
  shows "res_tokens d' = {r \<in> res_tokens d. res_slot r \<noteq> s} \<union>
      (if phase e = Reserved then {Reservation (table_id d) s (generation e)} else {})"
    "fin_tokens d' = {t \<in> fin_tokens d. fin_slot t \<noteq> s} \<union>
      (if phase e = Taken then {FinishToken (table_id d) (owner e) s (generation e)} else {})"
    "wake_tokens d' = {w \<in> wake_tokens d. wake_slot w \<noteq> s} \<union>
      (if wake_armed e then {WakeToken (table_id d) (owner e) s (generation e)} else {})"
proof -
  note f = eff_slot [OF assms(1)] eff_table [OF assms(1)]
  show "res_tokens d' = {r \<in> res_tokens d. res_slot r \<noteq> s} \<union>
      (if phase e = Reserved then {Reservation (table_id d) s (generation e)} else {})"
    using assms(2) f(1,2,7) by (auto simp: res_tokens_def image_iff split: if_splits)
  show "fin_tokens d' = {t \<in> fin_tokens d. fin_slot t \<noteq> s} \<union>
      (if phase e = Taken then {FinishToken (table_id d) (owner e) s (generation e)} else {})"
    using assms(2) f(1,2,3,7) by (auto simp: fin_tokens_def image_iff split: if_splits)
  show "wake_tokens d' = {w \<in> wake_tokens d. wake_slot w \<noteq> s} \<union>
      (if wake_armed e then {WakeToken (table_id d) (owner e) s (generation e)} else {})"
    using assms(2) f(1,3,5,7) by (auto simp: wake_tokens_def image_iff split: if_splits)
qed

text \<open>A slot carries at most one token of each kind.\<close>

lemma tokens_other:
  "r \<in> res_tokens d \<Longrightarrow> {r' \<in> res_tokens d. res_slot r' \<noteq> res_slot r} = res_tokens d - {r}"
  "t \<in> fin_tokens d \<Longrightarrow> {t' \<in> fin_tokens d. fin_slot t' \<noteq> fin_slot t} = fin_tokens d - {t}"
  "w \<in> wake_tokens d \<Longrightarrow> {w' \<in> wake_tokens d. wake_slot w' \<noteq> wake_slot w} = wake_tokens d - {w}"
  by (auto simp: token_defs)

lemma tokens_none:
  "phase (slots d ! s) \<noteq> Reserved \<Longrightarrow> {r \<in> res_tokens d. res_slot r \<noteq> s} = res_tokens d"
  "phase (slots d ! s) \<noteq> Taken \<Longrightarrow> {t \<in> fin_tokens d. fin_slot t \<noteq> s} = fin_tokens d"
  "\<not> wake_armed (slots d ! s) \<Longrightarrow> {w \<in> wake_tokens d. wake_slot w \<noteq> s} = wake_tokens d"
  by (auto simp: token_defs)

lemma res_token:
  assumes "r \<in> res_tokens d"
  shows "res_table r = table_id d" "res_slot r < length (slots d)" "phase (slots d ! res_slot r) = Reserved"
    "entry_mut d (res_slot r) (res_generation r) = Some (slots d ! res_slot r)"
    "res_generation r = generation (slots d ! res_slot r)"
  using assms by (auto simp: res_tokens_def entry_mut_def at_def)

lemma fin_token:
  assumes "t \<in> fin_tokens d"
  shows "fin_table t = table_id d" "fin_slot t < length (slots d)" "phase (slots d ! fin_slot t) = Taken"
    "entry_mut d (fin_slot t) (fin_generation t) = Some (slots d ! fin_slot t)"
    "owner (slots d ! fin_slot t) = fin_owner t" "fin_generation t = generation (slots d ! fin_slot t)"
  using assms by (auto simp: fin_tokens_def entry_mut_def at_def)

lemma wake_token:
  assumes "w \<in> wake_tokens d"
  shows "wake_table w = table_id d" "wake_slot w < length (slots d)" "wake_armed (slots d ! wake_slot w)"
    "entry_mut d (wake_slot w) (wake_generation w) = Some (slots d ! wake_slot w)"
    "owner (slots d ! wake_slot w) = wake_owner w"
  using assms by (auto simp: wake_tokens_def entry_mut_def at_def)


section \<open>Operations on a token\<close>

text \<open>
  Every operation on an outstanding token succeeds with the given effect on its slot.
\<close>

lemma reserve_in_ok:
  assumes "queues {} d qs" "reserve_in d a b = (r, d')"
  shows "(r = Err Full \<and> d' = d) \<or>
    (\<exists>s < length (slots d). a \<le> s \<and> s < b \<and> phase (slots d ! s) = Empty \<and>
       r = Ok (Reservation (table_id d) s (generation (slots d ! s))) \<and>
       queues {} d' qs \<and> eff d s ((slots d ! s)\<lparr>phase := Reserved\<rparr>) d')"
proof -
  define c where "c = (if a \<le> reserve_cursor d \<and> reserve_cursor d < b then reserve_cursor d else a)"
  define f where "f = find (\<lambda>s. phase (slots d ! s) = Empty) ([c..<b] @ [a..<c])"
  have eq: "(r, d') = (if a \<ge> b \<or> b > length (slots d) then (Err Full, d)
    else case f of None \<Rightarrow> (Err Full, d)
      | Some s \<Rightarrow> (Ok (Reservation (table_id d) s (generation (slots d ! s))),
          (put d s ((slots d ! s)\<lparr>phase := Reserved\<rparr>))\<lparr>reserve_cursor := (s + 1) mod length (slots d)\<rparr>))"
    unfolding assms(2) [symmetric] reserve_in_def Let_def c_def f_def by (rule refl)
  show ?thesis
  proof (cases "a \<ge> b \<or> b > length (slots d) \<or> f = None")
    case True
    then show ?thesis
      using eq by (auto split: if_splits)
  next
    case False
    then obtain s where f: "f = Some s"
      by auto
    then have s: "a \<le> s" "s < b" "s < length (slots d)" "phase (slots d ! s) = Empty"
      using False find_SomeD [OF f [unfolded f_def]] by (auto simp: c_def split: if_splits)
    let ?e = "(slots d ! s)\<lparr>phase := Reserved\<rparr>"
    have "slot_ok (length (heads d)) ?e"
      using queues_slot(1) [OF assms(1) s(3)] s(4) by (simp add: slot_ok_def)
    then have st: "queues {} (put d s ?e) qs" "eff d s ?e (put d s ?e)"
      using store_ok [OF assms(1) s(3)] s(4) by simp_all
    have d': "r = Ok (Reservation (table_id d) s (generation (slots d ! s)))"
      "d' = (put d s ?e)\<lparr>reserve_cursor := (s + 1) mod length (slots d)\<rparr>"
      using eq False f by auto
    have "queues {} d' qs" "eff d s ?e d'"
      using st unfolding d'(2) queues_def chained_def slotted_def eff_def by simp_all
    then show ?thesis
      using s d'(1) by blast
  qed
qed

lemma debt_cancel_ok:
  assumes "queues {} d qs" "r \<in> res_tokens d"
  shows "\<exists>d'. cancel d r = (Ok (), d') \<and> queues {} d' qs \<and>
    eff d (res_slot r) ((slots d ! res_slot r)\<lparr>phase := Empty\<rparr>) d'"
proof -
  note r = res_token [OF assms(2)]
  have "slot_ok (length (heads d)) ((slots d ! res_slot r)\<lparr>phase := Empty\<rparr>)"
    using queues_slot(1) [OF assms(1) r(2)] r(3) by (simp add: slot_ok_def)
  then show ?thesis
    using store_ok [OF assms(1) r(2), of "(slots d ! res_slot r)\<lparr>phase := Empty\<rparr>"] r by (simp add: cancel_def)
qed

lemma publish_ok:
  assumes "queues {} d qs" "r \<in> res_tokens d" "k < length (heads d)"
  shows "\<exists>d'. publish d r k v = Some (Ok (), d') \<and> queues {} d' (qs(k := qs k @ [res_slot r])) \<and>
    eff d (res_slot r) ((slots d ! res_slot r)\<lparr>owner := k, next := None, value := Some v, phase := Pending\<rparr>) d'"
proof -
  note r = res_token [OF assms(2)]
  let ?e = "(slots d ! res_slot r)\<lparr>owner := k, next := None, value := Some v, phase := Pending\<rparr>"
  have "slot_ok (length (heads d)) ?e"
    using queues_slot(1) [OF assms(1) r(2)] r(3) assms(3) by (auto simp: slot_ok_def)
  then obtain d' where "append_slot (put d (res_slot r) ?e) k (res_slot r) = Some d'"
    "queues {} d' (qs(k := qs k @ [res_slot r]))" "eff d (res_slot r) ?e d'"
    using enqueue_ok [OF assms(1) r(2), of ?e k] r(3) by auto
  then show ?thesis
    using r(1,3,4) assms(3) by (simp add: publish_def Let_def)
qed

lemma idle_ok:
  assumes "queues {} d qs" "t \<in> fin_tokens d" "\<not> wake_armed (slots d ! fin_slot t)"
  shows "idle_entry d t = Some (slots d ! fin_slot t)" "value (slots d ! fin_slot t) = None"
    "slot_ok (length (heads d)) (slots d ! fin_slot t)"
  using fin_token [OF assms(2)] queues_slot(1) [OF assms(1), of "fin_slot t"] assms(3)
  by (auto simp: idle_entry_def slot_ok_def)

lemma requeue_ok:
  assumes "queues {} d qs" "t \<in> fin_tokens d" "\<not> wake_armed (slots d ! fin_slot t)"
  shows "\<exists>d'. requeue d t v = Some (Ok (), d') \<and> queues {} d' (qs(fin_owner t := qs (fin_owner t) @ [fin_slot t])) \<and>
    eff d (fin_slot t) ((slots d ! fin_slot t)\<lparr>value := Some v, next := None, phase := Pending\<rparr>) d'"
proof -
  note t = fin_token [OF assms(2)] and i = idle_ok [OF assms]
  let ?e = "(slots d ! fin_slot t)\<lparr>value := Some v, next := None, phase := Pending\<rparr>"
  have "slot_ok (length (heads d)) ?e"
    using i(3) t(3) assms(3) by (auto simp: slot_ok_def)
  then obtain d' where "append_slot (put d (fin_slot t) ?e) (fin_owner t) (fin_slot t) = Some d'"
    "queues {} d' (qs(fin_owner t := qs (fin_owner t) @ [fin_slot t]))" "eff d (fin_slot t) ?e d'"
    using enqueue_ok [OF assms(1) t(2), of ?e "fin_owner t"] t(3,5) by auto
  then show ?thesis
    using i(1) by (simp add: requeue_def Let_def)
qed

definition finished_slot :: "'a slot \<Rightarrow> 'a slot" where
  "finished_slot e =
     (if generation e = - 1 then e\<lparr>phase := Retired\<rparr> else e\<lparr>generation := generation e + 1, phase := Empty\<rparr>)"

lemma finish_ok:
  assumes "queues {} d qs" "t \<in> fin_tokens d" "\<not> wake_armed (slots d ! fin_slot t)"
  shows "\<exists>d'. finish d t = Some (Ok (), d') \<and> queues {} d' qs \<and>
    eff d (fin_slot t) (finished_slot (slots d ! fin_slot t)) d'"
proof -
  note t = fin_token [OF assms(2)] and i = idle_ok [OF assms]
  let ?e = "finished_slot (slots d ! fin_slot t)"
  have "slot_ok (length (heads d)) ?e" "phase ?e \<noteq> Pending"
    using i(3) t(3) assms(3) by (auto simp: slot_ok_def finished_slot_def)
  then have "queues {} (put d (fin_slot t) ?e) qs \<and> eff d (fin_slot t) ?e (put d (fin_slot t) ?e)"
    using store_ok [OF assms(1) t(2)] t(3) by simp
  then show ?thesis
    using i(1,2) by (auto simp: finish_def finished_slot_def)
qed

lemma rearm_ok:
  assumes "queues {} d qs" "t \<in> fin_tokens d" "\<not> wake_armed (slots d ! fin_slot t)"
  shows "\<exists>d'. rearm d t = Some (Ok (Reservation (fin_table t) (fin_slot t) (fin_generation t)), d') \<and> queues {} d' qs \<and>
    eff d (fin_slot t) ((slots d ! fin_slot t)\<lparr>phase := Reserved\<rparr>) d'"
proof -
  note t = fin_token [OF assms(2)] and i = idle_ok [OF assms]
  let ?e = "(slots d ! fin_slot t)\<lparr>phase := Reserved\<rparr>"
  have "slot_ok (length (heads d)) ?e"
    using i(3) t(3) assms(3) by (auto simp: slot_ok_def)
  then have "queues {} (put d (fin_slot t) ?e) qs \<and> eff d (fin_slot t) ?e (put d (fin_slot t) ?e)"
    using store_ok [OF assms(1) t(2)] t(3) by simp
  then show ?thesis
    using i(1,2) by (simp add: rearm_def)
qed

lemma arm_wake_ok:
  assumes "queues {} d qs" "t \<in> fin_tokens d"
  shows "if wake_armed (slots d ! fin_slot t) \<or> woken (slots d ! fin_slot t) then arm_wake d t = (None, d)
    else \<exists>d'. arm_wake d t = (Some (WakeToken (fin_table t) (fin_owner t) (fin_slot t) (fin_generation t)), d') \<and>
      queues {} d' qs \<and> eff d (fin_slot t) ((slots d ! fin_slot t)\<lparr>wake_armed := True\<rparr>) d'"
proof -
  note t = fin_token [OF assms(2)]
  let ?e = "(slots d ! fin_slot t)\<lparr>wake_armed := True\<rparr>"
  have "slot_ok (length (heads d)) ?e" if "\<not> woken (slots d ! fin_slot t)"
    using queues_slot(1) [OF assms(1) t(2)] t(3) that by (auto simp: slot_ok_def)
  then show ?thesis
    using store_ok [OF assms(1) t(2), of ?e] t by (simp add: arm_wake_def)
qed

lemma cancel_wake_ok:
  assumes "queues {} d qs" "w \<in> wake_tokens d"
  shows "if phase (slots d ! wake_slot w) \<noteq> Taken then cancel_wake d w = (Err w, d)
    else \<exists>d'. cancel_wake d w = (Ok (), d') \<and> queues {} d' qs \<and>
      eff d (wake_slot w) ((slots d ! wake_slot w)\<lparr>wake_armed := False\<rparr>) d'"
proof -
  note w = wake_token [OF assms(2)]
  let ?e = "(slots d ! wake_slot w)\<lparr>wake_armed := False\<rparr>"
  have "slot_ok (length (heads d)) ?e" if "phase (slots d ! wake_slot w) = Taken"
    using queues_slot(1) [OF assms(1) w(2)] that by (auto simp: slot_ok_def)
  then show ?thesis
    using store_ok [OF assms(1) w(2), of ?e] w by (simp add: cancel_wake_def)
qed


definition parked_slot :: "'a slot \<Rightarrow> 'a \<Rightarrow> 'a slot" where
  "parked_slot e v =
     (if woken e then e\<lparr>value := Some v, next := None, woken := False, phase := Pending\<rparr>
      else e\<lparr>value := Some v, next := None, phase := Parked\<rparr>)"

lemma debt_park_ok:
  assumes "queues {} d qs" "t \<in> fin_tokens d"
    and "wake_armed (slots d ! fin_slot t) \<or> woken (slots d ! fin_slot t)"
  defines "e \<equiv> slots d ! fin_slot t"
  shows "\<exists>d'. park d t v = Some (Ok (if woken e then ParkRunnable else ParkParked), d') \<and>
    queues {} d' (if woken e then qs(fin_owner t := qs (fin_owner t) @ [fin_slot t]) else qs) \<and>
    eff d (fin_slot t) (parked_slot e v) d'"
proof -
  note t = fin_token [OF assms(2)]
  have ok: "slot_ok (length (heads d)) (parked_slot e v)"
    using queues_slot(1) [OF assms(1) t(2)] t(3) assms(3) by (auto simp: slot_ok_def parked_slot_def e_def)
  show ?thesis
  proof (cases "woken e")
    case True
    then obtain d' where "append_slot (put d (fin_slot t) (parked_slot e v)) (fin_owner t) (fin_slot t) = Some d'"
      "queues {} d' (qs(fin_owner t := qs (fin_owner t) @ [fin_slot t]))" "eff d (fin_slot t) (parked_slot e v) d'"
      using enqueue_ok [OF assms(1) t(2) _ ok, of "fin_owner t"] t(3,5) by (auto simp: parked_slot_def e_def)
    then show ?thesis
      using t True assms(3) by (simp add: park_def Let_def parked_slot_def e_def)
  next
    case False
    then have "queues {} (put d (fin_slot t) (parked_slot e v)) qs \<and> eff d (fin_slot t) (parked_slot e v) (put d (fin_slot t) (parked_slot e v))"
      using store_ok [OF assms(1) t(2) _ ok] t(3) by (simp add: parked_slot_def)
    then show ?thesis
      using t False assms(3) by (simp add: park_def Let_def parked_slot_def e_def)
  qed
qed

definition woken_slot :: "'a slot \<Rightarrow> 'a slot" where
  "woken_slot e =
     (if phase e = Taken then e\<lparr>wake_armed := False, woken := True\<rparr> else e\<lparr>wake_armed := False, phase := Pending\<rparr>)"

lemma wake_ok:
  assumes "queues {} d qs" "w \<in> wake_tokens d"
  defines "e \<equiv> slots d ! wake_slot w"
  shows "\<exists>d'. wake d w = Some (Ok (if phase e = Taken then Latched else WakeRunnable (wake_owner w)), d') \<and>
    queues {} d' (if phase e = Taken then qs else qs(wake_owner w := qs (wake_owner w) @ [wake_slot w])) \<and>
    eff d (wake_slot w) (woken_slot e) d'"
proof -
  note w = wake_token [OF assms(2)]
  have e: "slot_ok (length (heads d)) e"
    using queues_slot(1) [OF assms(1) w(2)] by (simp add: e_def)
  then have ph: "phase e = Taken \<or> phase e = Parked"
    using w(3) by (simp add: slot_ok_def e_def)
  have ok: "slot_ok (length (heads d)) (woken_slot e)"
    using e ph w(3) by (auto simp: slot_ok_def woken_slot_def)
  show ?thesis
  proof (cases "phase e = Taken")
    case True
    then have "queues {} (put d (wake_slot w) (woken_slot e)) qs \<and> eff d (wake_slot w) (woken_slot e) (put d (wake_slot w) (woken_slot e))"
      using store_ok [OF assms(1) w(2) _ ok] by (simp add: woken_slot_def e_def)
    then show ?thesis
      using w True by (simp add: wake_def Let_def woken_slot_def e_def)
  next
    case False
    then have p: "phase e = Parked"
      using ph by simp
    moreover have "next e = None"
      using e p by (simp add: slot_ok_def)
    ultimately obtain d' where "append_slot (put d (wake_slot w) (woken_slot e)) (wake_owner w) (wake_slot w) = Some d'"
      "queues {} d' (qs(wake_owner w := qs (wake_owner w) @ [wake_slot w]))" "eff d (wake_slot w) (woken_slot e) d'"
      using enqueue_ok [OF assms(1) w(2) _ ok, of "wake_owner w"] w(5) by (auto simp: woken_slot_def e_def)
    then show ?thesis
      using w p by (simp add: wake_def Let_def woken_slot_def e_def)
  qed
qed

end
