(* ===== verification/Queue_Contract.thy ===== *)
theory Queue_Contract
  imports Prelude
begin

text \<open>
  The contract of a family of FIFO queues indexed by \<open>'k\<close>: \<open>contents\<close> are the values waiting in
  each queue, and \<open>deq\<close> takes the oldest, leaving the other queues alone. What the consumers of such a
  queue rely on is proved once from it: repeated dequeues deliver a prefix, in order.
\<close>

locale fifo_queues =
  fixes good :: "'s \<Rightarrow> bool"
    and contents :: "'s \<Rightarrow> 'k \<Rightarrow> 'v list"
    and deq :: "'s \<Rightarrow> 'k \<Rightarrow> ('r option \<times> 's) option"
    and val :: "'r \<Rightarrow> 'v"
  assumes deq_empty: "good s \<Longrightarrow> contents s k = [] \<Longrightarrow> deq s k = Some (None, s)"
    and deq_head: "good s \<Longrightarrow> contents s k = v # vs \<Longrightarrow>
      \<exists>r s'. deq s k = Some (Some r, s') \<and> val r = v \<and> good s' \<and> contents s' = (contents s)(k := vs)"
begin

fun drain :: "nat \<Rightarrow> 's \<Rightarrow> 'k \<Rightarrow> ('r list \<times> 's) option" where
  "drain 0 s k = Some ([], s)"
| "drain (Suc n) s k =
     (case deq s k of
        None \<Rightarrow> None
      | Some (None, s') \<Rightarrow> Some ([], s')
      | Some (Some r, s') \<Rightarrow> map_option (\<lambda>(rs, s''). (r # rs, s'')) (drain n s' k))"

lemma drain_in_order:
  "good s \<Longrightarrow> \<exists>rs s'. drain n s k = Some (rs, s') \<and> good s' \<and> map val rs = take n (contents s k) \<and>
     contents s' = (contents s)(k := drop n (contents s k))"
proof (induction n arbitrary: s)
  case 0
  then show ?case
    by simp
next
  case (Suc n)
  show ?case
  proof (cases "contents s k")
    case Nil
    then show ?thesis
      using deq_empty [OF Suc.prems Nil] Suc.prems by (auto simp: fun_upd_idem)
  next
    case (Cons v vs)
    then obtain r s1 where r: "deq s k = Some (Some r, s1)" "val r = v" "good s1" "contents s1 = (contents s)(k := vs)"
      using deq_head [OF Suc.prems Cons] by blast
    obtain rs s' where "drain n s1 k = Some (rs, s')" "good s'" "map val rs = take n (contents s1 k)"
      "contents s' = (contents s1)(k := drop n (contents s1 k))"
      using Suc.IH [OF r(3)] by blast
    then show ?thesis
      using r Cons by (intro exI [of _ "r # rs"] exI [of _ s']) simp
  qed
qed

end

end
