(* ===== verification/Work_Debt_System.thy ===== *)
theory Work_Debt_System
  imports Work_Debt_Props Queue_Contract
begin

text \<open>
  The work-debt table together with the tokens its users hold, as a transition system, the queues as lists
  of work, and the properties of the component.
\<close>

section \<open>The queues as lists of work\<close>

fun follow :: "nat \<Rightarrow> (nat \<Rightarrow> nat option) \<Rightarrow> nat option \<Rightarrow> nat list" where
  "follow 0 nx h = []"
| "follow (Suc n) nx h = (case h of None \<Rightarrow> [] | Some i \<Rightarrow> i # follow n nx (nx i))"

lemma follow_path: "path nx h is \<Longrightarrow> length is \<le> n \<Longrightarrow> follow n nx h = is"
proof (induction "is" arbitrary: n h)
  case Nil
  then show ?case
    by (cases n) auto
next
  case (Cons i "is")
  then show ?case
    by (cases n) auto
qed

definition work_at :: "'a work_debts \<Rightarrow> nat \<Rightarrow> 'a" where
  "work_at d s = the (value (slots d ! s))"

definition queue_of :: "'a work_debts \<Rightarrow> nat \<Rightarrow> 'a list" where
  "queue_of d k =
     (if k < length (heads d)
      then map (work_at d) (follow (length (slots d)) (\<lambda>s. next (slots d ! s)) (heads d ! k)) else [])"

definition wd_inv :: "'a work_debts \<Rightarrow> bool" where
  "wd_inv d \<longleftrightarrow> (\<exists>qs. queues {} d qs)"

lemma queue_of_eq:
  assumes "queues X d qs" "k < length (heads d)"
  shows "queue_of d k = map (work_at d) (qs k)"
proof -
  have "set (qs k) \<subseteq> {..<length (slots d)}"
    using queuesD(4) [OF assms] by blast
  then have "length (qs k) \<le> length (slots d)"
    using distinct_card [OF queuesD(3) [OF assms]] card_mono [of "{..<length (slots d)}" "set (qs k)"] by simp
  then show ?thesis
    using follow_path [OF queuesD(1) [OF assms]] assms(2) by (simp add: queue_of_def)
qed

lemma work_at_eff:
  assumes "eff d s e d'" "\<And>t. t \<in> set ts \<Longrightarrow> t < length (slots d) \<and> t \<noteq> s"
  shows "map (work_at d') ts = map (work_at d) ts"
  using assms(2) eff_slot(4) [OF assms(1)] by (auto simp: work_at_def)

lemma queue_store:
  assumes "queues {} d qs" "queues {} d' qs" "eff d s e d'" "phase (slots d ! s) \<noteq> Pending"
  shows "queue_of d' = queue_of d"
proof
  fix k
  show "queue_of d' k = queue_of d k"
  proof (cases "k < length (heads d)")
    case True
    have "map (work_at d') (qs k) = map (work_at d) (qs k)"
      using queuesD(4) [OF assms(1) True] assms(4) by (intro work_at_eff [OF assms(3)]) blast
    then show ?thesis
      using queue_of_eq [OF assms(1) True] queue_of_eq [OF assms(2)] True eff_table [OF assms(3)] by simp
  next
    case False
    then show ?thesis
      using eff_table [OF assms(3)] by (simp add: queue_of_def)
  qed
qed

lemma queue_enqueue:
  assumes "queues {} d qs" "queues {} d' (qs(k := qs k @ [s]))" "eff d s e d'"
    and "s < length (slots d)" "phase (slots d ! s) \<noteq> Pending" "k < length (heads d)" "value e = Some v"
  shows "queue_of d' = (queue_of d)(k := queue_of d k @ [v])"
proof
  fix k'
  have h: "length (heads d') = length (heads d)"
    using eff_table [OF assms(3)] by simp
  have same: "map (work_at d') (qs k') = map (work_at d) (qs k')" if "k' < length (heads d)" for k'
    using queuesD(4) [OF assms(1) that] assms(5) by (intro work_at_eff [OF assms(3)]) blast
  have v: "work_at d' s = v"
    using eff_slot(4) [OF assms(3,4)] assms(7) by (simp add: work_at_def)
  show "queue_of d' k' = ((queue_of d)(k := queue_of d k @ [v])) k'"
  proof (cases "k' < length (heads d)")
    case True
    then show ?thesis
      using queue_of_eq [OF assms(1)] queue_of_eq [OF assms(2)] h same [of k'] v by simp
  next
    case False
    then show ?thesis
      using h assms(6) by (auto simp: queue_of_def)
  qed
qed

lemma queue_take:
  assumes "queues {} d qs" "queues {} d' (qs(k := rest))" "eff d s e d'" "qs k = s # rest" "k < length (heads d)"
  shows "queue_of d k = work_at d s # queue_of d' k" "queue_of d' = (queue_of d)(k := queue_of d' k)"
proof -
  have h: "length (heads d') = length (heads d)"
    using eff_table [OF assms(3)] by simp
  have s: "s \<notin> set rest" "owner (slots d ! s) = k"
    using queuesD(3,4) [OF assms(1,5)] assms(4) by auto
  have "map (work_at d') rest = map (work_at d) rest"
    using queuesD(4) [OF assms(1,5)] assms(4) s(1) by (intro work_at_eff [OF assms(3)]) auto
  then show "queue_of d k = work_at d s # queue_of d' k"
    using queue_of_eq [OF assms(1,5)] queue_of_eq [OF assms(2)] h assms(4,5) by simp
  show "queue_of d' = (queue_of d)(k := queue_of d' k)"
  proof
    fix k'
    show "queue_of d' k' = ((queue_of d)(k := queue_of d' k)) k'"
    proof (cases "k' < length (heads d) \<and> k' \<noteq> k")
      case True
      then have "map (work_at d') (qs k') = map (work_at d) (qs k')"
        using queuesD(4) [OF assms(1), of k'] s(2) by (intro work_at_eff [OF assms(3)]) blast
      then show ?thesis
        using queue_of_eq [OF assms(1), of k'] queue_of_eq [OF assms(2), of k'] h True by simp
    qed (use h in \<open>auto simp: queue_of_def\<close>)
  qed
qed

fun taken_value :: "'a taken \<Rightarrow> 'a" where
  "taken_value (TakenWork t v) = v"

interpretation wd: fifo_queues wd_inv queue_of take_debt taken_value
proof unfold_locales
  show "take_debt d k = Some (None, d)" if "wd_inv d" "queue_of d k = []" for d :: "'a work_debts" and k
  proof -
    obtain qs where qs: "queues {} d qs"
      using \<open>wd_inv d\<close> by (auto simp: wd_inv_def)
    then show ?thesis
      by (intro take_none [OF qs]) (use queue_of_eq [OF qs, of k] that(2) in simp)
  qed
  show "\<exists>r d'. take_debt d k = Some (Some r, d') \<and> taken_value r = v \<and> wd_inv d' \<and> queue_of d' = (queue_of d)(k := vs)"
    if "wd_inv d" "queue_of d k = v # vs" for d :: "'a work_debts" and k v vs
  proof -
    note q = \<open>queue_of d k = v # vs\<close>
    obtain qs where qs: "queues {} d qs"
      using \<open>wd_inv d\<close> by (auto simp: wd_inv_def)
    have k: "k < length (heads d)"
      using q by (simp add: queue_of_def split: if_splits)
    obtain s rest where sr: "qs k = s # rest"
      using queue_of_eq [OF qs k] q by auto
    obtain v' d' where t: "value (slots d ! s) = Some v'"
      "take_debt d k = Some (Some (TakenWork (FinishToken (table_id d) k s (generation (slots d ! s))) v'), d')"
      "queues {} d' (qs(k := rest))" "eff d s (taken_slot (slots d ! s)) d'"
      using take_ok [OF qs k sr] by blast
    have "queue_of d' = (queue_of d)(k := vs)" "v' = v"
      using queue_take [OF qs t(3,4) sr k] q t(1) by (simp_all add: work_at_def)
    then show ?thesis
      using t(2,3) by (auto simp: wd_inv_def)
  qed
qed


section \<open>The table and the tokens of its users\<close>

record 'a wd_sys =
  debts :: "'a work_debts"
  reservations :: "reservation set"
  finishes :: "finish_token set"
  wakes :: "wake_token set"

text \<open>Tokens are affine: an operation that consumes one removes it, one that creates one adds it.\<close>

inductive wd_step :: "'a wd_sys \<Rightarrow> 'a wd_sys \<Rightarrow> bool" where
  wd_reserve: "reserve_in (debts y) a b = (Ok r, d) \<Longrightarrow>
    wd_step y (y\<lparr>debts := d, reservations := insert r (reservations y)\<rparr>)"
| wd_cancel: "r \<in> reservations y \<Longrightarrow> cancel (debts y) r = (Ok (), d) \<Longrightarrow>
    wd_step y (y\<lparr>debts := d, reservations := reservations y - {r}\<rparr>)"
| wd_publish: "r \<in> reservations y \<Longrightarrow> publish (debts y) r k v = Some (Ok (), d) \<Longrightarrow>
    wd_step y (y\<lparr>debts := d, reservations := reservations y - {r}\<rparr>)"
| wd_take: "take_debt (debts y) k = Some (Some (TakenWork t v), d) \<Longrightarrow>
    wd_step y (y\<lparr>debts := d, finishes := insert t (finishes y)\<rparr>)"
| wd_requeue: "t \<in> finishes y \<Longrightarrow> requeue (debts y) t v = Some (Ok (), d) \<Longrightarrow>
    wd_step y (y\<lparr>debts := d, finishes := finishes y - {t}\<rparr>)"
| wd_arm: "t \<in> finishes y \<Longrightarrow> arm_wake (debts y) t = (Some w, d) \<Longrightarrow>
    wd_step y (y\<lparr>debts := d, wakes := insert w (wakes y)\<rparr>)"
| wd_cancel_wake: "w \<in> wakes y \<Longrightarrow> cancel_wake (debts y) w = (Ok (), d) \<Longrightarrow>
    wd_step y (y\<lparr>debts := d, wakes := wakes y - {w}\<rparr>)"
| wd_park: "t \<in> finishes y \<Longrightarrow> park (debts y) t v = Some (Ok p, d) \<Longrightarrow>
    wd_step y (y\<lparr>debts := d, finishes := finishes y - {t}\<rparr>)"
| wd_wake: "w \<in> wakes y \<Longrightarrow> wake (debts y) w = Some (Ok u, d) \<Longrightarrow>
    wd_step y (y\<lparr>debts := d, wakes := wakes y - {w}\<rparr>)"
| wd_finish: "t \<in> finishes y \<Longrightarrow> finish (debts y) t = Some (Ok (), d) \<Longrightarrow>
    wd_step y (y\<lparr>debts := d, finishes := finishes y - {t}\<rparr>)"
| wd_rearm: "t \<in> finishes y \<Longrightarrow> rearm (debts y) t = Some (Ok r, d) \<Longrightarrow>
    wd_step y (y\<lparr>debts := d, finishes := finishes y - {t}, reservations := insert r (reservations y)\<rparr>)"

definition wd_init :: "'a wd_sys \<Rightarrow> bool" where
  "wd_init y \<longleftrightarrow> (\<exists>tid owners n. new_with_id tid owners n = Some (debts y)) \<and>
     reservations y = {} \<and> finishes y = {} \<and> wakes y = {}"

definition sys_inv :: "'a wd_sys \<Rightarrow> bool" where
  "sys_inv y \<longleftrightarrow> wd_inv (debts y) \<and> reservations y = res_tokens (debts y) \<and>
     finishes y = fin_tokens (debts y) \<and> wakes y = wake_tokens (debts y)"

lemma slot_armed:
  assumes "queues {} d qs" "s < length (slots d)" "phase (slots d ! s) \<notin> {Taken, Parked}"
  shows "\<not> wake_armed (slots d ! s)"
  using queues_slot(1) [OF assms(1,2)] assms(3) by (auto simp: slot_ok_def)

lemma sys_reserve:
  assumes "wd_inv d" "reserve_in d a b = (Ok r, d')"
  shows "wd_inv d' \<and> res_tokens d' = insert r (res_tokens d) \<and> fin_tokens d' = fin_tokens d \<and> wake_tokens d' = wake_tokens d"
proof -
  obtain qs where qs: "queues {} d qs"
    using assms(1) by (auto simp: wd_inv_def)
  obtain s where s: "s < length (slots d)" "phase (slots d ! s) = Empty"
    "r = Reservation (table_id d) s (generation (slots d ! s))" "queues {} d' qs"
    "eff d s ((slots d ! s)\<lparr>phase := Reserved\<rparr>) d'"
    using reserve_in_ok [OF qs assms(2)] by auto
  then show ?thesis
    using eff_tokens [OF s(5,1)] tokens_none [of d s] slot_armed [OF qs s(1)] by (auto simp: wd_inv_def)
qed

lemma sys_cancel:
  assumes "wd_inv d" "r \<in> res_tokens d" "cancel d r = (Ok (), d')"
  shows "wd_inv d' \<and> res_tokens d' = res_tokens d - {r} \<and> fin_tokens d' = fin_tokens d \<and> wake_tokens d' = wake_tokens d"
proof -
  obtain qs where qs: "queues {} d qs"
    using assms(1) by (auto simp: wd_inv_def)
  note r = res_token [OF assms(2)]
  have e: "queues {} d' qs" "eff d (res_slot r) ((slots d ! res_slot r)\<lparr>phase := Empty\<rparr>) d'"
    using debt_cancel_ok [OF qs assms(2)] assms(3) by auto
  show ?thesis
    using e(1) eff_tokens [OF e(2) r(2)] tokens_other(1) [OF assms(2)] tokens_none(2,3) [of d "res_slot r"] r(3)
      slot_armed [OF qs r(2)] by (auto simp: wd_inv_def)
qed

lemma sys_publish:
  assumes "wd_inv d" "r \<in> res_tokens d" "publish d r k v = Some (Ok (), d')"
  shows "wd_inv d' \<and> res_tokens d' = res_tokens d - {r} \<and> fin_tokens d' = fin_tokens d \<and> wake_tokens d' = wake_tokens d"
proof -
  obtain qs where qs: "queues {} d qs"
    using assms(1) by (auto simp: wd_inv_def)
  note r = res_token [OF assms(2)]
  have "k < length (heads d)"
    using assms(3) by (auto simp: publish_def split: if_splits)
  then have e: "queues {} d' (qs(k := qs k @ [res_slot r]))"
    "eff d (res_slot r) ((slots d ! res_slot r)\<lparr>owner := k, next := None, value := Some v, phase := Pending\<rparr>) d'"
    using publish_ok [OF qs assms(2), of k v] assms(3) by auto
  then have "wd_inv d'"
    unfolding wd_inv_def by blast
  then show ?thesis
    using eff_tokens [OF e(2) r(2)] tokens_other(1) [OF assms(2)] tokens_none(2,3) [of d "res_slot r"] r(3)
      slot_armed [OF qs r(2)] by auto
qed

lemma sys_take:
  assumes "wd_inv d" "take_debt d k = Some (Some (TakenWork t v), d')"
  shows "wd_inv d' \<and> res_tokens d' = res_tokens d \<and> fin_tokens d' = insert t (fin_tokens d) \<and> wake_tokens d' = wake_tokens d"
proof -
  obtain qs where qs: "queues {} d qs"
    using assms(1) by (auto simp: wd_inv_def)
  have "k < length (heads d)" "qs k \<noteq> []"
    using take_none [OF qs, of k] assms(2) by auto
  then obtain s rest where k: "k < length (heads d)" "qs k = s # rest"
    by (cases "qs k") auto
  have s: "s < length (slots d)" "phase (slots d ! s) = Pending" "owner (slots d ! s) = k"
    "t = FinishToken (table_id d) k s (generation (slots d ! s))" "queues {} d' (qs(k := rest))"
    "eff d s (taken_slot (slots d ! s)) d'"
    using take_ok [OF qs k] assms(2) by auto
  have "wd_inv d'"
    using s(5) unfolding wd_inv_def by blast
  then show ?thesis
    using eff_tokens [OF s(6,1)] tokens_none [of d s] s(2-4) slot_armed [OF qs s(1)] by (auto simp: taken_slot_def)
qed


lemma idle_not_armed: "idle_entry d t = Some e \<Longrightarrow> \<not> wake_armed (slots d ! fin_slot t)"
  by (auto simp: idle_entry_def entry_mut_def at_def split: if_splits option.splits)

lemma sys_fin:
  assumes "wd_inv d" "t \<in> fin_tokens d" "\<not> wake_armed (slots d ! fin_slot t)"
    and "queues {} d' qs'" "eff d (fin_slot t) e d'" "phase e \<noteq> Taken" "wake_armed e = wake_armed (slots d ! fin_slot t)"
  shows "wd_inv d' \<and> fin_tokens d' = fin_tokens d - {t} \<and> wake_tokens d' = wake_tokens d \<and>
    res_tokens d' = (if phase e = Reserved then insert (Reservation (table_id d) (fin_slot t) (generation e)) (res_tokens d)
      else res_tokens d)"
proof -
  note t = fin_token [OF assms(2)]
  have "wd_inv d'"
    using assms(4) unfolding wd_inv_def by blast
  then show ?thesis
    using eff_tokens [OF assms(5) t(2)] tokens_other(2) [OF assms(2)] tokens_none(1,3) [of d "fin_slot t"] t(3) assms(3,6,7)
    by auto
qed

lemma sys_requeue:
  assumes "wd_inv d" "t \<in> fin_tokens d" "requeue d t v = Some (Ok (), d')"
  shows "wd_inv d' \<and> fin_tokens d' = fin_tokens d - {t} \<and> wake_tokens d' = wake_tokens d \<and> res_tokens d' = res_tokens d"
proof -
  obtain qs where qs: "queues {} d qs"
    using assms(1) by (auto simp: wd_inv_def)
  have n: "\<not> wake_armed (slots d ! fin_slot t)"
    using assms(3) idle_not_armed by (auto simp: requeue_def split: option.splits)
  have e: "queues {} d' (qs(fin_owner t := qs (fin_owner t) @ [fin_slot t]))"
    "eff d (fin_slot t) ((slots d ! fin_slot t)\<lparr>value := Some v, next := None, phase := Pending\<rparr>) d'"
    using requeue_ok [OF qs assms(2) n, of v] assms(3) by auto
  show ?thesis
    using sys_fin [OF assms(1,2) n e] by simp
qed

lemma sys_finish:
  assumes "wd_inv d" "t \<in> fin_tokens d" "finish d t = Some (Ok (), d')"
  shows "wd_inv d' \<and> fin_tokens d' = fin_tokens d - {t} \<and> wake_tokens d' = wake_tokens d \<and> res_tokens d' = res_tokens d"
proof -
  obtain qs where qs: "queues {} d qs"
    using assms(1) by (auto simp: wd_inv_def)
  have n: "\<not> wake_armed (slots d ! fin_slot t)"
    using assms(3) idle_not_armed by (auto simp: finish_def split: option.splits)
  have e: "queues {} d' qs" "eff d (fin_slot t) (finished_slot (slots d ! fin_slot t)) d'"
    using finish_ok [OF qs assms(2) n] assms(3) by auto
  show ?thesis
    using sys_fin [OF assms(1,2) n e] by (simp add: finished_slot_def split: if_splits)
qed

lemma sys_rearm:
  assumes "wd_inv d" "t \<in> fin_tokens d" "rearm d t = Some (Ok r, d')"
  shows "wd_inv d' \<and> fin_tokens d' = fin_tokens d - {t} \<and> wake_tokens d' = wake_tokens d \<and> res_tokens d' = insert r (res_tokens d)"
proof -
  obtain qs where qs: "queues {} d qs"
    using assms(1) by (auto simp: wd_inv_def)
  have n: "\<not> wake_armed (slots d ! fin_slot t)"
    using assms(3) idle_not_armed by (auto simp: rearm_def split: option.splits)
  have e: "queues {} d' qs" "eff d (fin_slot t) ((slots d ! fin_slot t)\<lparr>phase := Reserved\<rparr>) d'"
    "r = Reservation (fin_table t) (fin_slot t) (fin_generation t)"
    using rearm_ok [OF qs assms(2) n] assms(3) by auto
  show ?thesis
    using sys_fin [OF assms(1,2) n e(1,2)] e(3) fin_token [OF assms(2)] by simp
qed

lemma sys_arm:
  assumes "wd_inv d" "t \<in> fin_tokens d" "arm_wake d t = (Some w, d')"
  shows "wd_inv d' \<and> fin_tokens d' = fin_tokens d \<and> wake_tokens d' = insert w (wake_tokens d) \<and> res_tokens d' = res_tokens d"
proof -
  obtain qs where qs: "queues {} d qs"
    using assms(1) by (auto simp: wd_inv_def)
  note t = fin_token [OF assms(2)]
  have e: "\<not> wake_armed (slots d ! fin_slot t)" "queues {} d' qs"
    "eff d (fin_slot t) ((slots d ! fin_slot t)\<lparr>wake_armed := True\<rparr>) d'"
    "w = WakeToken (fin_table t) (fin_owner t) (fin_slot t) (fin_generation t)"
    using arm_wake_ok [OF qs assms(2)] assms(3) by (auto split: if_splits)
  have "t = FinishToken (table_id d) (owner (slots d ! fin_slot t)) (fin_slot t) (generation (slots d ! fin_slot t))"
    using t(1,5,6) by (metis finish_token.collapse)
  then have "fin_tokens d' = fin_tokens d"
    using eff_tokens(2) [OF e(3) t(2)] tokens_other(2) [OF assms(2)] t(3) assms(2) by auto
  moreover have "wd_inv d'"
    using e(2) unfolding wd_inv_def by blast
  ultimately show ?thesis
    using eff_tokens(1,3) [OF e(3) t(2)] tokens_none(1,3) [of d "fin_slot t"] t e(1,4) by auto
qed

lemma sys_park:
  assumes "wd_inv d" "t \<in> fin_tokens d" "park d t v = Some (Ok p, d')"
  shows "wd_inv d' \<and> fin_tokens d' = fin_tokens d - {t} \<and> wake_tokens d' = wake_tokens d \<and> res_tokens d' = res_tokens d"
proof -
  obtain qs where qs: "queues {} d qs"
    using assms(1) by (auto simp: wd_inv_def)
  note t = fin_token [OF assms(2)]
  let ?e = "slots d ! fin_slot t"
  have a: "wake_armed ?e \<or> woken ?e"
    using assms(3) t by (auto simp: park_def split: if_splits)
  have e: "eff d (fin_slot t) (parked_slot ?e v) d'" "wd_inv d'"
    using debt_park_ok [OF qs assms(2) a, of v] assms(3) by (auto simp: wd_inv_def)
  have f: "owner (parked_slot ?e v) = owner ?e" "generation (parked_slot ?e v) = generation ?e"
    "wake_armed (parked_slot ?e v) = wake_armed ?e" "phase (parked_slot ?e v) \<notin> {Taken, Reserved}"
    by (auto simp: parked_slot_def)
  have "wake_tokens d' = wake_tokens d"
  proof (cases "wake_armed ?e")
    case True
    then have w: "WakeToken (table_id d) (owner ?e) (fin_slot t) (generation ?e) \<in> wake_tokens d"
      using t(2) by (auto simp: wake_tokens_def)
    show ?thesis
      using eff_tokens(3) [OF e(1) t(2)] tokens_other(3) [OF w] True w by (auto simp: f)
  next
    case False
    then show ?thesis
      using eff_tokens(3) [OF e(1) t(2)] tokens_none(3) [of d "fin_slot t"] by (simp add: f)
  qed
  then show ?thesis
    using eff_tokens(1,2) [OF e(1) t(2)] tokens_none(1) [of d "fin_slot t"] tokens_other(2) [OF assms(2)] t(3) e(2) f(4) by simp
qed


lemma sys_wake_slot:
  assumes "w \<in> wake_tokens d" "eff d (wake_slot w) e d'" "\<not> wake_armed e"
    and "phase e = Taken \<longleftrightarrow> phase (slots d ! wake_slot w) = Taken" "phase e \<noteq> Reserved" "phase (slots d ! wake_slot w) \<noteq> Reserved"
    and "owner e = owner (slots d ! wake_slot w)" "generation e = generation (slots d ! wake_slot w)"
  shows "fin_tokens d' = fin_tokens d \<and> wake_tokens d' = wake_tokens d - {w} \<and> res_tokens d' = res_tokens d"
proof -
  note w = wake_token [OF assms(1)]
  have "fin_tokens d' = fin_tokens d"
  proof (cases "phase e = Taken")
    case True
    then have t: "FinishToken (table_id d) (owner e) (wake_slot w) (generation e) \<in> fin_tokens d"
      using w(2) assms(4,7,8) by (auto simp: fin_tokens_def)
    show ?thesis
      using eff_tokens(2) [OF assms(2) w(2)] tokens_other(2) [OF t] True t by auto
  next
    case False
    then show ?thesis
      using eff_tokens(2) [OF assms(2) w(2)] tokens_none(2) [of d "wake_slot w"] assms(4) by simp
  qed
  then show ?thesis
    using eff_tokens(1,3) [OF assms(2) w(2)] tokens_none(1) [of d "wake_slot w"] tokens_other(3) [OF assms(1)] assms(3,5,6) by simp
qed

lemma wake_phase:
  assumes "queues {} d qs" "w \<in> wake_tokens d"
  shows "phase (slots d ! wake_slot w) = Taken \<or> phase (slots d ! wake_slot w) = Parked"
  using queues_slot(1) [OF assms(1) wake_token(2) [OF assms(2)]] wake_token(3) [OF assms(2)] by (simp add: slot_ok_def)

lemma sys_wake:
  assumes "wd_inv d" "w \<in> wake_tokens d" "wake d w = Some (Ok u, d')"
  shows "wd_inv d' \<and> fin_tokens d' = fin_tokens d \<and> wake_tokens d' = wake_tokens d - {w} \<and> res_tokens d' = res_tokens d"
proof -
  obtain qs where qs: "queues {} d qs"
    using assms(1) by (auto simp: wd_inv_def)
  have e: "eff d (wake_slot w) (woken_slot (slots d ! wake_slot w)) d'" "wd_inv d'"
    using wake_ok [OF qs assms(2)] assms(3) by (auto simp: wd_inv_def)
  then show ?thesis
    using sys_wake_slot [OF assms(2) e(1)] wake_phase [OF qs assms(2)] by (auto simp: woken_slot_def)
qed

lemma sys_cancel_wake:
  assumes "wd_inv d" "w \<in> wake_tokens d" "cancel_wake d w = (Ok (), d')"
  shows "wd_inv d' \<and> fin_tokens d' = fin_tokens d \<and> wake_tokens d' = wake_tokens d - {w} \<and> res_tokens d' = res_tokens d"
proof -
  obtain qs where qs: "queues {} d qs"
    using assms(1) by (auto simp: wd_inv_def)
  have e: "eff d (wake_slot w) ((slots d ! wake_slot w)\<lparr>wake_armed := False\<rparr>) d'" "wd_inv d'"
    using cancel_wake_ok [OF qs assms(2)] assms(3) by (auto simp: wd_inv_def split: if_splits)
  then show ?thesis
    using sys_wake_slot [OF assms(2) e(1)] wake_phase [OF qs assms(2)] by auto
qed

lemma sys_init: "wd_init y \<Longrightarrow> sys_inv y"
proof -
  assume "wd_init y"
  then obtain tid owners n where n: "new_with_id tid owners n = Some (debts y)"
    and e: "reservations y = {}" "finishes y = {}" "wakes y = {}"
    by (auto simp: wd_init_def)
  have d: "debts y = \<lparr>table_id = tid, slots = replicate n empty_slot, heads = replicate owners None,
      tails = replicate owners None, reserve_cursor = 0\<rparr>"
    using n by (auto simp: new_with_id_def split: if_splits)
  have "queues {} (debts y) (\<lambda>k. [])"
    by (simp add: d queues_def chained_def slotted_def slot_ok_def empty_slot_def last_of_def)
  then show "sys_inv y"
    by (auto simp: sys_inv_def wd_inv_def d e token_defs empty_slot_def)
qed

lemma sys_step:
  assumes "sys_inv y" "wd_step y y'"
  shows "sys_inv y'"
  using assms(2,1)
proof cases
  case (wd_reserve a b r d)
  then show ?thesis
    using sys_reserve [of "debts y" a b r d] assms(1) by (simp add: sys_inv_def)
next
  case (wd_cancel r d)
  then show ?thesis
    using sys_cancel [of "debts y" r d] assms(1) by (simp add: sys_inv_def)
next
  case (wd_publish r k v d)
  then show ?thesis
    using sys_publish [of "debts y" r k v d] assms(1) by (simp add: sys_inv_def)
next
  case (wd_take k t v d)
  then show ?thesis
    using sys_take [of "debts y" k t v d] assms(1) by (simp add: sys_inv_def)
next
  case (wd_requeue t v d)
  then show ?thesis
    using sys_requeue [of "debts y" t v d] assms(1) by (simp add: sys_inv_def)
next
  case (wd_arm t w d)
  then show ?thesis
    using sys_arm [of "debts y" t w d] assms(1) by (simp add: sys_inv_def)
next
  case (wd_cancel_wake w d)
  then show ?thesis
    using sys_cancel_wake [of "debts y" w d] assms(1) by (simp add: sys_inv_def)
next
  case (wd_park t v p d)
  then show ?thesis
    using sys_park [of "debts y" t v p d] assms(1) by (simp add: sys_inv_def)
next
  case (wd_wake w u d)
  then show ?thesis
    using sys_wake [of "debts y" w u d] assms(1) by (simp add: sys_inv_def)
next
  case (wd_finish t d)
  then show ?thesis
    using sys_finish [of "debts y" t d] assms(1) by (simp add: sys_inv_def)
next
  case (wd_rearm t r d)
  then show ?thesis
    using sys_rearm [of "debts y" t r d] assms(1) by (simp add: sys_inv_def)
qed

interpretation wd_run: inv_system wd_init wd_step sys_inv
  by unfold_locales (fact sys_init, fact sys_step)

definition wd_reachable :: "'a wd_sys \<Rightarrow> bool" where
  "wd_reachable y \<longleftrightarrow> (\<exists>y0. wd_init y0 \<and> wd_step\<^sup>*\<^sup>* y0 y)"

lemma wd_reachable_inv: "wd_reachable y \<Longrightarrow> sys_inv y"
  unfolding wd_reachable_def using wd_run.inv_reachable by blast


lemma wd_reachable_step: "wd_reachable y \<Longrightarrow> wd_step y y' \<Longrightarrow> wd_reachable y'"
  unfolding wd_reachable_def by (metis rtranclp.rtrancl_into_rtrancl)


lemma park_after_wake:
  assumes "queues {} d qs" "t \<in> fin_tokens d" "w \<in> wake_tokens d" "wake_slot w = fin_slot t"
  shows "\<exists>d1 d2 d'. wake d w = Some (Ok Latched, d1) \<and> park d1 t v = Some (Ok ParkRunnable, d') \<and>
    park d t v = Some (Ok ParkParked, d2) \<and> wake d2 w = Some (Ok (WakeRunnable (fin_owner t)), d') \<and>
    queue_of d' = (queue_of d)(fin_owner t := queue_of d (fin_owner t) @ [v])"
proof -
  let ?s = "fin_slot t" and ?k = "fin_owner t"
  let ?e = "slots d ! ?s"
  note t = fin_token [OF assms(2)] and w = wake_token [OF assms(3), unfolded assms(4)]
  have ok: "slot_ok (length (heads d)) ?e"
    using queues_slot(1) [OF assms(1) t(2)] .
  then have nw: "\<not> woken ?e" "?k < length (heads d)"
    using t(3,5) w(3) by (auto simp: slot_ok_def)
  let ?x = "?e\<lparr>value := Some v, next := None, wake_armed := False, woken := False, phase := Pending\<rparr>"
  have "slot_ok (length (heads d)) ?x"
    using ok t(3) by (auto simp: slot_ok_def)
  then obtain d' where d': "append_slot (put d ?s ?x) ?k ?s = Some d'" "queues {} d' (qs(?k := qs ?k @ [?s]))" "eff d ?s ?x d'"
    using enqueue_ok [OF assms(1) t(2), of ?x ?k] t(3,5) by auto
  have q: "queue_of d' = (queue_of d)(?k := queue_of d ?k @ [v])"
    using queue_enqueue [OF assms(1) d'(2,3) t(2)] t(3) nw(2) by simp
  have twice: "put (put d ?s a) ?s b = put d ?s b" for a b
    by (simp add: put_def)
  have ent: "entry_mut (put d ?s a) ?s g = (if generation a = g then Some a else None)" for a g
    using t(2) by (simp add: entry_mut_def at_def)
  have g: "wake_generation w = generation ?e" "fin_generation t = generation ?e" "wake_owner w = ?k"
    using assms(2-4) w(5) t(5) by (auto simp: wake_tokens_def fin_tokens_def)
  have x: "?e\<lparr>wake_armed := False, value := Some v, next := None, woken := False, phase := Pending\<rparr> = ?x"
    "?e\<lparr>value := Some v, next := None, wake_armed := False, phase := Pending\<rparr> = ?x"
    using nw(1) by (simp_all add: slot.equality)
  let ?a = "?e\<lparr>wake_armed := False, woken := True\<rparr>" and ?b = "?e\<lparr>value := Some v, next := None, phase := Parked\<rparr>"
  have "wake d w = Some (Ok Latched, put d ?s ?a)"
    using w t(3) assms(4) by (simp add: wake_def Let_def)
  moreover have "park (put d ?s ?a) t v = Some (Ok ParkRunnable, d')"
    using d'(1) t(1,3,5) g ent [of ?a] by (simp add: park_def Let_def twice x(1))
  moreover have "park d t v = Some (Ok ParkParked, put d ?s ?b)"
    using t w(3) nw(1) by (simp add: park_def Let_def)
  moreover have "wake (put d ?s ?b) w = Some (Ok (WakeRunnable ?k), d')"
    using d'(1) w(1,3) t(5) assms(4) g ent [of ?b] nw(1) by (simp add: wake_def Let_def twice x(2))
  ultimately show ?thesis
    using q by blast
qed

section \<open>The fair budget\<close>

fun charge_all :: "fair_budget \<Rightarrow> (nat \<times> nat) list \<Rightarrow> fair_budget option" where
  "charge_all b [] = Some b"
| "charge_all b ((c, w) # cs) = do { b' \<leftarrow> charge b c w; charge_all b' cs }"

abbreviation reserved_after :: "bool list \<Rightarrow> nat \<Rightarrow> nat" where
  "reserved_after ps c \<equiv> length (filter id (drop (c + 1) ps))"

lemma length_filter_drop: "length (filter P (drop n xs)) \<le> length (filter P xs)"
proof -
  have "filter P xs = filter P (take n xs) @ filter P (drop n xs)"
    by (metis append_take_drop_id filter_append)
  then show ?thesis
    by simp
qed

lemma reserved_after_mono: "c \<le> c' \<Longrightarrow> reserved_after ps c' \<le> reserved_after ps c"
proof -
  assume "c \<le> c'"
  then have "drop (c' + 1) ps = drop (c' - c) (drop (c + 1) ps)"
    by simp
  then show ?thesis
    using length_filter_drop [of id "c' - c" "drop (c + 1) ps"] by simp
qed

lemma reserved_after_pending:
  assumes "c < c'" "c' < length ps" "ps ! c'"
  shows "reserved_after ps c' < reserved_after ps c"
proof -
  have "drop c' ps = ps ! c' # drop (c' + 1) ps"
    using assms(2) by (simp add: Cons_nth_drop_Suc)
  then have "reserved_after ps c' < length (filter id (drop c' ps))"
    using assms(3) by simp
  also have "\<dots> \<le> reserved_after ps c"
    using reserved_after_mono [of c "c' - 1" ps] assms(1) by simp
  finally show ?thesis .
qed

definition budget_ok :: "nat \<Rightarrow> bool list \<Rightarrow> fair_budget \<Rightarrow> bool" where
  "budget_ok tot ps b \<longleftrightarrow> total b = tot \<and> pending b = ps \<and> 0 < turn_limit b \<and>
     used b + reserved_after ps (class_index b) \<le> tot"

lemma charge_ok:
  assumes "budget_ok tot ps b" "charge b c w = Some b'"
  shows "budget_ok tot ps b' \<and> used b' = used b + w \<and> class_index b' = c"
proof -
  have c: "class_index b \<le> c" "w \<le> tot - reserved_after ps c - used b"
    "b' = b\<lparr>class_index := c, used := used b + w\<rparr>"
    using assms by (auto simp: charge_def remaining_def budget_ok_def split: if_splits)
  moreover have "reserved_after ps c + used b \<le> tot"
    using reserved_after_mono [OF c(1), of ps] assms(1) by (simp add: budget_ok_def)
  ultimately show ?thesis
    using assms(1) by (simp add: budget_ok_def)
qed

lemma charge_all_ok:
  "budget_ok tot ps b \<Longrightarrow> charge_all b cs = Some b' \<Longrightarrow>
     budget_ok tot ps b' \<and> used b' = used b + sum_list (map snd cs)"
proof (induction cs arbitrary: b)
  case (Cons p cs)
  obtain c w where p: "p = (c, w)"
    by fastforce
  obtain b1 where b1: "charge b c w = Some b1" "charge_all b1 cs = Some b'"
    using Cons.prems(2) by (auto simp: p bind_eq_Some_conv)
  then show ?case
    using charge_ok [OF Cons.prems(1) b1(1)] Cons.IH [of b1] by (simp add: p)
qed simp


section \<open>A run used by the witnesses\<close>

text \<open>One owner and one slot: reserve, publish 7, take it and arm a wake.\<close>

definition demo_slot :: "phase \<Rightarrow> nat option \<Rightarrow> bool \<Rightarrow> nat slot" where
  "demo_slot p v a = \<lparr>generation = 1, phase = p, owner = 0, next = None, value = v, wake_armed = a, woken = False\<rparr>"

definition demo_debts :: "nat slot \<Rightarrow> nat option \<Rightarrow> nat work_debts" where
  "demo_debts e h = \<lparr>table_id = TableId 10, slots = [e], heads = [h], tails = [h], reserve_cursor = 0\<rparr>"

definition demo_sys :: "nat wd_sys" where
  "demo_sys = \<lparr>debts = demo_debts (demo_slot Taken None True) None, reservations = {},
     finishes = {FinishToken (TableId 10) 0 0 1}, wakes = {WakeToken (TableId 10) 0 0 1}\<rparr>"

lemmas wd_eval = demo_slot_def demo_debts_def Let_def at_def put_def entry_mut_def append_slot_def reserve_in_def publish_def
  take_debt_def arm_wake_def

lemma demo_sys_run: "wd_reachable demo_sys"
proof -
  let ?y0 = "\<lparr>debts = demo_debts (demo_slot Empty None False) None, reservations = {}, finishes = {}, wakes = {}\<rparr> :: nat wd_sys"
  let ?y1 = "?y0\<lparr>debts := demo_debts (demo_slot Reserved None False) None, reservations := {Reservation (TableId 10) 0 1}\<rparr>"
  let ?y2 = "?y0\<lparr>debts := demo_debts (demo_slot Pending (Some 7) False) (Some 0)\<rparr>"
  let ?y3 = "?y0\<lparr>debts := demo_debts (demo_slot Taken None False) None, finishes := {FinishToken (TableId 10) 0 0 1}\<rparr>"
  have "new_with_id (TableId 10) 1 1 = Some (debts ?y0)"
    by (simp add: new_with_id_def wd_eval empty_slot_def)
  then have "wd_init ?y0"
    unfolding wd_init_def by auto
  then have "wd_reachable ?y0"
    unfolding wd_reachable_def by blast
  moreover have "wd_step ?y0 ?y1"
    using wd_reserve [of ?y0 0 1 "Reservation (TableId 10) 0 1" "debts ?y1"] by (simp add: wd_eval)
  moreover have "wd_step ?y1 ?y2"
    using wd_publish [of "Reservation (TableId 10) 0 1" ?y1 0 7 "debts ?y2"] by (simp add: wd_eval)
  moreover have "wd_step ?y2 ?y3"
    using wd_take [of ?y2 0 "FinishToken (TableId 10) 0 0 1" 7 "debts ?y3"] by (simp add: wd_eval)
  moreover have "wd_step ?y3 demo_sys"
    using wd_arm [of "FinishToken (TableId 10) 0 0 1" ?y3 "WakeToken (TableId 10) 0 0 1" "debts demo_sys"]
    by (simp add: wd_eval demo_sys_def)
  ultimately show ?thesis
    using wd_reachable_step by blast
qed

section \<open>Properties\<close>



text \<open>
  Claim C19. Work is first in, first out, and none is lost: publishing and requeueing append to the queue of one
  owner and leave the others alone, and taking \<open>n\<close> times from an owner delivers the first \<open>n\<close> items that wait there, in
  order.
\<close>

theorem debt_fifo:
  assumes "wd_reachable y"
  shows "(\<forall>r \<in> reservations y. \<forall>k v d. publish (debts y) r k v = Some (Ok (), d) \<longrightarrow>
      queue_of d = (queue_of (debts y))(k := queue_of (debts y) k @ [v])) \<and>
    (\<forall>t \<in> finishes y. \<forall>v d. requeue (debts y) t v = Some (Ok (), d) \<longrightarrow>
      queue_of d = (queue_of (debts y))(fin_owner t := queue_of (debts y) (fin_owner t) @ [v])) \<and>
    (\<exists>ws d. wd.drain n (debts y) k = Some (ws, d) \<and> map taken_value ws = take n (queue_of (debts y) k) \<and>
      queue_of d = (queue_of (debts y))(k := drop n (queue_of (debts y) k)))"
proof -
  note i = wd_reachable_inv [OF assms, unfolded sys_inv_def]
  then obtain qs where qs: "queues {} (debts y) qs"
    by (auto simp: wd_inv_def)
  have "queue_of d = (queue_of (debts y))(k := queue_of (debts y) k @ [v])"
    if r: "r \<in> reservations y" and p: "publish (debts y) r k v = Some (Ok (), d)" for r k v d
  proof -
    have r: "r \<in> res_tokens (debts y)"
      using r i by blast
    have k: "k < length (heads (debts y))"
      using p by (auto simp: publish_def split: if_splits)
    have "queues {} d (qs(k := qs k @ [res_slot r]))"
      "eff (debts y) (res_slot r) ((slots (debts y) ! res_slot r)\<lparr>owner := k, next := None, value := Some v, phase := Pending\<rparr>) d"
      using publish_ok [OF qs r k, of v] p by auto
    from queue_enqueue [OF qs this] show ?thesis
      using res_token [OF r] k by simp
  qed
  moreover have "queue_of d = (queue_of (debts y))(fin_owner t := queue_of (debts y) (fin_owner t) @ [v])"
    if t: "t \<in> finishes y" and p: "requeue (debts y) t v = Some (Ok (), d)" for t v d
  proof -
    have t: "t \<in> fin_tokens (debts y)"
      using t i by blast
    have n: "\<not> wake_armed (slots (debts y) ! fin_slot t)"
      using p idle_not_armed by (auto simp: requeue_def split: option.splits)
    have "queues {} d (qs(fin_owner t := qs (fin_owner t) @ [fin_slot t]))"
      "eff (debts y) (fin_slot t) ((slots (debts y) ! fin_slot t)\<lparr>value := Some v, next := None, phase := Pending\<rparr>) d"
      using requeue_ok [OF qs t n, of v] p by auto
    moreover have "fin_owner t < length (heads (debts y))"
      using queues_slot(1) [OF qs fin_token(2) [OF t]] fin_token(3,5) [OF t] by (auto simp: slot_ok_def)
    ultimately show ?thesis
      using queue_enqueue [OF qs] fin_token(2,3) [OF t] by simp
  qed
  ultimately show ?thesis
    using wd.drain_in_order [of "debts y" n k] i by blast
qed

theorem debt_fifo_witness:
  "\<exists>ws d. wd.drain 2 (debts demo_sys) 0 = Some (ws, d) \<and> map taken_value ws = take 2 (queue_of (debts demo_sys) 0)"
  using debt_fifo [OF demo_sys_run, of 2 0] by blast

text \<open>
  Claim C17. A wake-up is never lost. For a taken debt with an armed wake the two orders of \<open>park\<close> and
  \<open>wake\<close> end in the same table, with the payload at the end of its owner's queue: a wake that comes first is latched and
  makes \<open>park\<close> report runnable, one that comes second requeues the parked debt.
\<close>

theorem wake_never_lost:
  assumes "wd_reachable y" "t \<in> finishes y" "w \<in> wakes y" "wake_slot w = fin_slot t"
  shows "\<exists>d1 d2 d. wake (debts y) w = Some (Ok Latched, d1) \<and> park d1 t v = Some (Ok ParkRunnable, d) \<and>
    park (debts y) t v = Some (Ok ParkParked, d2) \<and> wake d2 w = Some (Ok (WakeRunnable (fin_owner t)), d) \<and>
    queue_of d = (queue_of (debts y))(fin_owner t := queue_of (debts y) (fin_owner t) @ [v])"
proof -
  note i = wd_reachable_inv [OF assms(1), unfolded sys_inv_def]
  then obtain qs where "queues {} (debts y) qs"
    by (auto simp: wd_inv_def)
  then show ?thesis
    using park_after_wake [of "debts y" qs t w v] assms(2-4) i by auto
qed

theorem wake_never_lost_witness:
  "\<exists>d1 d2 d. wake (debts demo_sys) (WakeToken (TableId 10) 0 0 1) = Some (Ok Latched, d1) \<and>
    park d1 (FinishToken (TableId 10) 0 0 1) 7 = Some (Ok ParkRunnable, d) \<and>
    park (debts demo_sys) (FinishToken (TableId 10) 0 0 1) 7 = Some (Ok ParkParked, d2) \<and>
    wake d2 (WakeToken (TableId 10) 0 0 1) = Some (Ok (WakeRunnable 0), d)"
  using wake_never_lost [OF demo_sys_run, of "FinishToken (TableId 10) 0 0 1" "WakeToken (TableId 10) 0 0 1" 7]
  by (auto simp: demo_sys_def)

text \<open>
  Claim C20. The budget of a safe point is fair. However the earlier classes charge it, the work charged never exceeds
  the total, and every class that was pending at the start and has not had its turn still gets at least
  one unit of work, which it can charge.
\<close>

theorem budget_is_fair:
  assumes "FairBudget_new tot lim ps = Some b0" "tot < usize_bound" "charge_all b0 cs = Some b"
  shows "used b = sum_list (map snd cs) \<and> used b \<le> tot \<and>
    (\<forall>c. class_index b < c \<and> c < length ps \<and> ps ! c \<longrightarrow>
      (\<exists>n b'. turn b c = Some (n, b') \<and> 0 < n \<and> charge b c n \<noteq> None))"
proof -
  have b0: "budget_ok tot ps b0" "used b0 = 0"
    using assms(1) le_trans [OF length_filter_drop [of id 1 ps]]
    by (auto simp: FairBudget_new_def budget_ok_def split: if_splits)
  then have b: "budget_ok tot ps b" "used b = sum_list (map snd cs)"
    using charge_all_ok [OF b0(1) assms(3)] by simp_all
  have "\<exists>n b'. turn b c = Some (n, b') \<and> 0 < n \<and> charge b c n \<noteq> None"
    if "class_index b < c" "c < length ps" "ps ! c" for c
  proof -
    let ?n = "min (tot - reserved_after ps c - used b) (turn_limit b)"
    have "turn b c = Some (?n, b\<lparr>class_index := c\<rparr>)" "charge b c ?n \<noteq> None"
      using b(1) that assms(2) by (auto simp: turn_def remaining_def charge_def budget_ok_def usize_add_def)
    moreover have "0 < ?n"
      using reserved_after_pending [OF that] b(1) by (simp add: budget_ok_def)
    ultimately show ?thesis
      by blast
  qed
  then show ?thesis
    using b by (simp add: budget_ok_def)
qed

theorem budget_is_fair_witness:
  "\<exists>b. FairBudget_new 4 8 [True, False, True] = Some b \<and>
     (\<exists>b'. charge_all b [(0, 2), (0, 1)] = Some b' \<and> used b' = 3 \<and> (\<exists>n b''. turn b' 2 = Some (n, b'') \<and> 0 < n))"
proof -
  let ?b = "\<lparr>total = 4, turn_limit = 8, pending = [True, False, True], used = 0, class_index = 0\<rparr>"
  have n: "FairBudget_new 4 8 [True, False, True] = Some ?b"
    by (simp add: FairBudget_new_def)
  have c: "charge_all ?b [(0, 2), (0, 1)] = Some (?b\<lparr>used := 3\<rparr>)"
    by (simp add: charge_def remaining_def usize_add_def)
  have "used (?b\<lparr>used := 3\<rparr>) = 3 \<and> (\<exists>m b''. turn (?b\<lparr>used := 3\<rparr>) 2 = Some (m, b'') \<and> 0 < m)"
    using budget_is_fair [OF n _ c] by (auto dest!: spec [of _ 2])
  then show ?thesis
    using n c by blast
qed

end
