(* ===== verification/Wait_Core.thy ===== *)
theory Wait_Core
  imports Timer_Queue
begin

text \<open>
  The lock-free wait core of \<open>os/wait_context\<close>: the hand-over of the right to complete a wait between an
  installer and concurrent offers (\<open>WaitCore\<close>), and the registration of its timeout
  (\<open>TimeoutRegistration\<close>).

  Every atomic access is one function on the shared words. A \<open>compare_exchange_weak\<close> loop is one such function
  as well: \<open>cas_loop_atomic\<close> below shows that, whatever other threads do, such a loop takes effect at one access.
  \<open>Wait_Core_Threads\<close> interleaves these functions.
\<close>

section \<open>Weak compare-and-exchange loops\<close>

text \<open>
  \<open>let mut current = load; loop { if no change wanted { return } match compare_exchange_weak(current, f current)
  { Ok => return, Err(changed) => current = changed } }\<close>. The loop is given the values the shared word has at
  each of its exchanges, and whether the exchange fails spuriously. \<open>f\<close> returns \<^const>\<open>None\<close> for no change.
  The result is the value the decision was taken on and the value written, if any; \<^const>\<open>None\<close> when the
  accesses given run out before the loop returns.
\<close>

fun cas_loop :: "('w \<Rightarrow> 'w option) \<Rightarrow> 'w \<Rightarrow> ('w \<times> bool) list \<Rightarrow> ('w \<times> 'w option) option" where
  "cas_loop f current [] = (if f current = None then Some (current, None) else None)"
| "cas_loop f current ((seen, spurious) # rest) =
     (case f current of
        None \<Rightarrow> Some (current, None)
      | Some w \<Rightarrow>
          if seen = current \<and> \<not> spurious then Some (seen, Some w) else cas_loop f seen rest)"

lemma cas_loop_atomic:
  "cas_loop f current accesses = Some (w, r) \<Longrightarrow>
     r = f w \<and> w \<in> insert current (fst ` set accesses) \<and>
     (r \<noteq> None \<longrightarrow> (w, False) \<in> set accesses)"
  by (induction f current accesses rule: cas_loop.induct) (auto split: option.splits if_splits)

section \<open>Words\<close>

definition INSTALLING :: u64 where "INSTALLING = 0"
definition ARMED :: u64 where "ARMED = 1"
definition FINISHING :: u64 where "FINISHING = 2"
definition DONE :: u64 where "DONE = 3"

definition OUTCOME_EMPTY :: u64 where "OUTCOME_EMPTY = 0"
definition OUTCOME_WRITING :: u64 where "OUTCOME_WRITING = 1"
definition OUTCOME_READY :: u64 where "OUTCOME_READY = 2"

definition PHASE_MASK :: u64 where "PHASE_MASK = 3"
definition ABANDONED_FLAG :: u64 where "ABANDONED_FLAG = 4"
definition EPOCH_SHIFT :: nat where "EPOCH_SHIFT = 3"

datatype wait_epoch = WaitEpoch (epoch_value: u64)

definition epoch_next :: "wait_epoch \<Rightarrow> wait_epoch option" where
  "epoch_next e =
     (if epoch_value e = drop_bit EPOCH_SHIFT (- 1) then None else Some (WaitEpoch (epoch_value e + 1)))"

definition phase_word :: "wait_epoch \<Rightarrow> u64 \<Rightarrow> u64" where
  "phase_word e p = push_bit EPOCH_SHIFT (epoch_value e) OR p"

definition outcome_word :: "wait_epoch \<Rightarrow> u64 \<Rightarrow> u64" where
  "outcome_word e s = push_bit 2 (epoch_value e) OR s"

section \<open>The core\<close>

datatype offer_result = Lost | Deferred | Complete

datatype 'o arm_result = ArmArmed | ArmComplete 'o | ExternalCompleter

record 'o wait_core =
  phase :: u64
  outcome_state :: u64
  outcome_cell :: "'o option"

definition WaitCore_new :: "'o wait_core" where
  "WaitCore_new = \<lparr>phase = phase_word (WaitEpoch 1) INSTALLING,
     outcome_state = outcome_word (WaitEpoch 1) OUTCOME_EMPTY, outcome_cell = None\<rparr>"

definition epoch :: "'o wait_core \<Rightarrow> wait_epoch" where
  "epoch c = WaitEpoch (drop_bit EPOCH_SHIFT (phase c))"

text \<open>The test every operation makes of the loaded phase word: the round and the phase.\<close>

definition in_phase :: "u64 \<Rightarrow> wait_epoch \<Rightarrow> u64 \<Rightarrow> bool" where
  "in_phase w e p \<longleftrightarrow> drop_bit EPOCH_SHIFT w = epoch_value e \<and> w AND PHASE_MASK = p"

definition set_phase :: "u64 \<Rightarrow> u64 \<Rightarrow> u64" where
  "set_phase w p = (w AND NOT PHASE_MASK) OR p"

text \<open>
  The loop body of \<open>claim_armed\<close>, \<open>finish_installing_in\<close>, \<open>arm_in\<close> and \<open>mark_done_in\<close>: leave the phase \<open>p\<close> of
  round \<open>e\<close> for \<open>p'\<close>.
\<close>

definition move_phase :: "wait_epoch \<Rightarrow> u64 \<Rightarrow> u64 \<Rightarrow> u64 \<Rightarrow> u64 option" where
  "move_phase e p p' w = (if in_phase w e p then Some (set_phase w p') else None)"

definition cas_phase :: "(u64 \<Rightarrow> u64 option) \<Rightarrow> 'o wait_core \<Rightarrow> bool \<times> 'o wait_core" where
  "cas_phase f c = (case f (phase c) of None \<Rightarrow> (False, c) | Some w \<Rightarrow> (True, c\<lparr>phase := w\<rparr>))"

definition claim_armed :: "wait_epoch \<Rightarrow> 'o wait_core \<Rightarrow> bool \<times> 'o wait_core" where
  "claim_armed e = cas_phase (move_phase e ARMED FINISHING)"

definition has_outcome_in :: "wait_epoch \<Rightarrow> 'o wait_core \<Rightarrow> bool" where
  "has_outcome_in e c \<longleftrightarrow> outcome_state c = outcome_word e OUTCOME_READY"

text \<open>\<open>outcome_in\<close> asserts that the outcome is ready, then reads the cell.\<close>

definition outcome_in :: "wait_epoch \<Rightarrow> 'o wait_core \<Rightarrow> 'o option" where
  "outcome_in e c = (if has_outcome_in e c then outcome_cell c else None)"

text \<open>The five accesses of \<open>offer_in\<close>.\<close>

definition offer_check :: "wait_epoch \<Rightarrow> 'o wait_core \<Rightarrow> bool" where
  "offer_check e c \<longleftrightarrow>
     \<not> (drop_bit EPOCH_SHIFT (phase c) \<noteq> epoch_value e \<or> phase c AND PHASE_MASK = DONE)"

definition offer_claim :: "wait_epoch \<Rightarrow> 'o wait_core \<Rightarrow> bool \<times> 'o wait_core" where
  "offer_claim e c =
     (if outcome_state c = outcome_word e OUTCOME_EMPTY
      then (True, c\<lparr>outcome_state := outcome_word e OUTCOME_WRITING\<rparr>) else (False, c))"

definition offer_write :: "'o \<Rightarrow> 'o wait_core \<Rightarrow> 'o wait_core" where
  "offer_write v c = c\<lparr>outcome_cell := Some v\<rparr>"

definition offer_publish :: "wait_epoch \<Rightarrow> 'o wait_core \<Rightarrow> 'o wait_core" where
  "offer_publish e c = c\<lparr>outcome_state := outcome_word e OUTCOME_READY\<rparr>"

text \<open>
  What the second load of the phase decides: the result, or \<^const>\<open>None\<close> to go on with \<open>claim_armed\<close>. The last arm
  of the source's \<open>match\<close> is unreachable since the masked phase is below 4.
\<close>

definition offer_phase :: "wait_epoch \<Rightarrow> 'o wait_core \<Rightarrow> offer_result option" where
  "offer_phase e c =
     (if drop_bit EPOCH_SHIFT (phase c) \<noteq> epoch_value e then Some Lost
      else if phase c AND PHASE_MASK = INSTALLING then Some Deferred
      else if phase c AND PHASE_MASK = ARMED then None
      else Some Lost)"

text \<open>\<open>offer_in\<close> when no other thread interferes.\<close>

definition offer_in :: "wait_epoch \<Rightarrow> 'o \<Rightarrow> 'o wait_core \<Rightarrow> offer_result \<times> 'o wait_core" where
  "offer_in e v c =
     (if \<not> offer_check e c then (Lost, c)
      else case offer_claim e c of
        (False, c1) \<Rightarrow> (Lost, c1)
      | (True, c1) \<Rightarrow>
          let c2 = offer_publish e (offer_write v c1) in
          (case offer_phase e c2 of
             Some r \<Rightarrow> (r, c2)
           | None \<Rightarrow> (case claim_armed e c2 of (b, c3) \<Rightarrow> (if b then Complete else Lost, c3))))"

definition abandon :: "wait_epoch \<Rightarrow> 'o wait_core \<Rightarrow> bool \<times> 'o wait_core" where
  "abandon e = cas_phase (\<lambda>w.
     if drop_bit EPOCH_SHIFT w \<noteq> epoch_value e \<or> w AND PHASE_MASK = DONE \<or> w AND ABANDONED_FLAG \<noteq> 0
     then None else Some (w OR ABANDONED_FLAG))"

definition is_abandoned :: "wait_epoch \<Rightarrow> 'o wait_core \<Rightarrow> bool" where
  "is_abandoned e c \<longleftrightarrow>
     drop_bit EPOCH_SHIFT (phase c) = epoch_value e \<and> phase c AND ABANDONED_FLAG \<noteq> 0"

text \<open>
  \<open>finish_installing_in\<close>, \<open>arm_in\<close> and the asserting \<open>mark_done\<close> without interference; the outer option is the
  panic of \<open>outcome_in\<close> or of the assertion.
\<close>

definition finish_installing_in :: "wait_epoch \<Rightarrow> 'o wait_core \<Rightarrow> ('o option \<times> 'o wait_core) option" where
  "finish_installing_in e c =
     (if \<not> has_outcome_in e c then Some (None, c)
      else case cas_phase (move_phase e INSTALLING FINISHING) c of
        (False, c1) \<Rightarrow> Some (None, c1)
      | (True, c1) \<Rightarrow> map_option (\<lambda>v. (Some v, c1)) (outcome_in e c1))"

definition arm_in :: "wait_epoch \<Rightarrow> 'o wait_core \<Rightarrow> ('o arm_result \<times> 'o wait_core) option" where
  "arm_in e c =
     (case cas_phase (move_phase e INSTALLING ARMED) c of
        (False, c1) \<Rightarrow> Some (ExternalCompleter, c1)
      | (True, c1) \<Rightarrow>
          if has_outcome_in e c1
          then (case claim_armed e c1 of
                  (True, c2) \<Rightarrow> map_option (\<lambda>v. (ArmComplete v, c2)) (outcome_in e c2)
                | (False, c2) \<Rightarrow> Some (ExternalCompleter, c2))
          else Some (ArmArmed, c1))"

definition mark_done_in :: "wait_epoch \<Rightarrow> 'o wait_core \<Rightarrow> bool \<times> 'o wait_core" where
  "mark_done_in e = cas_phase (move_phase e FINISHING DONE)"

definition mark_done :: "'o wait_core \<Rightarrow> 'o wait_core option" where
  "mark_done c = (case mark_done_in (epoch c) c of (b, c') \<Rightarrow> if b then Some c' else None)"

definition is_done :: "'o wait_core \<Rightarrow> bool" where
  "is_done c \<longleftrightarrow> phase c AND PHASE_MASK = DONE"

text \<open>The two stores of \<open>restart_done\<close>.\<close>

definition restart_outcome :: "wait_epoch \<Rightarrow> 'o wait_core \<Rightarrow> 'o wait_core" where
  "restart_outcome e c = c\<lparr>outcome_state := outcome_word e OUTCOME_EMPTY\<rparr>"

definition restart_phase :: "wait_epoch \<Rightarrow> 'o wait_core \<Rightarrow> 'o wait_core" where
  "restart_phase e c = c\<lparr>phase := phase_word e INSTALLING\<rparr>"

definition restart_done :: "'o wait_core \<Rightarrow> bool \<times> 'o wait_core" where
  "restart_done c =
     (if \<not> is_done c then (False, c)
      else case epoch_next (epoch c) of
        None \<Rightarrow> (False, c)
      | Some e \<Rightarrow> (True, restart_phase e (restart_outcome e c)))"

section \<open>The timeout registration\<close>

definition TIMEOUT_UNREGISTERED :: u64 where "TIMEOUT_UNREGISTERED = 0"
definition TIMEOUT_CLOSED :: u64 where "TIMEOUT_CLOSED = NOT RAW_MASK"

type_synonym timeout_registration = u64

definition TimeoutRegistration_new :: timeout_registration where
  "TimeoutRegistration_new = TIMEOUT_UNREGISTERED"

definition publish :: "timer_token \<Rightarrow> timeout_registration \<Rightarrow> bool \<times> timeout_registration" where
  "publish t s =
     (if token_raw t = 0 \<or> token_raw t AND TIMEOUT_CLOSED \<noteq> 0 then (False, s)
      else if s = TIMEOUT_UNREGISTERED then (True, token_raw t) else (False, s))"

definition close :: "timeout_registration \<Rightarrow> timeout_registration" where
  "close s = s OR TIMEOUT_CLOSED"

definition take_cancellation :: "timeout_registration \<Rightarrow> timer_token option \<times> timeout_registration" where
  "take_cancellation s =
     (if s AND TIMEOUT_CLOSED = 0 \<or> s = TIMEOUT_CLOSED then (None, s)
      else (Some (TimerToken (s AND NOT TIMEOUT_CLOSED)), TIMEOUT_CLOSED))"

definition retire :: "timer_token \<Rightarrow> timeout_registration \<Rightarrow> bool \<times> timeout_registration" where
  "retire t s = (if s = token_raw t then (True, TIMEOUT_CLOSED) else (False, s))"

section \<open>Lemmas on the words\<close>

lemmas wait_consts = INSTALLING_def ARMED_def FINISHING_def DONE_def OUTCOME_EMPTY_def OUTCOME_WRITING_def
  OUTCOME_READY_def PHASE_MASK_def ABANDONED_FLAG_def EPOCH_SHIFT_def

lemma phase_mask: "PHASE_MASK = mask 2" "ABANDONED_FLAG = push_bit 2 1"
  by (simp_all add: PHASE_MASK_def ABANDONED_FLAG_def mask_eq_exp_minus_1)

definition small :: "u64 \<Rightarrow> bool" where
  "small p \<longleftrightarrow> (\<forall>n. bit p n \<longrightarrow> n < 2)"

lemma small_and: "small p \<Longrightarrow> p AND mask 2 = p"
  by (rule bit_word_eqI) (auto simp: small_def bit_simps)

lemma small_consts [simp]:
  "small INSTALLING" "small ARMED" "small FINISHING" "small DONE"
  "small OUTCOME_EMPTY" "small OUTCOME_WRITING" "small OUTCOME_READY"
proof -
  have "small p" if "unat p < 4" for p
    using small_word_bits [of p 2] that by (simp add: small_def)
  then show "small INSTALLING" "small ARMED" "small FINISHING" "small DONE"
    "small OUTCOME_EMPTY" "small OUTCOME_WRITING" "small OUTCOME_READY"
    by (simp_all add: wait_consts)
qed

lemma set_phase_epoch: "small p \<Longrightarrow> drop_bit EPOCH_SHIFT (set_phase w p) = drop_bit EPOCH_SHIFT w"
  unfolding set_phase_def phase_mask EPOCH_SHIFT_def
  by (rule bit_word_eqI) (auto simp: small_def bit_simps dest: bit_imp_le_length)

lemma set_phase_phase: "small p \<Longrightarrow> set_phase w p AND PHASE_MASK = p"
  unfolding set_phase_def phase_mask by (rule bit_word_eqI) (auto simp: small_def bit_simps)

lemma flag_epoch:
  "drop_bit EPOCH_SHIFT (w OR ABANDONED_FLAG) = drop_bit EPOCH_SHIFT w"
  "(w OR ABANDONED_FLAG) AND PHASE_MASK = w AND PHASE_MASK"
  unfolding phase_mask EPOCH_SHIFT_def
  by (rule bit_word_eqI; auto simp: bit_push_bit_iff bit_1_iff bit_simps simp del: push_bit_of_1)+

definition epoch_fits :: "wait_epoch \<Rightarrow> bool" where
  "epoch_fits e \<longleftrightarrow> (\<forall>n. bit (epoch_value e) n \<longrightarrow> n < 61)"

lemma epoch_fits_drop [simp]: "epoch_fits (WaitEpoch (drop_bit EPOCH_SHIFT w))"
  by (auto simp: epoch_fits_def EPOCH_SHIFT_def bit_drop_bit_eq dest: bit_imp_le_length)

lemma phase_word_epoch: "small p \<Longrightarrow> epoch_fits e \<Longrightarrow> drop_bit EPOCH_SHIFT (phase_word e p) = epoch_value e"
  unfolding phase_word_def EPOCH_SHIFT_def
  by (rule bit_word_eqI) (auto simp: small_def epoch_fits_def bit_simps)

lemma phase_word_phase: "small p \<Longrightarrow> phase_word e p AND PHASE_MASK = p"
  unfolding phase_word_def phase_mask EPOCH_SHIFT_def
  by (rule bit_word_eqI) (auto simp: small_def bit_simps)

lemma outcome_word_inject:
  assumes "epoch_fits e" "epoch_fits e'" "small s" "small s'"
  shows "outcome_word e s = outcome_word e' s' \<longleftrightarrow> e = e' \<and> s = s'"
proof -
  have "drop_bit 2 (outcome_word e s) = epoch_value e" if "epoch_fits e" "small s" for e s
    unfolding outcome_word_def using that by (intro bit_word_eqI) (auto simp: small_def epoch_fits_def bit_simps)
  moreover have "outcome_word e s AND mask 2 = s" if "small s" for e s
    unfolding outcome_word_def using that by (intro bit_word_eqI) (auto simp: small_def bit_simps)
  ultimately show ?thesis
    using assms by (metis wait_epoch.expand)
qed

lemma consts_distinct [simp]:
  "INSTALLING \<noteq> ARMED" "INSTALLING \<noteq> FINISHING" "INSTALLING \<noteq> DONE" "ARMED \<noteq> INSTALLING" "ARMED \<noteq> FINISHING" "ARMED \<noteq> DONE"
  "FINISHING \<noteq> INSTALLING" "FINISHING \<noteq> ARMED" "FINISHING \<noteq> DONE" "DONE \<noteq> INSTALLING" "DONE \<noteq> ARMED" "DONE \<noteq> FINISHING"
  "OUTCOME_EMPTY \<noteq> OUTCOME_WRITING" "OUTCOME_EMPTY \<noteq> OUTCOME_READY" "OUTCOME_WRITING \<noteq> OUTCOME_READY"
  "OUTCOME_WRITING \<noteq> OUTCOME_EMPTY" "OUTCOME_READY \<noteq> OUTCOME_EMPTY" "OUTCOME_READY \<noteq> OUTCOME_WRITING"
  by (simp_all add: wait_consts)

lemma phase_cases: "w AND PHASE_MASK \<in> {INSTALLING, ARMED, FINISHING, DONE}"
proof -
  have "w AND PHASE_MASK = w mod 4"
    by (simp add: phase_mask flip: take_bit_eq_mask take_bit_eq_mod [of 2, simplified])
  moreover have "unat (w mod 4) < 4"
    by (simp add: unat_mod)
  then have "unat (w mod 4) = 0 \<or> unat (w mod 4) = 1 \<or> unat (w mod 4) = 2 \<or> unat (w mod 4) = 3"
    by linarith
  then have "w mod 4 \<in> {0, 1, 2, 3}"
    unfolding insert_iff empty_iff word_unat_eq_iff by simp
  ultimately show ?thesis
    by (simp add: wait_consts)
qed

lemma epoch_fits_unat: "epoch_fits e \<longleftrightarrow> unat (epoch_value e) < 2 ^ 61"
  using word_bits_small [of "epoch_value e" 61] small_word_bits [of "epoch_value e" 61]
  by (auto simp: epoch_fits_def)

lemma epoch_next_fits:
  assumes "epoch_fits e" "epoch_next e = Some e'"
  shows "epoch_fits e' \<and> unat (epoch_value e') = unat (epoch_value e) + 1"
proof -
  let ?x = "epoch_value e"
  have "?x \<noteq> drop_bit 3 (- 1)" and e': "e' = WaitEpoch (?x + 1)"
    using assms(2) by (auto simp: epoch_next_def EPOCH_SHIFT_def split: if_splits)
  then have "unat ?x \<noteq> 2 ^ 61 - 1"
    by (auto simp: word_unat_eq_iff mask_eq_exp_minus_1)
  moreover have "unat ?x < 2 ^ 61"
    using assms(1) by (simp add: epoch_fits_unat)
  ultimately have "unat ?x + 1 < 2 ^ 61"
    by linarith
  moreover from this have "unat (?x + 1) = unat ?x + 1"
    by (simp add: unat_plus_fits)
  ultimately show ?thesis
    by (simp add: e' epoch_fits_unat)
qed

end
