(* ===== verification/Wait_Core_Threads.thy ===== *)
theory Wait_Core_Threads
  imports Wait_Core
begin

text \<open>
  Any number of threads run the operations of the wait core, interleaved at every atomic access. Ghost fields
  record who completed which round and with which value; the properties say that a round has exactly one
  completer and that no completion is lost. A round number a caller holds came from \<open>epoch\<close> or \<open>next\<close>, so it
  fits the 61 bits of the phase word. The winner of \<open>offer_in\<close> reads the outcome as \<open>arm_in\<close> and
  \<open>finish_installing_in\<close> do themselves.
\<close>

section \<open>Threads\<close>

text \<open>
  Where a thread stands: after the first check of \<open>offer_in\<close> (\<open>AtClaim\<close>), with the right to write the outcome
  (\<open>AtWrite\<close>, then \<open>AtPublish\<close>), before the second load of the phase (\<open>AtPhase\<close>) and before \<open>claim_armed\<close>
  (\<open>AtOfferClaim\<close>); after the exchange of \<open>arm_in\<close> (\<open>AtArmed\<close>), before its \<open>claim_armed\<close> (\<open>AtArmClaim\<close>); after the check of
  \<open>finish_installing_in\<close> (\<open>AtFinish\<close>); before reading the outcome as the completer (\<open>AtRead\<close>); between the two
  stores of \<open>restart_done\<close> (\<open>AtRestart\<close>). A failed assertion is \<open>Panicked\<close>.
\<close>

datatype 'o pc =
    Idle
  | AtClaim wait_epoch 'o
  | AtWrite wait_epoch 'o
  | AtPublish wait_epoch
  | AtPhase wait_epoch
  | AtOfferClaim wait_epoch
  | AtArmed wait_epoch
  | AtArmClaim wait_epoch
  | AtFinish wait_epoch
  | AtRead wait_epoch
  | AtRestart wait_epoch
  | Panicked

fun pc_epoch :: "'o pc \<Rightarrow> wait_epoch option" where
  "pc_epoch (AtClaim e _) = Some e"
| "pc_epoch (AtWrite e _) = Some e"
| "pc_epoch (AtPublish e) = Some e"
| "pc_epoch (AtPhase e) = Some e"
| "pc_epoch (AtOfferClaim e) = Some e"
| "pc_epoch (AtArmed e) = Some e"
| "pc_epoch (AtArmClaim e) = Some e"
| "pc_epoch (AtFinish e) = Some e"
| "pc_epoch (AtRead e) = Some e"
| "pc_epoch _ = None"

text \<open>
  \<open>wins\<close>: the rounds whose completion right was taken, one entry per \<open>OfferResult::Complete\<close>, \<open>ArmResult::Complete\<close>
  or \<open>Some\<close> of \<open>finish_installing_in\<close>. \<open>accepted e\<close>: the value written in round \<open>e\<close>. \<open>returned\<close>: the values completers read.
\<close>

record 'o wsys =
  core :: "'o wait_core"
  pcs :: "nat \<Rightarrow> 'o pc"
  wins :: "wait_epoch list"
  accepted :: "wait_epoch \<Rightarrow> 'o option"
  returned :: "(wait_epoch \<times> 'o) list"

abbreviation goto :: "'o wsys \<Rightarrow> nat \<Rightarrow> 'o pc \<Rightarrow> 'o wsys" where
  "goto y t p \<equiv> y\<lparr>pcs := (pcs y)(t := p)\<rparr>"

text \<open>
  \<open>restart_done\<close> is unsafe: its callers exclude the operations of the current round and other restarts. Operations
  that hold an older round may run.
\<close>

definition quiescent :: "'o wsys \<Rightarrow> bool" where
  "quiescent y \<longleftrightarrow> (\<forall>t. pc_epoch (pcs y t) \<noteq> Some (epoch (core y)) \<and> (\<forall>e. pcs y t \<noteq> AtRestart e))"

inductive wstep :: "'o wsys \<Rightarrow> 'o wsys \<Rightarrow> bool" where
  offer_start: "pcs y t = Idle \<Longrightarrow> offer_check e (core y) \<Longrightarrow> wstep y (goto y t (AtClaim e v))"
| offer_claimed: "pcs y t = AtClaim e v \<Longrightarrow> offer_claim e (core y) = (b, c) \<Longrightarrow>
    wstep y (goto (y\<lparr>core := c\<rparr>) t (if b then AtWrite e v else Idle))"
| offer_written: "pcs y t = AtWrite e v \<Longrightarrow>
    wstep y (goto (y\<lparr>core := offer_write v (core y), accepted := (accepted y)(e \<mapsto> v)\<rparr>) t (AtPublish e))"
| offer_published: "pcs y t = AtPublish e \<Longrightarrow>
    wstep y (goto (y\<lparr>core := offer_publish e (core y)\<rparr>) t (AtPhase e))"
| offer_phased: "pcs y t = AtPhase e \<Longrightarrow>
    wstep y (goto y t (if offer_phase e (core y) = None then AtOfferClaim e else Idle))"
| offer_claims: "pcs y t = AtOfferClaim e \<Longrightarrow> claim_armed e (core y) = (b, c) \<Longrightarrow>
    wstep y (goto (y\<lparr>core := c, wins := (if b then e # wins y else wins y)\<rparr>) t (if b then AtRead e else Idle))"
| arm_start: "pcs y t = Idle \<Longrightarrow> cas_phase (move_phase e INSTALLING ARMED) (core y) = (True, c) \<Longrightarrow>
    wstep y (goto (y\<lparr>core := c\<rparr>) t (AtArmed e))"
| arm_checked: "pcs y t = AtArmed e \<Longrightarrow>
    wstep y (goto y t (if has_outcome_in e (core y) then AtArmClaim e else Idle))"
| arm_claims: "pcs y t = AtArmClaim e \<Longrightarrow> claim_armed e (core y) = (b, c) \<Longrightarrow>
    wstep y (goto (y\<lparr>core := c, wins := (if b then e # wins y else wins y)\<rparr>) t (if b then AtRead e else Idle))"
| finish_start: "pcs y t = Idle \<Longrightarrow> epoch_fits e \<Longrightarrow> has_outcome_in e (core y) \<Longrightarrow> wstep y (goto y t (AtFinish e))"
| finish_claims: "pcs y t = AtFinish e \<Longrightarrow> cas_phase (move_phase e INSTALLING FINISHING) (core y) = (b, c) \<Longrightarrow>
    wstep y (goto (y\<lparr>core := c, wins := (if b then e # wins y else wins y)\<rparr>) t (if b then AtRead e else Idle))"
| read_outcome: "pcs y t = AtRead e \<Longrightarrow> outcome_in e (core y) = Some v \<Longrightarrow>
    wstep y (goto (y\<lparr>returned := (e, v) # returned y\<rparr>) t Idle)"
| read_panics: "pcs y t = AtRead e \<Longrightarrow> outcome_in e (core y) = None \<Longrightarrow> wstep y (goto y t Panicked)"
| abandons: "abandon e (core y) = (b, c) \<Longrightarrow> wstep y (y\<lparr>core := c\<rparr>)"
| marks_done: "mark_done_in e (core y) = (b, c) \<Longrightarrow> wstep y (y\<lparr>core := c\<rparr>)"
| restart_start: "pcs y t = Idle \<Longrightarrow> quiescent y \<Longrightarrow> is_done (core y) \<Longrightarrow> epoch_next (epoch (core y)) = Some e \<Longrightarrow>
    wstep y (goto (y\<lparr>core := restart_outcome e (core y)\<rparr>) t (AtRestart e))"
| restart_end: "pcs y t = AtRestart e \<Longrightarrow>
    wstep y (goto (y\<lparr>core := restart_phase e (core y)\<rparr>) t Idle)"

definition winit :: "'o wsys \<Rightarrow> bool" where
  "winit y \<longleftrightarrow> core y = WaitCore_new \<and> pcs y = (\<lambda>_. Idle) \<and> wins y = [] \<and> accepted y = (\<lambda>_. None) \<and> returned y = []"

section \<open>The invariant\<close>

abbreviation round_of :: "'o wsys \<Rightarrow> wait_epoch" where
  "round_of y \<equiv> epoch (core y)"

abbreviation ph :: "'o wsys \<Rightarrow> u64" where
  "ph y \<equiv> phase (core y) AND PHASE_MASK"

abbreviation ost :: "'o wsys \<Rightarrow> u64 \<Rightarrow> bool" where
  "ost y s \<equiv> outcome_state (core y) = outcome_word (round_of y) s"

definition finishing :: "'o wsys \<Rightarrow> bool" where
  "finishing y \<longleftrightarrow> ph y = FINISHING \<or> ph y = DONE"

definition writer :: "'o pc \<Rightarrow> bool" where
  "writer p \<longleftrightarrow> (case p of AtWrite _ _ \<Rightarrow> True | AtPublish _ \<Rightarrow> True | _ \<Rightarrow> False)"

definition claimer :: "'o pc \<Rightarrow> bool" where
  "claimer p \<longleftrightarrow> (case p of AtPhase _ \<Rightarrow> True | AtOfferClaim _ \<Rightarrow> True | AtArmed _ \<Rightarrow> True | AtArmClaim _ \<Rightarrow> True | _ \<Rightarrow> False)"

definition after_ready :: "'o pc \<Rightarrow> bool" where
  "after_ready p \<longleftrightarrow> (case p of AtPhase _ \<Rightarrow> True | AtOfferClaim _ \<Rightarrow> True | AtArmClaim _ \<Rightarrow> True | AtFinish _ \<Rightarrow> True |
     AtRead _ \<Rightarrow> True | _ \<Rightarrow> False)"

definition restarting :: "'o wsys \<Rightarrow> bool" where
  "restarting y \<longleftrightarrow> (\<exists>t e. pcs y t = AtRestart e)"

text \<open>The state of the words outside a restart, given whether a thread is writing and whether one will claim.\<close>

definition steady_core :: "'o wait_core \<Rightarrow> (wait_epoch \<Rightarrow> 'o option) \<Rightarrow> bool \<Rightarrow> bool \<Rightarrow> bool" where
  "steady_core c acc w k \<longleftrightarrow>
     (let os = (\<lambda>s. outcome_state c = outcome_word (epoch c) s); p = phase c AND PHASE_MASK in
     (os OUTCOME_EMPTY \<or> os OUTCOME_WRITING \<or> os OUTCOME_READY) \<and>
     (os OUTCOME_EMPTY \<longrightarrow> acc (epoch c) = None) \<and>
     (os OUTCOME_READY \<longrightarrow> outcome_cell c = acc (epoch c) \<and> acc (epoch c) \<noteq> None) \<and>
     (os OUTCOME_WRITING \<longleftrightarrow> w) \<and>
     (p = FINISHING \<or> p = DONE \<longrightarrow> os OUTCOME_READY) \<and>
     (p = ARMED \<and> os OUTCOME_READY \<longrightarrow> k))"

definition writing :: "'o wsys \<Rightarrow> bool" where
  "writing y \<longleftrightarrow> (\<exists>t. writer (pcs y t))"

definition claiming :: "'o wsys \<Rightarrow> bool" where
  "claiming y \<longleftrightarrow> (\<exists>t. claimer (pcs y t))"

definition steady :: "'o wsys \<Rightarrow> bool" where
  "steady y \<longleftrightarrow> steady_core (core y) (accepted y) (writing y) (claiming y)"

text \<open>What a thread knows.\<close>

definition knows :: "'o wsys \<Rightarrow> 'o pc \<Rightarrow> bool" where
  "knows y p \<longleftrightarrow> p \<noteq> Panicked \<and> (\<forall>e. pc_epoch p = Some e \<longrightarrow> e = round_of y \<and> \<not> restarting y) \<and>
     (after_ready p \<longrightarrow> ost y OUTCOME_READY) \<and>
     (\<forall>e. p = AtPublish e \<longrightarrow> outcome_cell (core y) = accepted y e \<and> accepted y e \<noteq> None) \<and>
     (\<forall>e v. p = AtWrite e v \<longrightarrow> accepted y e = None) \<and>
     (\<forall>e. p = AtRestart e \<longrightarrow> epoch_next (round_of y) = Some e \<and> ph y = DONE \<and>
        outcome_state (core y) = outcome_word e OUTCOME_EMPTY)"

definition history :: "'o wsys \<Rightarrow> bool" where
  "history y \<longleftrightarrow>
     (\<forall>e. count_list (wins y) e \<le> 1) \<and>
     count_list (wins y) (round_of y) = (if finishing y then 1 else 0) \<and>
     (\<forall>e. unat (epoch_value (round_of y)) < unat (epoch_value e) \<longrightarrow> e \<notin> set (wins y) \<and> accepted y e = None) \<and>
     (\<forall>(e, v) \<in> set (returned y). accepted y e = Some v)"

definition winv :: "'o wsys \<Rightarrow> bool" where
  "winv y \<longleftrightarrow> (\<forall>t. knows y (pcs y t)) \<and> (\<not> restarting y \<longrightarrow> steady y) \<and> history y \<and>
     (\<forall>t t'. writer (pcs y t) \<and> writer (pcs y t') \<longrightarrow> t = t') \<and>
     (\<forall>t t' e e'. pcs y t = AtRestart e \<and> pcs y t' = AtRestart e' \<longrightarrow> t = t')"


section \<open>One exchange of the phase word\<close>

lemma cas_phase_False: "cas_phase f c = (False, c') \<Longrightarrow> c' = c"
  by (auto simp: cas_phase_def split: option.splits)

lemma move_phase_True:
  assumes "cas_phase (move_phase e p p') c = (True, c')" "small p'"
  shows "epoch c = e" "epoch c' = e" "phase c AND PHASE_MASK = p" "phase c' AND PHASE_MASK = p'"
    "outcome_state c' = outcome_state c" "outcome_cell c' = outcome_cell c"
  using assms set_phase_epoch [of p' "phase c"] set_phase_phase [of p' "phase c"]
  by (auto simp: cas_phase_def move_phase_def in_phase_def epoch_def split: if_splits)

lemma move_phase_iff: "fst (cas_phase (move_phase e p p') c) \<longleftrightarrow> epoch c = e \<and> phase c AND PHASE_MASK = p"
  by (auto simp: cas_phase_def move_phase_def in_phase_def epoch_def)

lemma abandon_same:
  assumes "abandon e c = (b, c')"
  shows "epoch c' = epoch c" "phase c' AND PHASE_MASK = phase c AND PHASE_MASK" "outcome_state c' = outcome_state c"
    "outcome_cell c' = outcome_cell c"
  using assms flag_epoch [of "phase c"]
  by (auto simp: abandon_def cas_phase_def epoch_def split: if_splits option.splits)

section \<open>Preservation\<close>

lemma epoch_fits_round [simp]: "epoch_fits (epoch c)"
  by (simp add: epoch_def)

lemma ost_inj: "small a \<Longrightarrow> small b \<Longrightarrow> ost y a \<Longrightarrow> ost y b \<Longrightarrow> a = b"
  using outcome_word_inject [of "round_of y" "round_of y" a b] by simp

lemma knowsD:
  assumes "winv y"
  shows "pcs y t \<noteq> Panicked" "pc_epoch (pcs y t) = Some e \<Longrightarrow> e = round_of y \<and> \<not> restarting y"
    "after_ready (pcs y t) \<Longrightarrow> ost y OUTCOME_READY"
    "pcs y t = AtPublish e \<Longrightarrow> outcome_cell (core y) = accepted y e \<and> accepted y e \<noteq> None"
    "pcs y t = AtWrite e v \<Longrightarrow> accepted y e = None"
    "pcs y t = AtRestart e \<Longrightarrow> epoch_next (round_of y) = Some e \<and> ph y = DONE \<and>
        outcome_state (core y) = outcome_word e OUTCOME_EMPTY"
  using assms unfolding winv_def knows_def by blast+

lemma winvD:
  assumes "winv y"
  shows "\<not> restarting y \<Longrightarrow> steady y" "history y" "writer (pcs y t) \<Longrightarrow> writer (pcs y t') \<Longrightarrow> t = t'"
  using assms unfolding winv_def by blast+

lemma knows_cong:
  assumes "knows y q" "\<not> restarting y'" "\<And>e. q \<noteq> AtRestart e" "round_of y' = round_of y"
    and "after_ready q \<Longrightarrow> ost y OUTCOME_READY \<Longrightarrow> ost y' OUTCOME_READY"
    and "writer q \<Longrightarrow> outcome_cell (core y') = outcome_cell (core y) \<and> accepted y' = accepted y"
  shows "knows y' q"
  using assms unfolding knows_def by (cases q) (simp_all add: writer_def after_ready_def)

lemma winv_step:
  assumes "winv y" "\<not> restarting y" "pcs y' = (pcs y)(t := p)" "round_of y' = round_of y" "\<And>e. p \<noteq> AtRestart e"
    and "ost y OUTCOME_READY \<Longrightarrow> ost y' OUTCOME_READY"
    and "\<And>t'. t' \<noteq> t \<Longrightarrow> writer (pcs y t') \<Longrightarrow>
      \<not> writer p \<and> outcome_cell (core y') = outcome_cell (core y) \<and> accepted y' = accepted y"
    and "\<not> restarting y' \<Longrightarrow> knows y' p" "steady y'" "history y'"
  shows "winv y'"
proof -
  have r: "\<not> restarting y'"
    using assms(2,3,5) unfolding restarting_def by (auto split: if_splits)
  have "knows y' (pcs y' t')" for t'
  proof (cases "t' = t")
    case True
    then show ?thesis
      using assms(3,8) r by simp
  next
    case False
    moreover have "knows y (pcs y t')" "\<And>e. pcs y t' \<noteq> AtRestart e"
      using assms(1,2) unfolding winv_def restarting_def by blast+
    ultimately show ?thesis
      using knows_cong [of y "pcs y t'" y'] r assms(3,4,6,7) by simp
  qed
  moreover have "t1 = t2" if "writer (pcs y' t1)" "writer (pcs y' t2)" for t1 t2
    using that assms(3,7) winvD(3) [OF assms(1), of t1 t2] by (auto split: if_splits)
  ultimately show ?thesis
    using r assms(9,10) unfolding winv_def restarting_def by blast
qed

lemma knows_simps:
  "\<not> restarting y \<Longrightarrow> knows y Idle"
  "\<not> restarting y \<Longrightarrow> e = round_of y \<Longrightarrow> knows y (AtClaim e v) \<and> knows y (AtArmed e)"
  "\<not> restarting y \<Longrightarrow> e = round_of y \<Longrightarrow> ost y OUTCOME_READY \<Longrightarrow>
     knows y (AtPhase e) \<and> knows y (AtOfferClaim e) \<and> knows y (AtArmClaim e) \<and> knows y (AtFinish e) \<and> knows y (AtRead e)"
  by (simp_all add: knows_def after_ready_def)


lemma pc_class [simp]:
  "\<not> writer Idle" "\<not> writer (AtClaim e v)" "writer (AtWrite e v)" "writer (AtPublish e)" "\<not> writer (AtPhase e)"
  "\<not> writer (AtOfferClaim e)" "\<not> writer (AtArmed e)" "\<not> writer (AtArmClaim e)" "\<not> writer (AtFinish e)" "\<not> writer (AtRead e)"
  "\<not> writer (AtRestart e)"
  "\<not> claimer Idle" "\<not> claimer (AtClaim e v)" "\<not> claimer (AtWrite e v)" "\<not> claimer (AtPublish e)" "claimer (AtPhase e)"
  "claimer (AtOfferClaim e)" "claimer (AtArmed e)" "claimer (AtArmClaim e)" "\<not> claimer (AtFinish e)" "\<not> claimer (AtRead e)"
  "\<not> claimer (AtRestart e)"
  by (simp_all add: writer_def claimer_def)

lemma returned_irrelevant:
  "knows (y\<lparr>returned := r\<rparr>) p = knows y p" "restarting (y\<lparr>returned := r\<rparr>) = restarting y"
  "steady (y\<lparr>returned := r\<rparr>) = steady y"
  by (simp_all add: knows_def restarting_def steady_def writing_def claiming_def)

lemma winv_returned: "winv y \<Longrightarrow> accepted y e = Some v \<Longrightarrow> winv (y\<lparr>returned := (e, v) # returned y\<rparr>)"
  unfolding winv_def returned_irrelevant by (simp add: history_def finishing_def)

lemma writing_goto: "writing (goto y t p) \<longleftrightarrow> writer p \<or> (\<exists>t'. t' \<noteq> t \<and> writer (pcs y t'))"
  by (auto simp: writing_def)

lemma claiming_goto: "claiming (goto y t p) \<longleftrightarrow> claimer p \<or> (\<exists>t'. t' \<noteq> t \<and> claimer (pcs y t'))"
  by (auto simp: claiming_def)

lemma writing_split: "writing y \<longleftrightarrow> writer (pcs y t) \<or> (\<exists>t'. t' \<noteq> t \<and> writer (pcs y t'))"
  by (auto simp: writing_def)

lemma claiming_split: "claiming y \<longleftrightarrow> claimer (pcs y t) \<or> (\<exists>t'. t' \<noteq> t \<and> claimer (pcs y t'))"
  by (auto simp: claiming_def)

lemma steady_core_mono:
  "steady_core c acc w k \<Longrightarrow>
     (phase c AND PHASE_MASK = ARMED \<Longrightarrow> outcome_state c = outcome_word (epoch c) OUTCOME_READY \<Longrightarrow> k \<Longrightarrow> k') \<Longrightarrow>
     steady_core c acc w k'"
  unfolding steady_core_def Let_def by blast

lemma winv_goto:
  assumes "winv y" "\<not> restarting y" "\<And>e. p \<noteq> AtRestart e" "knows y p" "writer p \<longleftrightarrow> writer (pcs y t)"
    and "claimer (pcs y t) \<Longrightarrow> ph y = ARMED \<Longrightarrow> ost y OUTCOME_READY \<Longrightarrow> claimer p"
  shows "winv (goto y t p)"
proof (rule winv_step [OF assms(1,2)])
  have st: "steady y"
    using winvD(1) [OF assms(1,2)] .
  have w: "writing (goto y t p) \<longleftrightarrow> writing y"
    using assms(5) unfolding writing_goto writing_split [of y t] by simp
  have k: "claiming (goto y t p)" if "ph y = ARMED" "ost y OUTCOME_READY" "claiming y"
    using assms(6) [OF _ that(1,2)] that(3) unfolding claiming_goto claiming_split [of y t] by blast
  have "steady_core (core y) (accepted y) (writing y) (claiming (goto y t p))"
    using st [unfolded steady_def] k by (rule steady_core_mono)
  then show "steady (goto y t p)"
    unfolding steady_def w by simp
  show "history (goto y t p)"
    using winvD(2) [OF assms(1)] unfolding history_def finishing_def by simp
  show "knows (goto y t p) p" if "\<not> restarting (goto y t p)"
    using assms(2,4) that unfolding knows_def by simp
  show "\<not> writer p \<and> outcome_cell (core (goto y t p)) = outcome_cell (core y) \<and> accepted (goto y t p) = accepted y"
    if "t' \<noteq> t" "writer (pcs y t')" for t'
    using that assms(5) winvD(3) [OF assms(1), of t' t] by auto
qed (use assms(3) in simp_all)

lemma winv_read:
  assumes "winv y" "pcs y t = AtRead e" "outcome_in e (core y) = Some v"
  shows "winv (goto (y\<lparr>returned := (e, v) # returned y\<rparr>) t Idle)"
proof -
  have e: "e = round_of y" "\<not> restarting y" "ost y OUTCOME_READY"
    using knowsD(2,3) [OF assms(1), of t] assms(2) by (auto simp: after_ready_def)
  have acc: "accepted y e = Some v"
    using winvD(1) [OF assms(1) e(2)] e(1,3) assms(3) unfolding steady_def steady_core_def Let_def outcome_in_def has_outcome_in_def by simp
  show ?thesis
    using e(2) assms(2) by (intro winv_goto [OF winv_returned [OF assms(1) acc]]) (auto simp: knows_simps returned_irrelevant)
qed

lemma winv_win:
  assumes "winv y" "pc_epoch (pcs y t) = Some e" "after_ready (pcs y t)" "\<not> finishing y"
    and "epoch c = e" "phase c AND PHASE_MASK = FINISHING" "outcome_state c = outcome_state (core y)"
    "outcome_cell c = outcome_cell (core y)"
  shows "winv (goto (y\<lparr>core := c, wins := e # wins y\<rparr>) t (AtRead e))" (is "winv ?y")
proof (rule winv_step [OF assms(1)])
  have e: "e = round_of y" "\<not> restarting y" "ost y OUTCOME_READY"
    using knowsD(2,3) [OF assms(1), of t] assms(2,3) by auto
  then show "\<not> restarting y"
    by simp
  show "round_of ?y = round_of y"
    using assms(5) e(1) by simp
  have nw: "\<not> writer (pcs y t)"
    using assms(3) by (cases "pcs y t") (simp_all add: writer_def after_ready_def)
  then have w: "writing ?y \<longleftrightarrow> writing y"
    unfolding writing_goto writing_split [of y t] by simp
  have st: "steady y"
    using winvD(1) [OF assms(1) e(2)] .
  show "steady ?y"
    using st e assms(5-8) unfolding steady_def w steady_core_def Let_def by simp
  have h: "history y"
    using winvD(2) [OF assms(1)] .
  then have z: "count_list (wins y) e = 0"
    using assms(4) e(1) unfolding history_def by simp
  have same: "finishing ?y" "wins ?y = e # wins y" "returned ?y = returned y" "accepted ?y = accepted y" "round_of ?y = round_of y"
    using assms(5,6) e(1) by (simp_all add: finishing_def)
  have "count_list (e # wins y) e' \<le> 1" for e'
    using h z unfolding history_def by (cases "e = e'") simp_all
  moreover have "e' \<notin> set (e # wins y) \<and> accepted y e' = None" if "unat (epoch_value (round_of y)) < unat (epoch_value e')" for e'
    using h that e(1) unfolding history_def by auto
  moreover have "\<forall>(e, v) \<in> set (returned y). accepted y e = Some v"
    using h unfolding history_def by blast
  ultimately show "history ?y"
    using z e(1) same(1) unfolding history_def same(2-5) by simp
  show "knows ?y (AtRead e)" if "\<not> restarting ?y"
    using e assms(5,7) that by (simp add: knows_def after_ready_def)
  show "ost ?y OUTCOME_READY"
    using e(1,3) assms(5,7) by simp
qed (use assms in \<open>auto simp: writer_def\<close>)

lemma winv_claim:
  assumes "winv y" "pcs y t = AtOfferClaim e \<or> pcs y t = AtArmClaim e" "claim_armed e (core y) = (b, c)"
  shows "winv (goto (y\<lparr>core := c, wins := (if b then e # wins y else wins y)\<rparr>) t (if b then AtRead e else Idle))"
proof -
  have p: "pc_epoch (pcs y t) = Some e" "after_ready (pcs y t)"
    using assms(2) by (auto simp: after_ready_def)
  have e: "e = round_of y" "\<not> restarting y"
    using knowsD(2) [OF assms(1) p(1)] by auto
  show ?thesis
  proof (cases b)
    case True
    then have "cas_phase (move_phase e ARMED FINISHING) (core y) = (True, c)"
      using assms(3) by (simp add: claim_armed_def)
    note m = move_phase_True [OF this]
    show ?thesis
      using winv_win [OF assms(1) p, of c] m True by (simp add: finishing_def)
  next
    case False
    then have "c = core y" "ph y \<noteq> ARMED"
      using cas_phase_False assms(3) move_phase_iff [of e ARMED FINISHING "core y"] e(1)
      by (auto simp: claim_armed_def)
    then show ?thesis
      using False e assms(2) winv_goto [OF assms(1) e(2), of Idle t] by (auto simp: knows_simps writer_def)
  qed
qed

lemma winv_finish:
  assumes "winv y" "pcs y t = AtFinish e" "cas_phase (move_phase e INSTALLING FINISHING) (core y) = (b, c)"
  shows "winv (goto (y\<lparr>core := c, wins := (if b then e # wins y else wins y)\<rparr>) t (if b then AtRead e else Idle))"
proof -
  have p: "pc_epoch (pcs y t) = Some e" "after_ready (pcs y t)"
    using assms(2) by (auto simp: after_ready_def)
  have e: "e = round_of y" "\<not> restarting y"
    using knowsD(2) [OF assms(1) p(1)] by auto
  show ?thesis
  proof (cases b)
    case True
    then have "cas_phase (move_phase e INSTALLING FINISHING) (core y) = (True, c)"
      using assms(3) by simp
    note m = move_phase_True [OF this]
    show ?thesis
      using winv_win [OF assms(1) p, of c] m True by (simp add: finishing_def)
  next
    case False
    then have "c = core y"
      using cas_phase_False assms(3) by auto
    then show ?thesis
      using False e assms(2) winv_goto [OF assms(1) e(2), of Idle t] by (auto simp: knows_simps writer_def claimer_def)
  qed
qed


lemma not_restarting:
  assumes "winv y" "ph y \<noteq> DONE \<or> (\<exists>s. small s \<and> s \<noteq> OUTCOME_EMPTY \<and> epoch_fits e \<and> outcome_state (core y) = outcome_word e s)"
  shows "\<not> restarting y"
proof
  assume "restarting y"
  then obtain t e' where "pcs y t = AtRestart e'"
    by (auto simp: restarting_def)
  then have r: "epoch_next (round_of y) = Some e'" "ph y = DONE" "outcome_state (core y) = outcome_word e' OUTCOME_EMPTY"
    using knowsD(6) [OF assms(1)] by blast+
  have "epoch_fits e'"
    using epoch_next_fits [OF epoch_fits_round r(1)] by simp
  then show False
    using assms(2) r(2,3) outcome_word_inject [of e' e OUTCOME_EMPTY] by auto
qed

lemma winv_offer_start:
  assumes "winv y" "pcs y t = Idle" "offer_check e (core y)"
  shows "winv (goto y t (AtClaim e v))"
proof -
  have e: "e = round_of y" "ph y \<noteq> DONE"
    using assms(3) by (auto simp: offer_check_def epoch_def)
  then show ?thesis
    using not_restarting [OF assms(1)] assms(2) by (intro winv_goto [OF assms(1)]) (auto simp: knows_simps)
qed

lemma winv_finish_start:
  assumes "winv y" "pcs y t = Idle" "epoch_fits e" "has_outcome_in e (core y)"
  shows "winv (goto y t (AtFinish e))"
proof -
  have r: "\<not> restarting y"
    using not_restarting [OF assms(1), of e] assms(3,4) unfolding has_outcome_in_def by (metis consts_distinct(17) small_consts(7))
  have "steady y"
    using winvD(1) [OF assms(1) r] .
  then obtain s where "small s" "ost y s"
    unfolding steady_def steady_core_def Let_def using small_consts by blast
  then have "e = round_of y" "ost y OUTCOME_READY"
    using assms(3,4) outcome_word_inject [of e "round_of y" OUTCOME_READY s] unfolding has_outcome_in_def by auto
  then show ?thesis
    using r assms(2) by (intro winv_goto [OF assms(1) r]) (auto simp: knows_simps)
qed

lemma winv_offer_phased:
  assumes "winv y" "pcs y t = AtPhase e"
  shows "winv (goto y t (if offer_phase e (core y) = None then AtOfferClaim e else Idle))"
proof -
  have e: "e = round_of y" "\<not> restarting y" "ost y OUTCOME_READY"
    using knowsD(2,3) [OF assms(1), of t] assms(2) by (auto simp: after_ready_def)
  then have "offer_phase e (core y) = None" if "ph y = ARMED"
    using that by (simp add: offer_phase_def epoch_def)
  then show ?thesis
    using e assms(2) by (intro winv_goto [OF assms(1) e(2)]) (auto simp: knows_simps)
qed

lemma winv_arm_checked:
  assumes "winv y" "pcs y t = AtArmed e"
  shows "winv (goto y t (if has_outcome_in e (core y) then AtArmClaim e else Idle))"
proof -
  have e: "e = round_of y" "\<not> restarting y"
    using knowsD(2) [OF assms(1), of t] assms(2) by auto
  then show ?thesis
    using assms(2) by (intro winv_goto [OF assms(1) e(2)]) (auto simp: knows_simps has_outcome_in_def)
qed

lemma winv_offer_claimed:
  assumes "winv y" "pcs y t = AtClaim e v" "offer_claim e (core y) = (b, c)"
  shows "winv (goto (y\<lparr>core := c\<rparr>) t (if b then AtWrite e v else Idle))"
proof -
  have e: "e = round_of y" "\<not> restarting y"
    using knowsD(2) [OF assms(1), of t] assms(2) by auto
  have st: "steady y" "history y"
    using winvD(1,2) [OF assms(1)] e(2) by blast+
  show ?thesis
  proof (cases b)
    case False
    then have "c = core y"
      using assms(3) by (auto simp: offer_claim_def split: if_splits)
    then show ?thesis
      using False e(2) assms(2) winv_goto [OF assms(1) e(2), of Idle t] by (simp add: knows_simps)
  next
    case True
    let ?y = "goto (y\<lparr>core := c\<rparr>) t (AtWrite e v)"
    have c: "ost y OUTCOME_EMPTY" "c = (core y)\<lparr>outcome_state := outcome_word (round_of y) OUTCOME_WRITING\<rparr>"
      using assms(3) True e(1) by (auto simp: offer_claim_def split: if_splits)
    then have r: "epoch c = round_of y"
      by (simp add: epoch_def)
    have neq: "\<not> ost y OUTCOME_WRITING" "\<not> ost y OUTCOME_READY"
      using ost_inj [of OUTCOME_EMPTY OUTCOME_WRITING y] ost_inj [of OUTCOME_EMPTY OUTCOME_READY y] c(1) by auto
    have nw: "\<not> writing y" "accepted y e = None" "\<not> finishing y"
      using st(1) neq c(1) e(1) unfolding steady_def steady_core_def Let_def finishing_def by auto
    have neq': "outcome_word (round_of y) OUTCOME_WRITING \<noteq> outcome_word (round_of y) OUTCOME_EMPTY"
      "outcome_word (round_of y) OUTCOME_WRITING \<noteq> outcome_word (round_of y) OUTCOME_READY"
      by (simp_all add: outcome_word_inject)
    have "winv ?y"
    proof (rule winv_step [OF assms(1) e(2)])
      have "writing ?y"
        unfolding writing_goto by simp
      then show "steady ?y"
        using nw(3) neq' r unfolding steady_def steady_core_def Let_def finishing_def by (simp add: c(2))
      show "history ?y"
        using st(2) r unfolding history_def finishing_def by (simp add: c(2))
      show "knows ?y (AtWrite e v)" if "\<not> restarting ?y"
        using that e(1) r nw(2) by (simp add: knows_def after_ready_def)
    qed (use nw(1) neq(2) r in \<open>auto simp: writing_def\<close>)
    then show ?thesis
      using True by simp
  qed
qed


lemma winv_offer_written:
  assumes "winv y" "pcs y t = AtWrite e v"
  shows "winv (goto (y\<lparr>core := offer_write v (core y), accepted := (accepted y)(e \<mapsto> v)\<rparr>) t (AtPublish e))" (is "winv ?y")
proof (rule winv_step [OF assms(1)])
  have e: "e = round_of y" "\<not> restarting y" "accepted y e = None"
    using knowsD(2,5) [OF assms(1), of t] assms(2) by auto
  then show "\<not> restarting y"
    by simp
  have st: "steady y" "history y"
    using winvD(1,2) [OF assms(1)] e(2) by blast+
  have "writing y"
    using assms(2) unfolding writing_split [of y t] by simp
  then have w: "ost y OUTCOME_WRITING"
    using st(1) unfolding steady_def steady_core_def Let_def by simp
  then have neq: "\<not> ost y OUTCOME_EMPTY" "\<not> ost y OUTCOME_READY"
    using ost_inj [of OUTCOME_WRITING OUTCOME_EMPTY y] ost_inj [of OUTCOME_WRITING OUTCOME_READY y] by auto
  show r: "round_of ?y = round_of y"
    by (simp add: offer_write_def epoch_def)
  have wr: "writing ?y"
    unfolding writing_goto by simp
  have nf: "\<not> finishing y"
    using st(1) neq(2) unfolding steady_def steady_core_def Let_def finishing_def by blast
  show "steady ?y"
    using w wr neq nf r unfolding steady_def steady_core_def Let_def finishing_def by (simp add: offer_write_def)
  have ret: "\<forall>(a, b) \<in> set (returned y). ((accepted y)(e \<mapsto> v)) a = Some b"
  proof (clarify)
    fix a b
    assume "(a, b) \<in> set (returned y)"
    then have "accepted y a = Some b"
      using st(2) unfolding history_def by blast
    then show "((accepted y)(e \<mapsto> v)) a = Some b"
      using e(3) by auto
  qed
  have same: "finishing ?y \<longleftrightarrow> finishing y" "wins ?y = wins y" "returned ?y = returned y" "accepted ?y = (accepted y)(e \<mapsto> v)"
    by (simp_all add: finishing_def offer_write_def)
  have later: "((accepted y)(e \<mapsto> v)) e' = accepted y e'" if "unat (epoch_value (round_of y)) < unat (epoch_value e')" for e'
    using that e(1) by auto
  show "history ?y"
    using st(2) ret later unfolding history_def same r by simp
  show "knows ?y (AtPublish e)" if "\<not> restarting ?y"
    using that e(1) r by (simp add: knows_def after_ready_def offer_write_def)
  show "ost y OUTCOME_READY \<Longrightarrow> ost ?y OUTCOME_READY"
    using neq(2) by blast
  show "\<not> writer (AtPublish e) \<and> outcome_cell (core ?y) = outcome_cell (core y) \<and> accepted ?y = accepted y"
    if "t' \<noteq> t" "writer (pcs y t')" for t'
    using winvD(3) [OF assms(1), of t t'] assms(2) that by simp
qed simp_all

lemma winv_offer_published:
  assumes "winv y" "pcs y t = AtPublish e"
  shows "winv (goto (y\<lparr>core := offer_publish e (core y)\<rparr>) t (AtPhase e))" (is "winv ?y")
proof (rule winv_step [OF assms(1)])
  have e: "e = round_of y" "\<not> restarting y" "outcome_cell (core y) = accepted y e" "accepted y e \<noteq> None"
    using knowsD(2,4) [OF assms(1), of t] assms(2) by auto
  then show "\<not> restarting y"
    by simp
  have st: "history y"
    using winvD(2) [OF assms(1)] .
  show r: "round_of ?y = round_of y"
    by (simp add: offer_publish_def epoch_def)
  have only: "\<not> writer (pcs y t')" if "t' \<noteq> t" for t'
    using winvD(3) [OF assms(1), of t t'] assms(2) that by auto
  have "\<not> writing ?y"
    unfolding writing_goto using only by auto
  moreover have "claiming ?y"
    unfolding claiming_goto by simp
  moreover have neq: "outcome_word (round_of y) OUTCOME_READY \<noteq> outcome_word (round_of y) OUTCOME_EMPTY"
    "outcome_word (round_of y) OUTCOME_READY \<noteq> outcome_word (round_of y) OUTCOME_WRITING"
    by (simp_all add: outcome_word_inject)
  ultimately show "steady ?y"
    using e r unfolding steady_def steady_core_def Let_def by (simp add: offer_publish_def)
  show "history ?y"
    using st r unfolding history_def finishing_def by (simp add: offer_publish_def)
  show rdy: "ost ?y OUTCOME_READY"
    using e(1) r by (simp add: offer_publish_def)
  show "knows ?y (AtPhase e)" if "\<not> restarting ?y"
    using knows_simps(3) [OF that] e(1) r rdy by simp
  show "\<not> writer (AtPhase e) \<and> outcome_cell (core ?y) = outcome_cell (core y) \<and> accepted ?y = accepted y"
    if "t' \<noteq> t" "writer (pcs y t')" for t'
    using only that by blast
qed simp_all

lemma winv_arm_start:
  assumes "winv y" "pcs y t = Idle" "cas_phase (move_phase e INSTALLING ARMED) (core y) = (True, c)"
  shows "winv (goto (y\<lparr>core := c\<rparr>) t (AtArmed e))" (is "winv ?y")
proof (rule winv_step [OF assms(1)])
  note m = move_phase_True [OF assms(3)]
  show r: "\<not> restarting y"
    using not_restarting [OF assms(1)] m(3) by simp
  have st: "steady y" "history y"
    using winvD(1,2) [OF assms(1)] r by blast+
  show ro: "round_of ?y = round_of y"
    using m(1,2) by simp
  have w: "writing ?y \<longleftrightarrow> writing y"
    using assms(2) unfolding writing_goto writing_split [of y t] by simp
  have k: "claiming ?y"
    unfolding claiming_goto by simp
  have "epoch c = round_of y"
    using ro by simp
  then show "steady ?y"
    using st(1) k m unfolding steady_def w steady_core_def Let_def by auto
  show "history ?y"
    using st(2) ro m(3,4) unfolding history_def finishing_def by simp
  show "knows ?y (AtArmed e)" if "\<not> restarting ?y"
    using knows_simps(2) [OF that] m(2) by simp
  show "ost y OUTCOME_READY \<Longrightarrow> ost ?y OUTCOME_READY"
    using ro m(5) by simp
qed (use move_phase_True [OF assms(3)] in auto)

text \<open>Abandoning and marking done only move the phase word.\<close>

lemma winv_phase:
  assumes "winv y" "epoch c = round_of y" "outcome_state c = outcome_state (core y)" "outcome_cell c = outcome_cell (core y)"
    and "phase c AND PHASE_MASK = ph y \<or> \<not> restarting y \<and> ph y = FINISHING \<and> phase c AND PHASE_MASK = DONE"
  shows "winv (y\<lparr>core := c\<rparr>)" (is "winv ?y")
proof -
  have k: "knows ?y p" if "knows y p" "restarting y \<longrightarrow> phase c AND PHASE_MASK = ph y" "(\<exists>e. p = AtRestart e) \<longrightarrow> restarting y" for p
    using that assms(2-4) unfolding knows_def restarting_def by (cases p) (simp_all add: after_ready_def)
  have "knows ?y (pcs y t)" for t
    using k [of "pcs y t"] assms(1,5) unfolding winv_def restarting_def by blast
  moreover have "history ?y"
    using winvD(2) [OF assms(1)] assms(2,5) unfolding history_def finishing_def by auto
  moreover have "steady ?y" if "\<not> restarting y"
  proof -
    have st: "steady_core (core y) (accepted y) (writing y) (claiming y)"
      using winvD(1) [OF assms(1) that] by (simp add: steady_def)
    have "steady_core c (accepted y) (writing y) (claiming y)"
    proof (cases "phase c AND PHASE_MASK = ph y")
      case True
      show ?thesis
        using st unfolding steady_core_def Let_def assms(2-4) True .
    next
      case False
      then have p: "ph y = FINISHING" "phase c AND PHASE_MASK = DONE"
        using assms(5) by blast+
      show ?thesis
        using st consts_distinct(11) unfolding steady_core_def Let_def assms(2-4) p by blast
    qed
    then show ?thesis
      by (simp add: steady_def writing_def claiming_def)
  qed
  ultimately show ?thesis
    using assms(1) unfolding winv_def restarting_def by simp
qed


lemma winv_abandon: "winv y \<Longrightarrow> abandon e (core y) = (b, c) \<Longrightarrow> winv (y\<lparr>core := c\<rparr>)"
  using winv_phase [of y c] abandon_same [of e "core y" b c] by blast

lemma winv_mark_done:
  assumes "winv y" "mark_done_in e (core y) = (b, c)"
  shows "winv (y\<lparr>core := c\<rparr>)"
proof (cases b)
  case True
  then have "cas_phase (move_phase e FINISHING DONE) (core y) = (True, c)"
    using assms(2) by (simp add: mark_done_in_def)
  note m = move_phase_True [OF this]
  show ?thesis
    using winv_phase [OF assms(1), of c] not_restarting [OF assms(1)] m by simp
next
  case False
  then have "c = core y"
    using assms(2) cas_phase_False by (auto simp: mark_done_in_def)
  then show ?thesis
    using assms(1) by simp
qed

lemma winv_restart_start:
  assumes "winv y" "pcs y t = Idle" "quiescent y" "is_done (core y)" "epoch_next (round_of y) = Some e"
  shows "winv (goto (y\<lparr>core := restart_outcome e (core y)\<rparr>) t (AtRestart e))" (is "winv ?y")
proof -
  have idle: "pcs y t' = Idle" for t'
  proof (cases "pc_epoch (pcs y t')")
    case None
    then show ?thesis
      using assms(3) knowsD(1) [OF assms(1), of t'] unfolding quiescent_def by (cases "pcs y t'") auto
  next
    case (Some e')
    then show ?thesis
      using assms(3) knowsD(2) [OF assms(1) Some] unfolding quiescent_def by blast
  qed
  have r: "epoch (restart_outcome e (core y)) = round_of y" "phase (restart_outcome e (core y)) = phase (core y)"
    by (simp_all add: restart_outcome_def epoch_def)
  have "knows ?y (pcs ?y t')" for t'
    using idle assms(4,5) r by (simp add: knows_def after_ready_def restart_outcome_def is_done_def)
  moreover have "restarting ?y"
    unfolding restarting_def by auto
  moreover have "history ?y"
    using winvD(2) [OF assms(1)] r unfolding history_def finishing_def by simp
  ultimately show ?thesis
    using idle unfolding winv_def by simp
qed

lemma winv_restart_end:
  assumes "winv y" "pcs y t = AtRestart e"
  shows "winv (goto (y\<lparr>core := restart_phase e (core y)\<rparr>) t Idle)" (is "winv ?y")
proof -
  have k: "epoch_next (round_of y) = Some e" "ph y = DONE" "outcome_state (core y) = outcome_word e OUTCOME_EMPTY"
    using knowsD(6) [OF assms(1)] assms(2) by blast+
  have f: "epoch_fits e" "unat (epoch_value e) = unat (epoch_value (round_of y)) + 1"
    using epoch_next_fits [OF epoch_fits_round k(1)] by simp_all
  have c: "round_of ?y = e" "ph ?y = INSTALLING" "outcome_state (core ?y) = outcome_word e OUTCOME_EMPTY"
    using phase_word_epoch [of INSTALLING e] phase_word_phase [of INSTALLING e] f(1) k(3) by (simp_all add: restart_phase_def epoch_def)
  have r: "restarting y"
    using assms(2) unfolding restarting_def by blast
  have idle: "pcs y t' = Idle" if "t' \<noteq> t" for t'
  proof -
    have "pcs y t' \<noteq> AtRestart e'" for e'
      using assms that unfolding winv_def by blast
    then show ?thesis
      using knowsD(1,2) [OF assms(1), of t'] r by (cases "pcs y t'") auto
  qed
  have h: "history y"
    using winvD(2) [OF assms(1)] .
  then have fresh: "e \<notin> set (wins y)" "accepted y e = None"
    using f(2) unfolding history_def by simp_all
  have "knows ?y (pcs ?y t')" for t'
    using idle [of t'] by (cases "t' = t") (simp_all add: knows_def after_ready_def)
  moreover have "\<not> writing ?y"
    unfolding writing_goto using idle by auto
  then have "steady ?y"
    using c fresh(2) f(1) unfolding steady_def steady_core_def Let_def by (simp add: outcome_word_inject)
  moreover have "history ?y"
    using h c(1,2) fresh f(2) unfolding history_def finishing_def by (simp add: count_list_0_iff)
  ultimately show ?thesis
    using idle unfolding winv_def by auto
qed

lemma winv_no_panic:
  assumes "winv y" "pcs y t = AtRead e"
  shows "outcome_in e (core y) \<noteq> None"
proof -
  have e: "e = round_of y" "\<not> restarting y" "ost y OUTCOME_READY"
    using knowsD(2,3) [OF assms(1), of t] assms(2) by (auto simp: after_ready_def)
  then show ?thesis
    using winvD(1) [OF assms(1) e(2)] unfolding steady_def steady_core_def Let_def outcome_in_def has_outcome_in_def by simp
qed

lemma winv_wstep:
  assumes "winv y" "wstep y y'"
  shows "winv y'"
  using assms(2)
proof cases
  case (offer_start t e v)
  then show ?thesis
    using winv_offer_start [OF assms(1)] by simp
next
  case (offer_claimed t e v b c)
  then show ?thesis
    using winv_offer_claimed [OF assms(1)] by simp
next
  case (offer_written t e v)
  then show ?thesis
    using winv_offer_written [OF assms(1)] by simp
next
  case (offer_published t e)
  then show ?thesis
    using winv_offer_published [OF assms(1)] by simp
next
  case (offer_phased t e)
  then show ?thesis
    using winv_offer_phased [OF assms(1)] by simp
next
  case (offer_claims t e b c)
  then show ?thesis
    using winv_claim [OF assms(1)] by simp
next
  case (arm_start t e c)
  then show ?thesis
    using winv_arm_start [OF assms(1)] by simp
next
  case (arm_checked t e)
  then show ?thesis
    using winv_arm_checked [OF assms(1)] by simp
next
  case (arm_claims t e b c)
  then show ?thesis
    using winv_claim [OF assms(1)] by simp
next
  case (finish_start t e)
  then show ?thesis
    using winv_finish_start [OF assms(1)] by simp
next
  case (finish_claims t e b c)
  then show ?thesis
    using winv_finish [OF assms(1)] by simp
next
  case (read_outcome t e v)
  then show ?thesis
    using winv_read [OF assms(1)] by simp
next
  case (read_panics t e)
  then show ?thesis
    using winv_no_panic [OF assms(1)] by simp
next
  case (abandons e b c)
  then show ?thesis
    using winv_abandon [OF assms(1)] by simp
next
  case (marks_done e b c)
  then show ?thesis
    using winv_mark_done [OF assms(1)] by simp
next
  case (restart_start t e)
  then show ?thesis
    using winv_restart_start [OF assms(1)] by simp
next
  case (restart_end t e)
  then show ?thesis
    using winv_restart_end [OF assms(1)] by simp
qed

lemma winv_init:
  assumes "winit y"
  shows "winv y"
proof -
  have y: "core y = WaitCore_new" "pcs y = (\<lambda>_. Idle)" "wins y = []" "accepted y = (\<lambda>_. None)" "returned y = []"
    using assms by (simp_all add: winit_def)
  have f: "epoch_fits (WaitEpoch 1)"
    by (simp add: epoch_fits_unat)
  have c: "round_of y = WaitEpoch 1" "ph y = INSTALLING"
    using phase_word_epoch [of INSTALLING "WaitEpoch 1"] phase_word_phase [of INSTALLING "WaitEpoch 1"] f
    by (simp_all add: y WaitCore_new_def epoch_def)
  have "\<not> restarting y" "\<not> writing y"
    by (simp_all add: restarting_def writing_def y)
  moreover from this have "steady y"
    using c f unfolding steady_def steady_core_def Let_def by (simp add: y WaitCore_new_def outcome_word_inject)
  moreover have "history y"
    using c unfolding history_def finishing_def by (simp add: y)
  ultimately show ?thesis
    unfolding winv_def by (simp add: y knows_simps)
qed

interpretation wait_run: inv_system winit wstep winv
  by unfold_locales (fact winv_init, fact winv_wstep)

definition wait_reachable :: "'o wsys \<Rightarrow> bool" where
  "wait_reachable y \<longleftrightarrow> (\<exists>y0. winit y0 \<and> wstep\<^sup>*\<^sup>* y0 y)"

lemma wait_reachable_inv: "wait_reachable y \<Longrightarrow> winv y"
  unfolding wait_reachable_def using wait_run.inv_reachable by blast


lemma wait_reachable_step: "wait_reachable y \<Longrightarrow> wstep y y' \<Longrightarrow> wait_reachable y'"
  unfolding wait_reachable_def by (metis rtranclp.rtrancl_into_rtrancl)

section \<open>A run used by the witnesses\<close>

text \<open>One thread arms, then another offers 7 and completes.\<close>

definition wait_demo :: "nat wsys" where
  "wait_demo = \<lparr>core = \<lparr>phase = 10, outcome_state = 6, outcome_cell = Some 7\<rparr>, pcs = (\<lambda>_. Idle),
     wins = [WaitEpoch 1], accepted = [WaitEpoch 1 \<mapsto> 7], returned = [(WaitEpoch 1, 7)]\<rparr>"

lemmas wait_eval = wait_consts epoch_def offer_check_def offer_claim_def offer_write_def offer_publish_def offer_phase_def
  claim_armed_def cas_phase_def move_phase_def in_phase_def set_phase_def has_outcome_in_def outcome_in_def outcome_word_def

lemma wait_demo_run: "wait_reachable wait_demo"
proof -
  let ?c = "\<lambda>p os v. \<lparr>phase = p, outcome_state = os, outcome_cell = v\<rparr> :: nat wait_core"
  let ?e = "WaitEpoch 1"
  let ?y = "\<lambda>c p a w r. \<lparr>core = c, pcs = (\<lambda>_. Idle)(0 := p), wins = w, accepted = a, returned = r\<rparr> :: nat wsys"
  have "winit (?y (?c 8 4 None) Idle (\<lambda>_. None) [] [])"
    by (simp add: winit_def WaitCore_new_def phase_word_def outcome_word_def wait_consts fun_upd_idem)
  then have y0: "wait_reachable (?y (?c 8 4 None) Idle (\<lambda>_. None) [] [])"
    unfolding wait_reachable_def by blast
  have y1: "wait_reachable (?y (?c 9 4 None) (AtArmed ?e) (\<lambda>_. None) [] [])"
    using wait_reachable_step [OF y0 arm_start [of _ 0 ?e "?c 9 4 None"]] by (simp add: wait_eval)
  have y2: "wait_reachable (?y (?c 9 4 None) Idle (\<lambda>_. None) [] [])"
    using wait_reachable_step [OF y1 arm_checked [of _ 0 ?e]] by (simp add: wait_eval)
  have y3: "wait_reachable (?y (?c 9 4 None) (AtClaim ?e 7) (\<lambda>_. None) [] [])"
    using wait_reachable_step [OF y2 offer_start [of _ 0 ?e 7]] by (simp add: wait_eval)
  have y4: "wait_reachable (?y (?c 9 5 None) (AtWrite ?e 7) (\<lambda>_. None) [] [])"
    using wait_reachable_step [OF y3 offer_claimed [of _ 0 ?e 7 True "?c 9 5 None"]] by (simp add: wait_eval)
  have y5: "wait_reachable (?y (?c 9 5 (Some 7)) (AtPublish ?e) [?e \<mapsto> 7] [] [])"
    using wait_reachable_step [OF y4 offer_written [of _ 0 ?e 7]] by (simp add: wait_eval)
  have y6: "wait_reachable (?y (?c 9 6 (Some 7)) (AtPhase ?e) [?e \<mapsto> 7] [] [])"
    using wait_reachable_step [OF y5 offer_published [of _ 0 ?e]] by (simp add: wait_eval)
  have y7: "wait_reachable (?y (?c 9 6 (Some 7)) (AtOfferClaim ?e) [?e \<mapsto> 7] [] [])"
    using wait_reachable_step [OF y6 offer_phased [of _ 0 ?e]] by (simp add: wait_eval)
  have y8: "wait_reachable (?y (?c 10 6 (Some 7)) (AtRead ?e) [?e \<mapsto> 7] [?e] [])"
    using wait_reachable_step [OF y7 offer_claims [of _ 0 ?e True "?c 10 6 (Some 7)"]] by (simp add: wait_eval)
  have "wait_reachable (?y (?c 10 6 (Some 7)) Idle [?e \<mapsto> 7] [?e] [(?e, 7)])"
    using wait_reachable_step [OF y8 read_outcome [of _ 0 ?e 7]] by (simp add: wait_eval)
  then show ?thesis
    by (simp add: wait_demo_def fun_upd_idem)
qed

section \<open>The timeout registration\<close>

datatype timeout_op = Publish timer_token | Close | TakeCancellation | Retire timer_token

text \<open>One operation on the shared word; the result is the token the caller now has to dispose of.\<close>

fun timeout_step :: "timeout_op \<Rightarrow> timeout_registration \<Rightarrow> timer_token option \<times> timeout_registration" where
  "timeout_step (Publish t) s = (None, snd (publish t s))"
| "timeout_step Close s = (None, close s)"
| "timeout_step TakeCancellation s = take_cancellation s"
| "timeout_step (Retire t) s = (case retire t s of (b, s') \<Rightarrow> (if b then Some t else None, s'))"

fun timeout_run :: "timeout_op list \<Rightarrow> timeout_registration \<Rightarrow> timer_token list \<times> timeout_registration" where
  "timeout_run [] s = ([], s)"
| "timeout_run (x # xs) s =
     (case timeout_step x s of (r, s1) \<Rightarrow>
        (case timeout_run xs s1 of (rs, s2) \<Rightarrow> ((case r of None \<Rightarrow> rs | Some t \<Rightarrow> t # rs), s2)))"

text \<open>The tokens timer queues issue: below bit 63 and not zero.\<close>

definition token_valid :: "timer_token \<Rightarrow> bool" where
  "token_valid t \<longleftrightarrow> token_raw t \<noteq> 0 \<and> token_raw t AND TIMEOUT_CLOSED = 0"

fun op_valid :: "timeout_op \<Rightarrow> bool" where
  "op_valid (Publish t) \<longleftrightarrow> token_valid t"
| "op_valid (Retire t) \<longleftrightarrow> token_valid t"
| "op_valid _ \<longleftrightarrow> True"

lemma closed_bit: "TIMEOUT_CLOSED = push_bit 63 1" "TIMEOUT_CLOSED \<noteq> 0" "TIMEOUT_CLOSED AND TIMEOUT_CLOSED \<noteq> 0"
  by (simp_all add: TIMEOUT_CLOSED_def RAW_MASK_def OWNER_BITS_def SLOT_BITS_def GENERATION_BITS_def)

lemma closed_parts:
  assumes "w AND TIMEOUT_CLOSED = 0"
  shows "(w OR TIMEOUT_CLOSED) AND NOT TIMEOUT_CLOSED = w" "(w OR TIMEOUT_CLOSED) AND TIMEOUT_CLOSED = TIMEOUT_CLOSED"
    "w OR TIMEOUT_CLOSED = TIMEOUT_CLOSED \<longleftrightarrow> w = 0"
proof -
  show a: "(w OR TIMEOUT_CLOSED) AND NOT TIMEOUT_CLOSED = w"
  proof (rule bit_word_eqI)
    fix n
    have "bit (w AND TIMEOUT_CLOSED) n \<longleftrightarrow> False"
      using assms by simp
    then show "n < LENGTH(64) \<Longrightarrow> bit ((w OR TIMEOUT_CLOSED) AND NOT TIMEOUT_CLOSED) n \<longleftrightarrow> bit w n"
      by (auto simp: bit_simps)
  qed
  show "(w OR TIMEOUT_CLOSED) AND TIMEOUT_CLOSED = TIMEOUT_CLOSED"
    by (rule bit_word_eqI) (auto simp: bit_simps)
  show "w OR TIMEOUT_CLOSED = TIMEOUT_CLOSED \<longleftrightarrow> w = 0"
    using a by auto
qed

text \<open>Once published, the word is the token, the token marked closed, or closed without a token.\<close>

lemma timeout_closed_stays: "op_valid x \<Longrightarrow> timeout_step x TIMEOUT_CLOSED = (None, TIMEOUT_CLOSED)"
  using closed_bit(2,3)
  by (cases x) (auto simp: publish_def close_def take_cancellation_def retire_def TIMEOUT_UNREGISTERED_def token_valid_def)

lemma timeout_held:
  assumes "token_valid t" "op_valid x" "s = token_raw t \<or> s = token_raw t OR TIMEOUT_CLOSED"
  shows "timeout_step x s = (Some t, TIMEOUT_CLOSED) \<or>
    (\<exists>s'. timeout_step x s = (None, s') \<and> (s' = token_raw t \<or> s' = token_raw t OR TIMEOUT_CLOSED))"
proof -
  have t: "token_raw t AND TIMEOUT_CLOSED = 0" "token_raw t \<noteq> 0"
    using assms(1) by (simp_all add: token_valid_def)
  note c = closed_parts [OF t(1)]
  have n: "token_raw t' \<noteq> token_raw t OR TIMEOUT_CLOSED" if "token_valid t'" for t'
    using that c(2) closed_bit(2) by (auto simp: token_valid_def)
  have "token_raw t OR TIMEOUT_CLOSED \<noteq> 0"
  proof
    assume "token_raw t OR TIMEOUT_CLOSED = 0"
    then show False
      using c(2) closed_bit(2) by simp
  qed
  then have nz: "s \<noteq> 0" "s = TIMEOUT_CLOSED \<longleftrightarrow> False"
    using assms(3) t c(2,3) closed_bit(2) by auto
  show ?thesis
  proof (cases x)
    case (Publish t')
    then show ?thesis
      using assms(3) nz by (auto simp: publish_def TIMEOUT_UNREGISTERED_def)
  next
    case Close
    then show ?thesis
      using assms(3) by (auto simp: close_def or.assoc)
  next
    case TakeCancellation
    then show ?thesis
      using assms(3) nz c t(1) closed_bit(2) by (cases t) (auto simp: take_cancellation_def)
  next
    case (Retire t')
    then show ?thesis
      using assms n [of t'] by (cases t; cases t') (auto simp: retire_def)
  qed
qed

lemma timeout_run_closed: "\<forall>x \<in> set xs. op_valid x \<Longrightarrow> timeout_run xs TIMEOUT_CLOSED = ([], TIMEOUT_CLOSED)"
  by (induction xs) (simp_all add: timeout_closed_stays)

lemma timeout_run_held:
  assumes "token_valid t" "\<forall>x \<in> set xs. op_valid x" "s = token_raw t \<or> s = token_raw t OR TIMEOUT_CLOSED"
    and "timeout_run xs s = (rs, s')"
  shows "rs = [t] \<and> s' = TIMEOUT_CLOSED \<or> rs = [] \<and> (s' = token_raw t \<or> s' = token_raw t OR TIMEOUT_CLOSED)"
  using assms(2-4)
proof (induction xs arbitrary: s rs)
  case (Cons x xs)
  from timeout_held [OF assms(1) _ Cons.prems(2), of x] Cons.prems(1)
  consider "timeout_step x s = (Some t, TIMEOUT_CLOSED)"
    | s1 where "timeout_step x s = (None, s1)" "s1 = token_raw t \<or> s1 = token_raw t OR TIMEOUT_CLOSED"
    by auto
  then show ?case
  proof cases
    case 1
    then show ?thesis
      using Cons.prems timeout_run_closed [of xs] by simp
  next
    case 2
    then show ?thesis
      using Cons.IH [of s1 rs] Cons.prems by (auto split: prod.splits)
  qed
qed auto


section \<open>Uninterrupted operations\<close>







section \<open>Properties\<close>

text \<open>
  Claim C21. A wait has one completer. Whatever the interleaving of offers, arming, early finishing, abandoning, marking done and
  restarts with any number of threads, the right to complete a round is given out at most once, every completer
  reads the one value accepted in its round, and no assertion fails.
\<close>

theorem wait_one_completer:
  assumes "wait_reachable y"
  shows "count_list (wins y) e \<le> 1 \<and> ((e, v) \<in> set (returned y) \<longrightarrow> accepted y e = Some v) \<and> pcs y t \<noteq> Panicked"
  using wait_reachable_inv [OF assms] knowsD(1) [of y t] unfolding winv_def history_def by blast

theorem wait_one_completer_witness:
  "count_list (wins wait_demo) (WaitEpoch 1) = 1 \<and> accepted wait_demo (WaitEpoch 1) = Some 7"
  using wait_one_completer [OF wait_demo_run, of "WaitEpoch 1" 7] by (simp add: wait_demo_def)






text \<open>
  Claim C23. A registered timeout has one owner. After a token is published, any sequence of further operations by any
  threads hands out at most one disposal of it, to the expiry that retires it or to the canceller that takes it, and
  always of that very token; and it has been handed out exactly when the word is closed without a token.
\<close>

theorem timeout_one_owner:
  assumes "token_valid t" "publish t TimeoutRegistration_new = (b, s)" "\<forall>x \<in> set xs. op_valid x" "timeout_run xs s = (rs, s')"
  shows "b \<and> (rs = [] \<or> rs = [t]) \<and> (rs = [t] \<longleftrightarrow> s' = TIMEOUT_CLOSED)"
proof -
  have s: "b" "s = token_raw t"
    using assms(1,2) by (auto simp: publish_def TimeoutRegistration_new_def token_valid_def)
  have "token_raw t \<noteq> TIMEOUT_CLOSED" "token_raw t OR TIMEOUT_CLOSED \<noteq> TIMEOUT_CLOSED"
    using assms(1) closed_bit(2,3) closed_parts(3) [of "token_raw t"] by (auto simp: token_valid_def)
  then show ?thesis
    using timeout_run_held [OF assms(1,3) _ assms(4)] s by auto
qed

theorem timeout_one_owner_witness:
  "timeout_run [Close, TakeCancellation, Retire (TimerToken 0x1000)] 0x1000 = ([TimerToken 0x1000], TIMEOUT_CLOSED)"
proof -
  let ?xs = "[Close, TakeCancellation, Retire (TimerToken 0x1000)]"
  have v: "token_valid (TimerToken 0x1000)" "\<forall>x \<in> set ?xs. op_valid x"
    by (simp_all add: token_valid_def closed_bit)
  obtain rs s' where r: "timeout_run ?xs 0x1000 = (rs, s')"
    by fastforce
  have p: "publish (TimerToken 0x1000) TimeoutRegistration_new = (True, 0x1000)"
    by (simp add: publish_def TimeoutRegistration_new_def closed_bit)
  have "s' = TIMEOUT_CLOSED"
    using r by (auto simp: close_def take_cancellation_def retire_def closed_bit)
  then show ?thesis
    using timeout_one_owner [OF v(1) p v(2) r] r by auto
qed

end
