(* ===== verification/Frame_Pool.thy ===== *)
theory Frame_Pool
  imports Prelude
begin

text \<open>
  The physical frame inventory of \<open>os/frame_pool\<close>: every managed region is cut into aligned power-of-two
  arenas, and each arena keeps a complete binary tree of bytes in external metadata, the byte of a node being the
  largest order its subtree can provide. Frame numbers, indices and orders are natural numbers; a metadata byte is a natural number
  below 256 and a cast \<open>as u8\<close> is reduction modulo 256. Failed \<open>expect\<close>s, assertions and indices out of range are
  \<^const>\<open>None\<close>. \<open>Frame_Tree\<close> holds the lemmas on one tree, \<open>Frame_Pool_Props\<close> the pool.
\<close>

section \<open>Orders and blocks\<close>

definition MAX_ARENAS :: nat where "MAX_ARENAS = 2048"

definition UNAVAILABLE :: nat where "UNAVAILABLE = 255"

definition metadata_bytes :: "nat \<Rightarrow> nat option" where
  "metadata_bytes frame_count = usize_mul frame_count 2"

definition as_u8 :: "nat \<Rightarrow> nat" where
  "as_u8 n = n mod 256"

definition state_available :: "nat \<Rightarrow> nat \<Rightarrow> bool" where
  "state_available state order \<longleftrightarrow> state \<noteq> UNAVAILABLE \<and> state \<ge> order"

definition max_available :: "nat \<Rightarrow> nat \<Rightarrow> nat" where
  "max_available l r = (if l = UNAVAILABLE then r else if r = UNAVAILABLE then l else max l r)"

text \<open>\<open>1usize.checked_shl(order as u32)\<close>; the cast keeps the low 32 bits.\<close>

definition order_size :: "nat \<Rightarrow> nat option" where
  "order_size order = (let n = order mod 2 ^ 32 in if n < 64 then Some (2 ^ n) else None)"

text \<open>\<open>usize::BITS - 1 - leading_zeros\<close> and \<open>trailing_zeros\<close>.\<close>

fun floor_order :: "nat \<Rightarrow> nat" where
  "floor_order n = (if n \<le> 1 then 0 else Suc (floor_order (n div 2)))"

declare floor_order.simps [simp del]

fun trailing_zeros :: "nat \<Rightarrow> nat" where
  "trailing_zeros n = (if n = 0 then 64 else if odd n then 0 else Suc (trailing_zeros (n div 2)))"

declare trailing_zeros.simps [simp del]

text \<open>The order of the block \<open>for_each_block\<close> emits next.\<close>

definition block_order :: "nat \<Rightarrow> nat \<Rightarrow> nat" where
  "block_order s e = min (if s = 0 then 63 else trailing_zeros s) (floor_order (e - s))"

text \<open>\<open>for_each_block\<close>: the blocks it hands to its callback, in order.\<close>

function for_each_block :: "nat \<Rightarrow> nat \<Rightarrow> (nat \<times> nat) list" where
  "for_each_block s e =
     (if s < e then (s, block_order s e) # for_each_block (s + 2 ^ block_order s e) e else [])"
  by pat_completeness auto
termination
  by (relation "measure (\<lambda>(s, e). e - s)") (auto simp: diff_less_mono2)

declare for_each_block.simps [simp del]

definition block_count :: "nat \<Rightarrow> nat \<Rightarrow> nat option" where
  "block_count s e =
     fold (\<lambda>_ c. Option.bind c (\<lambda>n. usize_add n 1)) (for_each_block s e) (Some 0)"

section \<open>Extents\<close>

record extent_geometry =
  ext_base :: nat
  ext_count :: nat

definition ExtentGeometry_new :: "nat \<Rightarrow> nat \<Rightarrow> extent_geometry option" where
  "ExtentGeometry_new b n =
     (if n > 0 \<and> usize_add b n \<noteq> None then Some \<lparr>ext_base = b, ext_count = n\<rparr> else None)"

definition ext_end :: "extent_geometry \<Rightarrow> nat option" where
  "ext_end x = usize_add (ext_base x) (ext_count x)"

text \<open>\<open>split_at\<close>; the outer option is its \<open>expect\<close>.\<close>

definition ext_split_at :: "extent_geometry \<Rightarrow> nat \<Rightarrow> (extent_geometry \<times> extent_geometry) option option" where
  "ext_split_at x offset =
     (if offset = 0 \<or> offset \<ge> ext_count x then Some None
      else do {
        b \<leftarrow> usize_add (ext_base x) offset;
        Some (Some (\<lparr>ext_base = ext_base x, ext_count = offset\<rparr>,
                    \<lparr>ext_base = b, ext_count = ext_count x - offset\<rparr>))
      })"

section \<open>The pool\<close>

datatype add_region_error = InvalidRange | Overlap | ArenaLimit | MetadataExhausted

datatype alloc_at_error = Unavailable

record arena_metadata =
  base :: nat
  metadata_start :: nat
  order :: nat

definition EMPTY_ARENA :: arena_metadata where
  "EMPTY_ARENA = \<lparr>base = 0, metadata_start = 0, order = 0\<rparr>"

definition arena_frames :: "arena_metadata \<Rightarrow> nat option" where
  "arena_frames a = order_size (order a)"

definition arena_end :: "arena_metadata \<Rightarrow> nat option" where
  "arena_end a = do { n \<leftarrow> arena_frames a; usize_add (base a) n }"

definition metadata_len :: "arena_metadata \<Rightarrow> nat option" where
  "metadata_len a = do { n \<leftarrow> arena_frames a; metadata_bytes n }"

record frame_pool =
  metadata :: "nat list"
  metadata_used :: nat
  arenas :: "arena_metadata list"
  arena_count :: nat
  free_frames :: nat

definition FramePool_new :: "nat list \<Rightarrow> arena_metadata list \<Rightarrow> frame_pool option" where
  "FramePool_new md ars =
     (if ars \<noteq> [] \<and> length ars \<le> MAX_ARENAS
      then Some \<lparr>metadata = replicate (length md) UNAVAILABLE, metadata_used = 0,
        arenas = replicate (length ars) EMPTY_ARENA, arena_count = 0, free_frames = 0\<rparr>
      else None)"

text \<open>The arenas in use: \<open>self.arenas[..self.arena_count]\<close>.\<close>

definition admitted :: "frame_pool \<Rightarrow> arena_metadata list" where
  "admitted p = take (arena_count p) (arenas p)"

subsection \<open>One tree\<close>

definition state :: "frame_pool \<Rightarrow> arena_metadata \<Rightarrow> nat \<Rightarrow> nat option" where
  "state p a node = at (metadata p) (metadata_start a + node)"

definition set_state :: "frame_pool \<Rightarrow> arena_metadata \<Rightarrow> nat \<Rightarrow> nat \<Rightarrow> frame_pool option" where
  "set_state p a node s =
     (if metadata_start a + node < length (metadata p)
      then Some (p\<lparr>metadata := (metadata p)[metadata_start a + node := s]\<rparr>) else None)"

definition order_at :: "arena_metadata \<Rightarrow> nat \<Rightarrow> nat option" where
  "order_at a node = usize_sub (order a) (floor_order node)"

text \<open>The body of the loop of \<open>update_ancestors\<close>, at the parent.\<close>

definition update_node :: "frame_pool \<Rightarrow> arena_metadata \<Rightarrow> nat \<Rightarrow> frame_pool option" where
  "update_node p a node =
     do {
       n \<leftarrow> order_at a node;
       child_order \<leftarrow> usize_sub n 1;
       l \<leftarrow> state p a (node * 2);
       r \<leftarrow> state p a (node * 2 + 1);
       set_state p a node
         (if l = child_order \<and> r = child_order then as_u8 (child_order + 1) else max_available l r)
     }"

function update_ancestors :: "frame_pool \<Rightarrow> arena_metadata \<Rightarrow> nat \<Rightarrow> frame_pool option" where
  "update_ancestors p a node =
     (if node > 1
      then do { p' \<leftarrow> update_node p a (node div 2); update_ancestors p' a (node div 2) }
      else Some p)"
  by pat_completeness auto
termination
  by (relation "measure (\<lambda>(p, a, node). node)") auto

declare update_ancestors.simps [simp del]

definition split_whole :: "frame_pool \<Rightarrow> arena_metadata \<Rightarrow> nat \<Rightarrow> nat \<Rightarrow> frame_pool option" where
  "split_whole p a node n =
     do {
       p1 \<leftarrow> set_state p a (node * 2) (as_u8 (n - 1));
       set_state p1 a (node * 2 + 1) (as_u8 (n - 1))
     }"

text \<open>What \<open>take_any\<close> and \<open>take_at_block\<close> do to a node before they descend: split it when it is whole.\<close>

definition split_if_whole :: "frame_pool \<Rightarrow> arena_metadata \<Rightarrow> nat \<Rightarrow> nat \<Rightarrow> frame_pool option" where
  "split_if_whole p a node n =
     do { s \<leftarrow> state p a node; if s = n then split_whole p a node n else Some p }"

text \<open>The loop of \<open>take_any\<close>: the node it ends at and the first frame of that node.\<close>

fun take_any_loop ::
  "frame_pool \<Rightarrow> arena_metadata \<Rightarrow> nat \<Rightarrow> nat \<Rightarrow> nat \<Rightarrow> nat \<Rightarrow> (frame_pool \<times> nat \<times> nat) option" where
  "take_any_loop p a target node 0 b = Some (p, node, b)"
| "take_any_loop p a target node (Suc child_order) b =
     (if Suc child_order > target
      then do {
        p1 \<leftarrow> split_if_whole p a node (Suc child_order);
        l \<leftarrow> state p1 a (node * 2);
        if state_available l target then take_any_loop p1 a target (node * 2) child_order b
        else do {
          b' \<leftarrow> usize_add b (2 ^ child_order);
          take_any_loop p1 a target (node * 2 + 1) child_order b'
        }
      }
      else Some (p, node, b))"

definition take_any :: "frame_pool \<Rightarrow> arena_metadata \<Rightarrow> nat \<Rightarrow> (nat \<times> frame_pool) option" where
  "take_any p a target =
     do {
       (p1, node, b) \<leftarrow> take_any_loop p a target 1 (order a) (base a);
       p2 \<leftarrow> set_state p1 a node UNAVAILABLE;
       p3 \<leftarrow> update_ancestors p2 a node;
       Some (b, p3)
     }"

text \<open>
  The descent \<open>take_at_block\<close> and \<open>release_block\<close> share: prepare the node, then follow the bit of \<open>base - arena.base\<close>.
\<close>

fun descend ::
  "(frame_pool \<Rightarrow> arena_metadata \<Rightarrow> nat \<Rightarrow> nat \<Rightarrow> frame_pool option) \<Rightarrow>
     frame_pool \<Rightarrow> arena_metadata \<Rightarrow> nat \<Rightarrow> nat \<Rightarrow> nat \<Rightarrow> nat \<Rightarrow> (frame_pool \<times> nat) option" where
  "descend prep p a b target node 0 = Some (p, node)"
| "descend prep p a b target node (Suc n) =
     (if Suc n > target
      then do {
        p1 \<leftarrow> prep p a node (Suc n);
        off \<leftarrow> usize_sub b (base a);
        descend prep p1 a b target (node * 2 + (if bit off n then 1 else 0)) n
      }
      else Some (p, node))"

definition take_at_block :: "frame_pool \<Rightarrow> arena_metadata \<Rightarrow> nat \<Rightarrow> nat \<Rightarrow> frame_pool option" where
  "take_at_block p a b target =
     do {
       (p1, node) \<leftarrow> descend split_if_whole p a b target 1 (order a);
       p2 \<leftarrow> set_state p1 a node UNAVAILABLE;
       update_ancestors p2 a node
     }"

text \<open>\<open>release_block\<close> writes the occupation of an allocated node down to its children before it descends.\<close>

definition materialise :: "frame_pool \<Rightarrow> arena_metadata \<Rightarrow> nat \<Rightarrow> nat \<Rightarrow> frame_pool option" where
  "materialise p a node n =
     do {
       s \<leftarrow> state p a node;
       if s = UNAVAILABLE
       then do {
         p1 \<leftarrow> set_state p a (node * 2) UNAVAILABLE;
         set_state p1 a (node * 2 + 1) UNAVAILABLE
       }
       else Some p
     }"

definition release_block :: "frame_pool \<Rightarrow> arena_metadata \<Rightarrow> nat \<Rightarrow> nat \<Rightarrow> frame_pool option" where
  "release_block p a b n =
     do {
       (p1, node) \<leftarrow> descend materialise p a b n 1 (order a);
       p2 \<leftarrow> set_state p1 a node (as_u8 n);
       update_ancestors p2 a node
     }"

fun block_is_free_loop :: "frame_pool \<Rightarrow> arena_metadata \<Rightarrow> nat \<Rightarrow> nat \<Rightarrow> nat \<Rightarrow> nat \<Rightarrow> bool option" where
  "block_is_free_loop p a b target node n =
     do {
       s \<leftarrow> state p a node;
       if s = n then Some True
       else if s = UNAVAILABLE \<or> n = target then Some False
       else (case n of
          0 \<Rightarrow> None
        | Suc m \<Rightarrow>
            do {
              off \<leftarrow> usize_sub b (base a);
              block_is_free_loop p a b target (node * 2 + (if bit off m then 1 else 0)) m
            })
     }"

declare block_is_free_loop.simps [simp del]

definition block_is_free :: "frame_pool \<Rightarrow> arena_metadata \<Rightarrow> nat \<Rightarrow> nat \<Rightarrow> bool option" where
  "block_is_free p a b target = block_is_free_loop p a b target 1 (order a)"

fun block_has_free_loop :: "frame_pool \<Rightarrow> arena_metadata \<Rightarrow> nat \<Rightarrow> nat \<Rightarrow> nat \<Rightarrow> nat \<Rightarrow> bool option" where
  "block_has_free_loop p a b target node n =
     do {
       s \<leftarrow> state p a node;
       if s = n then Some True
       else if s = UNAVAILABLE then Some False
       else if n = target then Some True
       else (case n of
          0 \<Rightarrow> None
        | Suc m \<Rightarrow>
            do {
              off \<leftarrow> usize_sub b (base a);
              block_has_free_loop p a b target (node * 2 + (if bit off m then 1 else 0)) m
            })
     }"

declare block_has_free_loop.simps [simp del]

definition block_has_free :: "frame_pool \<Rightarrow> arena_metadata \<Rightarrow> nat \<Rightarrow> nat \<Rightarrow> bool option" where
  "block_has_free p a b target = block_has_free_loop p a b target 1 (order a)"

subsection \<open>Ranges over several arenas\<close>

text \<open>\<open>find_arena\<close>; the outer option is the \<open>expect\<close> on the end of an arena it looks at.\<close>

fun find_in :: "arena_metadata list \<Rightarrow> nat \<Rightarrow> arena_metadata option option" where
  "find_in [] frame = Some None"
| "find_in (a # as) frame =
     (if frame \<ge> base a
      then (case arena_end a of
          None \<Rightarrow> None
        | Some e \<Rightarrow> if frame < e then Some (Some a) else find_in as frame)
      else find_in as frame)"

definition find_arena :: "frame_pool \<Rightarrow> nat \<Rightarrow> arena_metadata option option" where
  "find_arena p frame = find_in (admitted p) frame"

lemma find_in_Some: "find_in as frame = Some (Some a) \<Longrightarrow> a \<in> set as \<and> base a \<le> frame \<and> (\<exists>e. arena_end a = Some e \<and> frame < e)"
  by (induction as) (auto split: if_splits option.splits)

text \<open>
  The loop \<open>while start < end\<close> of \<open>range_is_managed\<close>, \<open>range_is_free\<close>, \<open>range_is_unavailable\<close>, \<open>take_range\<close> and
  \<open>release_blocks\<close>: the segments it visits, and whether the last one reaches \<open>end\<close>. The arenas do not change while it runs.
\<close>

function segments :: "arena_metadata list \<Rightarrow> nat \<Rightarrow> nat \<Rightarrow> ((arena_metadata \<times> nat \<times> nat) list \<times> bool) option" where
  "segments as s e =
     (if s < e
      then (case find_in as s of
          None \<Rightarrow> None
        | Some None \<Rightarrow> Some ([], False)
        | Some (Some a) \<Rightarrow>
            (case arena_end a of
               None \<Rightarrow> None
             | Some ae \<Rightarrow>
                 map_option (\<lambda>(segs, whole). ((a, s, min e ae) # segs, whole)) (segments as (min e ae) e)))
      else Some ([], True))"
  by pat_completeness auto
termination
proof (relation "measure (\<lambda>(as, s, e). e - s)", goal_cases)
  case (2 as s e x2 x2a ae)
  then have "s < ae"
    using find_in_Some [of as s x2a] by auto
  then show ?case
    using 2(1) by auto
qed simp

declare segments.simps [simp del]

text \<open>Runs a fallible test over blocks, without stopping early, as the callbacks do (\<open>available &= \<dots>\<close>).\<close>

fun all_blocks :: "((nat \<times> nat) \<Rightarrow> bool option) \<Rightarrow> (nat \<times> nat) list \<Rightarrow> bool option" where
  "all_blocks t [] = Some True"
| "all_blocks t (x # xs) = do { b \<leftarrow> t x; c \<leftarrow> all_blocks t xs; Some (b \<and> c) }"

fun all_segments ::
  "(arena_metadata \<Rightarrow> nat \<times> nat \<Rightarrow> bool option) \<Rightarrow> (arena_metadata \<times> nat \<times> nat) list \<Rightarrow> bool \<Rightarrow> bool option" where
  "all_segments t [] whole = Some whole"
| "all_segments t ((a, s, e) # segs) whole =
     do {
       b \<leftarrow> all_blocks (t a) (for_each_block s e);
       if b then all_segments t segs whole else Some False
     }"

definition range_is_managed :: "frame_pool \<Rightarrow> nat \<Rightarrow> nat \<Rightarrow> bool option" where
  "range_is_managed p s e = map_option snd (segments (admitted p) s e)"

definition range_is_free :: "frame_pool \<Rightarrow> nat \<Rightarrow> nat \<Rightarrow> bool option" where
  "range_is_free p s e =
     do {
       (segs, whole) \<leftarrow> segments (admitted p) s e;
       all_segments (\<lambda>a (b, n). block_is_free p a b n) segs whole
     }"

definition range_is_unavailable :: "frame_pool \<Rightarrow> nat \<Rightarrow> nat \<Rightarrow> bool option" where
  "range_is_unavailable p s e =
     do {
       (segs, whole) \<leftarrow> segments (admitted p) s e;
       all_segments (\<lambda>a (b, n). map_option Not (block_has_free p a b n)) segs whole
     }"

fun each_block ::
  "(frame_pool \<Rightarrow> nat \<times> nat \<Rightarrow> frame_pool option) \<Rightarrow> (nat \<times> nat) list \<Rightarrow> frame_pool \<Rightarrow> frame_pool option" where
  "each_block f [] p = Some p"
| "each_block f (x # xs) p = do { p' \<leftarrow> f p x; each_block f xs p' }"

fun each_segment ::
  "(frame_pool \<Rightarrow> arena_metadata \<Rightarrow> nat \<times> nat \<Rightarrow> frame_pool option) \<Rightarrow>
     (arena_metadata \<times> nat \<times> nat) list \<Rightarrow> frame_pool \<Rightarrow> frame_pool option" where
  "each_segment f [] p = Some p"
| "each_segment f ((a, s, e) # segs) p =
     do { p' \<leftarrow> each_block (\<lambda>q x. f q a x) (for_each_block s e) p; each_segment f segs p' }"

definition take_range :: "frame_pool \<Rightarrow> nat \<Rightarrow> nat \<Rightarrow> frame_pool option" where
  "take_range p s e =
     do {
       (segs, whole) \<leftarrow> segments (admitted p) s e;
       p' \<leftarrow> each_segment (\<lambda>q a (b, n). take_at_block q a b n) segs p;
       if whole then Some p' else None
     }"

definition release_blocks :: "frame_pool \<Rightarrow> nat \<Rightarrow> nat \<Rightarrow> frame_pool option" where
  "release_blocks p s e =
     do {
       (segs, whole) \<leftarrow> segments (admitted p) s e;
       p' \<leftarrow> each_segment (\<lambda>q a (b, n). release_block q a b n) segs p;
       if whole then Some p' else None
     }"

subsection \<open>Operations\<close>

text \<open>Whether a new range overlaps an admitted arena; evaluated from left to right, so an \<open>expect\<close> may fail first.\<close>

fun overlaps_any :: "arena_metadata list \<Rightarrow> nat \<Rightarrow> nat \<Rightarrow> bool option" where
  "overlaps_any [] s e = Some False"
| "overlaps_any (a # as) s e =
     do { ae \<leftarrow> arena_end a; if s < ae \<and> base a < e then Some True else overlaps_any as s e }"

text \<open>The callback of \<open>add_managed_region\<close> for one block.\<close>

definition add_arena :: "frame_pool \<Rightarrow> nat \<times> nat \<Rightarrow> frame_pool option" where
  "add_arena p x =
     do {
       let a = \<lparr>base = fst x, metadata_start = metadata_used p, order = as_u8 (snd x)\<rparr>;
       n \<leftarrow> metadata_len a;
       metadata_end \<leftarrow> usize_add (metadata_used p) n;
       if metadata_end \<le> length (metadata p) \<and> arena_count p < length (arenas p)
       then Some (p\<lparr>
         metadata := take (metadata_used p) (metadata p) @ replicate n UNAVAILABLE @ drop metadata_end (metadata p),
         metadata_used := metadata_end,
         arenas := (arenas p)[arena_count p := a],
         arena_count := arena_count p + 1\<rparr>)
       else None
     }"

definition add_managed_region ::
  "frame_pool \<Rightarrow> nat \<Rightarrow> nat \<Rightarrow> ((unit, add_region_error) result \<times> frame_pool) option" where
  "add_managed_region p s e =
     (if s \<ge> e then Some (Err InvalidRange, p)
      else do {
        clash \<leftarrow> overlaps_any (admitted p) s e;
        if clash then Some (Err Overlap, p)
        else case Option.bind (block_count s e) (usize_add (arena_count p)) of
          None \<Rightarrow> Some (Err ArenaLimit, p)
        | Some final_arena_count \<Rightarrow>
            if final_arena_count > length (arenas p) then Some (Err ArenaLimit, p)
            else case Option.bind (metadata_bytes (e - s)) (usize_add (metadata_used p)) of
              None \<Rightarrow> Some (Err MetadataExhausted, p)
            | Some final_metadata_used \<Rightarrow>
                if final_metadata_used > length (metadata p) then Some (Err MetadataExhausted, p)
                else map_option (\<lambda>p'. (Ok (), p')) (each_block add_arena (for_each_block s e) p)
      })"

definition release_range ::
  "frame_pool \<Rightarrow> nat \<Rightarrow> nat \<Rightarrow> ((unit, alloc_at_error) result \<times> frame_pool) option" where
  "release_range p s e =
     (if s \<ge> e then Some (Err Unavailable, p)
      else do {
        managed \<leftarrow> range_is_managed p s e;
        if \<not> managed then Some (Err Unavailable, p)
        else do {
          unavailable \<leftarrow> range_is_unavailable p s e;
          if \<not> unavailable then Some (Err Unavailable, p)
          else case usize_add (free_frames p) (e - s) of
            None \<Rightarrow> Some (Err Unavailable, p)
          | Some n \<Rightarrow> map_option (\<lambda>p'. (Ok (), p'\<lparr>free_frames := n\<rparr>)) (release_blocks p s e)
        }
      })"

definition add_region ::
  "frame_pool \<Rightarrow> nat \<Rightarrow> nat \<Rightarrow> ((unit, add_region_error) result \<times> frame_pool) option" where
  "add_region p s e =
     do {
       (r, p1) \<leftarrow> add_managed_region p s e;
       (case r of
          Err x \<Rightarrow> Some (Err x, p1)
        | Ok _ \<Rightarrow>
            do {
              (r2, p2) \<leftarrow> release_range p1 s e;
              (case r2 of Ok _ \<Rightarrow> Some (Ok (), p2) | Err _ \<Rightarrow> None)
            })
     }"

text \<open>The arena \<open>alloc_order\<close> takes: the first one with a free block of the order.\<close>

fun find_available :: "frame_pool \<Rightarrow> nat \<Rightarrow> arena_metadata list \<Rightarrow> arena_metadata option option" where
  "find_available p n [] = Some None"
| "find_available p n (a # as) =
     (if order a \<ge> n
      then do { s \<leftarrow> state p a 1; if state_available s n then Some (Some a) else find_available p n as }
      else find_available p n as)"

definition alloc_order :: "frame_pool \<Rightarrow> nat \<Rightarrow> (nat option \<times> frame_pool) option" where
  "alloc_order p n =
     (case order_size n of
        None \<Rightarrow> Some (None, p)
      | Some amount \<Rightarrow>
          do {
            found \<leftarrow> find_available p n (admitted p);
            (case found of
               None \<Rightarrow> Some (None, p)
             | Some a \<Rightarrow>
                 do {
                   left \<leftarrow> usize_sub (free_frames p) amount;
                   (b, p1) \<leftarrow> take_any p a n;
                   Some (Some b, p1\<lparr>free_frames := left\<rparr>)
                 })
          })"

text \<open>The choice \<open>alloc_largest\<close> makes in one pass: the first arena with the largest usable order.\<close>

fun find_largest ::
  "frame_pool \<Rightarrow> nat \<Rightarrow> arena_metadata list \<Rightarrow> (arena_metadata \<times> nat) option \<Rightarrow> (arena_metadata \<times> nat) option option" where
  "find_largest p requested [] choice = Some choice"
| "find_largest p requested (a # as) choice =
     do {
       s \<leftarrow> state p a 1;
       if s = UNAVAILABLE then find_largest p requested as choice
       else
         let n = min s requested in
         find_largest p requested as
           (case choice of
              None \<Rightarrow> Some (a, n)
            | Some (_, best) \<Rightarrow> if n > best then Some (a, n) else choice)
     }"

definition alloc_largest :: "frame_pool \<Rightarrow> nat \<Rightarrow> ((nat \<times> nat) option \<times> frame_pool) option" where
  "alloc_largest p max_count =
     (if max_count = 0 then Some (None, p)
      else do {
        choice \<leftarrow> find_largest p (floor_order max_count) (admitted p) None;
        (case choice of
           None \<Rightarrow> Some (None, p)
         | Some (a, n) \<Rightarrow>
             do {
               amount \<leftarrow> order_size n;
               left \<leftarrow> usize_sub (free_frames p) amount;
               (b, p1) \<leftarrow> take_any p a n;
               Some (Some (b, amount), p1\<lparr>free_frames := left\<rparr>)
             })
      })"

definition alloc_at ::
  "frame_pool \<Rightarrow> nat \<Rightarrow> nat \<Rightarrow> ((unit, alloc_at_error) result \<times> frame_pool) option" where
  "alloc_at p b amount =
     (if amount = 0 then Some (Err Unavailable, p)
      else case usize_add b amount of
        None \<Rightarrow> Some (Err Unavailable, p)
      | Some e \<Rightarrow>
          do {
            free \<leftarrow> range_is_free p b e;
            if \<not> free then Some (Err Unavailable, p)
            else case usize_sub (free_frames p) amount of
              None \<Rightarrow> Some (Err Unavailable, p)
            | Some left \<Rightarrow> map_option (\<lambda>p'. (Ok (), p'\<lparr>free_frames := left\<rparr>)) (take_range p b e)
          })"

definition dealloc :: "frame_pool \<Rightarrow> nat \<Rightarrow> nat \<Rightarrow> frame_pool option" where
  "dealloc p b amount =
     (if amount = 0 then None
      else do {
        e \<leftarrow> usize_add b amount;
        managed \<leftarrow> range_is_managed p b e;
        unavailable \<leftarrow> range_is_unavailable p b e;
        if managed \<and> unavailable
        then do {
          n \<leftarrow> usize_add (free_frames p) amount;
          p' \<leftarrow> release_blocks p b e;
          Some (p'\<lparr>free_frames := n\<rparr>)
        }
        else None
      })"

end
