(* ===== verification/Frame_Tree.thy ===== *)
theory Frame_Tree
  imports Frame_Pool
begin

text \<open>
  One order tree of the frame pool, as a function from node numbers to metadata bytes. \<open>tinv\<close> is its well-formedness, \<open>tfree\<close> the
  set of frames it records as free, and \<open>edit\<close> the recursive form of the loops that take or release one block.
\<close>

section \<open>Well-formedness and the free frames\<close>

fun tinv :: "(nat \<Rightarrow> nat) \<Rightarrow> nat \<Rightarrow> nat \<Rightarrow> bool" where
  "tinv f 0 v \<longleftrightarrow> f v = UNAVAILABLE \<or> f v = 0"
| "tinv f (Suc k) v \<longleftrightarrow> f v = UNAVAILABLE \<or> f v = Suc k \<or>
     (f v \<le> k \<and> f v = max_available (f (2 * v)) (f (2 * v + 1)) \<and>
      \<not> (f (2 * v) = k \<and> f (2 * v + 1) = k) \<and> tinv f k (2 * v) \<and> tinv f k (2 * v + 1))"

fun tfree :: "(nat \<Rightarrow> nat) \<Rightarrow> nat \<Rightarrow> nat \<Rightarrow> nat \<Rightarrow> nat set" where
  "tfree f 0 v b = (if f v = 0 then {b} else {})"
| "tfree f (Suc k) v b =
     (if f v = UNAVAILABLE then {}
      else if f v = Suc k then {b..<b + 2 ^ Suc k}
      else tfree f k (2 * v) b \<union> tfree f k (2 * v + 1) (b + 2 ^ k))"

text \<open>The nodes of the subtree of height \<open>k\<close> under a node.\<close>

fun sub :: "nat \<Rightarrow> nat \<Rightarrow> nat set" where
  "sub 0 v = {v}"
| "sub (Suc k) v = insert v (sub k (2 * v) \<union> sub k (2 * v + 1))"

lemma sub_self: "v \<in> sub k v"
  by (cases k) auto

lemma sub_div: "w \<in> sub k v \<Longrightarrow> \<exists>d \<le> k. w div 2 ^ d = v"
proof (induction k arbitrary: v)
  case 0
  then show ?case by simp
next
  case (Suc k)
  consider "w = v" | c where "w \<in> sub k c" "c div 2 = v"
    using Suc.prems by fastforce
  then show ?case
  proof cases
    case 1
    then show ?thesis by (intro exI [of _ 0]) simp
  next
    case 2
    obtain d where "d \<le> k" "w div 2 ^ d = c"
      using Suc.IH [OF 2(1)] by blast
    then have "Suc d \<le> Suc k" "w div 2 ^ Suc d = v"
      using 2(2) by (auto simp: div_mult2_eq [of w "2 ^ d" 2, symmetric] mult.commute)
    then show ?thesis by blast
  qed
qed

lemma div_pow_le: "(x::nat) div 2 ^ d \<le> x"
  by simp

lemma sub_apart:
  assumes "v > 0" "w \<in> sub k (2 * v)"
  shows "w \<notin> sub k (2 * v + 1)" "w \<noteq> v"
proof -
  obtain d where d: "w div 2 ^ d = 2 * v"
    using sub_div [OF assms(2)] by blast
  have shift: "w div 2 ^ (i + j) = w div 2 ^ i div 2 ^ j" for i j
    by (simp add: power_add div_mult2_eq)
  show "w \<notin> sub k (2 * v + 1)"
  proof
    assume "w \<in> sub k (2 * v + 1)"
    then obtain c where c: "w div 2 ^ c = 2 * v + 1"
      using sub_div by blast
    have "c \<noteq> d"
      using c d by auto
    moreover have False if "c < d"
    proof -
      have "w div 2 ^ d = (2 * v + 1) div 2 ^ (d - c)"
        using shift [of c "d - c"] c that by simp
      also have "\<dots> \<le> (2 * v + 1) div 2"
        using that by (metis Suc_leI div_le_mono2 power_increasing power_one_right zero_less_diff one_le_numeral zero_less_numeral One_nat_def)
      finally show False
        using d assms(1) by simp
    qed
    moreover have False if "d < c"
    proof -
      have "w div 2 ^ c = (2 * v) div 2 ^ (c - d)"
        using shift [of d "c - d"] d that by simp
      also have "\<dots> \<le> 2 * v"
        by simp
      finally show False
        using c by simp
    qed
    ultimately show False
      by linarith
  qed
  show "w \<noteq> v"
    using d assms(1) div_pow_le [of w d] by auto
qed

lemma sub_right_ne: "w \<in> sub k (2 * v + 1) \<Longrightarrow> w \<noteq> v"
proof
  assume "w \<in> sub k (2 * v + 1)" "w = v"
  then obtain d where "v div 2 ^ d = 2 * v + 1"
    using sub_div by blast
  then show False
    using div_pow_le [of v d] by simp
qed

lemma tinv_cong: "(\<And>w. w \<in> sub k v \<Longrightarrow> f w = g w) \<Longrightarrow> tinv f k v = tinv g k v"
proof (induction k arbitrary: v)
  case 0
  then show ?case by simp
next
  case (Suc k)
  have "tinv f k (2 * v) = tinv g k (2 * v)" "tinv f k (2 * v + 1) = tinv g k (2 * v + 1)"
    using Suc.prems by (auto intro!: Suc.IH)
  moreover have "f v = g v" "f (2 * v) = g (2 * v)" "f (2 * v + 1) = g (2 * v + 1)"
    using Suc.prems sub_self by (auto simp del: One_nat_def)
  ultimately show ?case
    by (simp del: One_nat_def)
qed

lemma tfree_cong: "(\<And>w. w \<in> sub k v \<Longrightarrow> f w = g w) \<Longrightarrow> tfree f k v b = tfree g k v b"
proof (induction k arbitrary: v b)
  case 0
  then show ?case by simp
next
  case (Suc k)
  have "tfree f k (2 * v) c = tfree g k (2 * v) c" "tfree f k (2 * v + 1) c = tfree g k (2 * v + 1) c" for c
    using Suc.prems by (auto intro!: Suc.IH)
  moreover have "f v = g v"
    using Suc.prems by simp
  ultimately show ?case
    by (simp del: One_nat_def)
qed

lemma tfree_unavailable [simp]: "f v = UNAVAILABLE \<Longrightarrow> tfree f k v b = {}"
  by (cases k) (simp_all add: UNAVAILABLE_def)

lemma tfree_whole: "f v = k \<Longrightarrow> k < UNAVAILABLE \<Longrightarrow> tfree f k v b = {b..<b + 2 ^ k}"
  by (cases k) (auto simp: UNAVAILABLE_def)

lemma tfree_bounds: "tfree f k v b \<subseteq> {b..<b + 2 ^ k}"
proof (induction k arbitrary: v b)
  case 0
  then show ?case by simp
next
  case (Suc k)
  show ?case
  proof
    fix x
    assume "x \<in> tfree f (Suc k) v b"
    then have "x \<in> {b..<b + 2 ^ Suc k} \<or> x \<in> tfree f k (2 * v) b \<or> x \<in> tfree f k (2 * v + 1) (b + 2 ^ k)"
      by (auto split: if_splits simp del: One_nat_def power_Suc)
    then show "x \<in> {b..<b + 2 ^ Suc k}"
      using Suc [of "2 * v" b] Suc [of "2 * v + 1" "b + 2 ^ k"] by (auto simp: subset_iff)
  qed
qed

lemma tinv_le: "tinv f k v \<Longrightarrow> f v = UNAVAILABLE \<or> f v \<le> k"
  by (cases k) auto

text \<open>A node that is not unavailable has a free aligned block of the order its byte records \<dots>\<close>

lemma tree_has_block:
  assumes "tinv f k v" "f v \<noteq> UNAVAILABLE"
  shows "\<exists>r. 2 ^ f v dvd r \<and> {b + r..<b + r + 2 ^ f v} \<subseteq> tfree f k v b"
  using assms
proof (induction k arbitrary: v b)
  case 0
  then show ?case by (intro exI [of _ 0]) auto
next
  case (Suc k)
  show ?case
  proof (cases "f v = Suc k")
    case True
    then show ?thesis
      using Suc.prems(2) by (intro exI [of _ 0]) auto
  next
    case False
    then have *: "f v \<le> k" "f v = max_available (f (2 * v)) (f (2 * v + 1))" "tinv f k (2 * v)" "tinv f k (2 * v + 1)"
      using Suc.prems by (simp_all del: One_nat_def)
    consider "f v = f (2 * v)" "f (2 * v) \<noteq> UNAVAILABLE" | "f v = f (2 * v + 1)" "f (2 * v + 1) \<noteq> UNAVAILABLE"
      using *(2) Suc.prems(2) unfolding max_available_def max_def by (auto split: if_splits)
    then show ?thesis
    proof cases
      case 1
      show ?thesis
        using Suc.IH [OF *(3) 1(2), of b] 1(1) False Suc.prems(2) by (auto simp del: One_nat_def)
    next
      case 2
      obtain r where r: "2 ^ f v dvd r" "{b + 2 ^ k + r..<b + 2 ^ k + r + 2 ^ f v} \<subseteq> tfree f k (2 * v + 1) (b + 2 ^ k)"
        using Suc.IH [OF *(4) 2(2), of "b + 2 ^ k"] 2(1) by auto
      have "2 ^ f v dvd 2 ^ k + r"
        using r(1) *(1) by (auto intro: dvd_add le_imp_power_dvd)
      then show ?thesis
        using r(2) False Suc.prems(2) by (intro exI [of _ "2 ^ k + r"]) (auto simp: add.assoc simp del: One_nat_def)
    qed
  qed
qed

text \<open>\<dots> and no larger one: every free aligned block is at most of that order.\<close>

lemma aligned_side:
  fixes r :: nat
  assumes "2 ^ t dvd r" "t \<le> k"
  shows "r + 2 ^ t \<le> 2 ^ k \<or> 2 ^ k \<le> r"
proof (cases "r < 2 ^ k")
  case True
  obtain q where q: "r = 2 ^ t * q"
    using assms(1) by blast
  have k: "2 ^ k = 2 ^ t * (2::nat) ^ (k - t)"
    using assms(2) by (simp flip: power_add)
  have "q + 1 \<le> 2 ^ (k - t)"
    using True unfolding q k by simp
  then have "2 ^ t * (q + 1) \<le> 2 ^ t * (2::nat) ^ (k - t)"
    by (rule mult_le_mono2)
  then show ?thesis
    unfolding q k by (simp add: algebra_simps)
qed simp

lemma halves:
  fixes b x :: nat
  assumes "{b..<b + 2 * x} \<subseteq> A \<union> B" "A \<subseteq> {b..<b + x}" "B \<subseteq> {b + x..<b + x + x}"
  shows "{b..<b + x} \<subseteq> A" "{b + x..<b + x + x} \<subseteq> B"
proof (safe)
  fix y
  assume y: "y \<in> {b..<b + x}"
  then have "y \<in> A \<union> B"
    by (intro subsetD [OF assms(1)]) simp
  then show "y \<in> A"
    using y subsetD [OF assms(3), of y] by auto
next
  fix y
  assume y: "y \<in> {b + x..<b + x + x}"
  then have "y \<in> A \<union> B"
    by (intro subsetD [OF assms(1)]) simp
  then show "y \<in> B"
    using y subsetD [OF assms(2), of y] by auto
qed

lemma tree_block_below:
  assumes "tinv f k v" "2 ^ t dvd r" "{b + r..<b + r + 2 ^ t} \<subseteq> tfree f k v b"
  shows "f v \<noteq> UNAVAILABLE \<and> t \<le> f v"
  using assms
proof (induction k arbitrary: v b r t)
  case 0
  have "0 < (2::nat) ^ t"
    by simp
  then have "b + r \<in> {b + r..<b + r + 2 ^ t}" "b + r + 2 ^ t - 1 \<in> {b + r..<b + r + 2 ^ t}"
    unfolding atLeastLessThan_iff by linarith+
  then have "b + r \<in> tfree f 0 v b" "b + r + 2 ^ t - 1 \<in> tfree f 0 v b"
    using 0(3) by blast+
  then have "f v = 0" "b + r + 2 ^ t - 1 = b + r"
    by (auto split: if_splits)
  moreover have "t < 2 ^ t"
    by simp
  ultimately have "t = 0"
    by linarith
  then show ?case
    using \<open>f v = 0\<close> by (simp add: UNAVAILABLE_def)
next
  case (Suc k)
  have ne: "f v \<noteq> UNAVAILABLE"
    using Suc.prems(3) by auto
  have fits: "r + 2 ^ t \<le> 2 ^ Suc k"
  proof -
    have pos: "(2::nat) ^ t > 0"
      by simp
    then have "b + r + 2 ^ t - 1 \<in> {b + r..<b + r + 2 ^ t}"
      unfolding atLeastLessThan_iff by linarith
    then have "b + r + 2 ^ t - 1 \<in> {b..<b + 2 ^ Suc k}"
      using Suc.prems(3) tfree_bounds [of f "Suc k" v b] by blast
    then show ?thesis
      using pos unfolding atLeastLessThan_iff by linarith
  qed
  then have t: "t \<le> Suc k"
    using power_increasing_iff [of "2::nat" t "Suc k"] by linarith
  show ?case
  proof (cases "f v = Suc k")
    case True
    then show ?thesis
      using ne t by simp
  next
    case False
    then have *: "f v = max_available (f (2 * v)) (f (2 * v + 1))" "tinv f k (2 * v)" "tinv f k (2 * v + 1)"
        "\<not> (f (2 * v) = k \<and> f (2 * v + 1) = k)"
      using Suc.prems(1) ne by (simp_all del: One_nat_def)
    have cover: "{b + r..<b + r + 2 ^ t} \<subseteq> tfree f k (2 * v) b \<union> tfree f k (2 * v + 1) (b + 2 ^ k)"
      using Suc.prems(3) False ne by (simp del: One_nat_def)
    note bl = tfree_bounds [of f k "2 * v" b] and br = tfree_bounds [of f k "2 * v + 1" "b + 2 ^ k"]
    consider (all) "t = Suc k" | (left) "t \<le> k" "r + 2 ^ t \<le> 2 ^ k" | (right) "t \<le> k" "2 ^ k \<le> r"
      using aligned_side [OF Suc.prems(2), of k] t le_Suc_eq by blast
    then show ?thesis
    proof cases
      case all
      then have "r = 0"
        using fits by simp
      then have "{b..<b + 2 ^ k} \<subseteq> tfree f k (2 * v) b" "{b + 2 ^ k..<b + 2 ^ k + 2 ^ k} \<subseteq> tfree f k (2 * v + 1) (b + 2 ^ k)"
        using halves [of b "2 ^ k", OF _ bl br] cover all by (auto simp del: One_nat_def)
      then have "k \<le> f (2 * v)" "f (2 * v) \<noteq> UNAVAILABLE" "k \<le> f (2 * v + 1)" "f (2 * v + 1) \<noteq> UNAVAILABLE"
        using Suc.IH [OF *(2), of k 0 b] Suc.IH [OF *(3), of k 0 "b + 2 ^ k"] by (simp_all del: One_nat_def)
      then have "f (2 * v) = k \<and> f (2 * v + 1) = k"
        using tinv_le *(2,3) le_antisym by blast
      then show ?thesis
        using *(4) by blast
    next
      case left
      then have "{b + r..<b + r + 2 ^ t} \<subseteq> tfree f k (2 * v) b"
        using cover br by (auto simp: subset_iff)
      then have "f (2 * v) \<noteq> UNAVAILABLE \<and> t \<le> f (2 * v)"
        using Suc.IH *(2) Suc.prems(2) by blast
      then show ?thesis
        using ne *(1) unfolding max_available_def by auto
    next
      case right
      then have eq: "b + r = (b + 2 ^ k) + (r - 2 ^ k)"
        by simp
      have "{b + 2 ^ k + (r - 2 ^ k)..<b + 2 ^ k + (r - 2 ^ k) + 2 ^ t} \<subseteq> tfree f k (2 * v + 1) (b + 2 ^ k)"
        using cover bl right unfolding eq by (auto simp: subset_iff)
      moreover have "2 ^ t dvd r - 2 ^ k"
        using Suc.prems(2) right(1) by (simp add: dvd_diff_nat le_imp_power_dvd)
      ultimately have "f (2 * v + 1) \<noteq> UNAVAILABLE \<and> t \<le> f (2 * v + 1)"
        using Suc.IH *(3) by blast
      then show ?thesis
        using ne *(1) unfolding max_available_def by auto
    qed
  qed
qed

section \<open>Editing one block\<close>

text \<open>The frames of the block of order \<open>t\<close> at offset \<open>off\<close> from \<open>b\<close>.\<close>

abbreviation block :: "nat \<Rightarrow> nat \<Rightarrow> nat set" where
  "block b t \<equiv> {b..<b + 2 ^ t}"

text \<open>Before descending: a whole node is split and an unavailable one is written down to its children.\<close>

definition expose :: "(nat \<Rightarrow> nat) \<Rightarrow> nat \<Rightarrow> nat \<Rightarrow> nat \<Rightarrow> nat" where
  "expose f v k =
     (if f v = k then f(2 * v := k - 1, 2 * v + 1 := k - 1)
      else if f v = UNAVAILABLE then f(2 * v := UNAVAILABLE, 2 * v + 1 := UNAVAILABLE)
      else f)"

text \<open>After returning: the byte of a node from those of its children.\<close>

definition joined :: "(nat \<Rightarrow> nat) \<Rightarrow> nat \<Rightarrow> nat \<Rightarrow> nat" where
  "joined f v k =
     (if f (2 * v) = k - 1 \<and> f (2 * v + 1) = k - 1 then k else max_available (f (2 * v)) (f (2 * v + 1)))"

fun edit :: "(nat \<Rightarrow> nat) \<Rightarrow> nat \<Rightarrow> nat \<Rightarrow> nat \<Rightarrow> nat \<Rightarrow> nat \<Rightarrow> nat \<Rightarrow> nat" where
  "edit f off t s v 0 = f(v := s)"
| "edit f off t s v (Suc k) =
     (if Suc k > t
      then let g = edit (expose f v (Suc k)) off t s (2 * v + of_bool (bit off k)) k in g(v := joined g v (Suc k))
      else f(v := s))"

lemma expose_same: "w \<noteq> 2 * v \<Longrightarrow> w \<noteq> 2 * v + 1 \<Longrightarrow> expose f v k w = f w"
  unfolding expose_def by simp

lemma edit_outside: "w \<notin> sub k v \<Longrightarrow> edit f off t s v k w = f w"
proof (induction k arbitrary: f v)
  case 0
  then show ?case by simp
next
  case (Suc k)
  define c where "c = 2 * v + of_bool (bit off k)"
  have "w \<notin> sub k c" "w \<noteq> v" "w \<noteq> 2 * v" "w \<noteq> 2 * v + 1"
    using Suc.prems sub_self unfolding c_def by (auto simp del: One_nat_def)
  then show ?case
    using Suc.IH [of c "expose f v (Suc k)"] expose_same [of w v f "Suc k"] unfolding c_def [symmetric] edit.simps Let_def
    by simp
qed

lemma tinv_leaf: "f v = UNAVAILABLE \<or> f v = k \<Longrightarrow> tinv f k v"
  by (cases k) auto

lemma expose_children:
  assumes "v > 0" "tinv f (Suc k) v" "Suc k < UNAVAILABLE"
  shows "tinv (expose f v (Suc k)) k (2 * v)" "tinv (expose f v (Suc k)) k (2 * v + 1)"
    "tfree (expose f v (Suc k)) k (2 * v) b \<union> tfree (expose f v (Suc k)) k (2 * v + 1) (b + 2 ^ k) = tfree f (Suc k) v b"
proof -
  let ?g = "expose f v (Suc k)"
  consider (whole) "f v = Suc k" | (busy) "f v = UNAVAILABLE" | (split) "f v \<noteq> Suc k" "f v \<noteq> UNAVAILABLE"
    by blast
  then have "tinv ?g k (2 * v) \<and> tinv ?g k (2 * v + 1) \<and>
    tfree ?g k (2 * v) b \<union> tfree ?g k (2 * v + 1) (b + 2 ^ k) = tfree f (Suc k) v b"
  proof cases
    case whole
    then have g: "?g (2 * v) = k" "?g (2 * v + 1) = k"
      unfolding expose_def by auto
    have "tfree ?g k (2 * v) b = {b..<b + 2 ^ k}" "tfree ?g k (2 * v + 1) (b + 2 ^ k) = {b + 2 ^ k..<b + 2 ^ k + 2 ^ k}"
      using g assms(3) by (simp_all add: tfree_whole del: One_nat_def)
    moreover have "tfree f (Suc k) v b = {b..<b + 2 ^ Suc k}"
      using whole assms(3) tfree_whole by blast
    ultimately show ?thesis
      using g by (auto intro!: tinv_leaf)
  next
    case busy
    then have "?g (2 * v) = UNAVAILABLE" "?g (2 * v + 1) = UNAVAILABLE"
      using assms(3) unfolding expose_def by auto
    then show ?thesis
      using busy by (auto intro!: tinv_leaf)
  next
    case split
    then have "?g = f"
      unfolding expose_def by simp
    then show ?thesis
      using assms(2) split by (simp del: One_nat_def)
  qed
  then show "tinv ?g k (2 * v)" "tinv ?g k (2 * v + 1)"
    "tfree ?g k (2 * v) b \<union> tfree ?g k (2 * v + 1) (b + 2 ^ k) = tfree f (Suc k) v b"
    by blast+
qed

text \<open>Recomputing a node over well-formed children gives a well-formed node with the children's frames.\<close>

lemma join_node:
  assumes "v > 0" "tinv g k (2 * v)" "tinv g k (2 * v + 1)" "Suc k < UNAVAILABLE"
  defines "h \<equiv> g(v := joined g v (Suc k))"
  shows "tinv h (Suc k) v"
    "tfree h (Suc k) v b = tfree g k (2 * v) b \<union> tfree g k (2 * v + 1) (b + 2 ^ k)"
proof -
  have ne: "2 * v \<noteq> v" "2 * v + 1 \<noteq> v"
    using assms(1) by auto
  have same: "tinv h k (2 * v)" "tinv h k (2 * v + 1)" "tfree h k (2 * v) b = tfree g k (2 * v) b"
    "tfree h k (2 * v + 1) (b + 2 ^ k) = tfree g k (2 * v + 1) (b + 2 ^ k)"
    using assms(2,3) tinv_cong [of k "2 * v" h g] tinv_cong [of k "2 * v + 1" h g]
      tfree_cong [of k "2 * v" h g] tfree_cong [of k "2 * v + 1" h g]
      sub_apart(2) [OF assms(1)] sub_right_ne [of _ k v]
    unfolding h_def by (auto simp del: One_nat_def)
  have h: "h v = joined g v (Suc k)" "h (2 * v) = g (2 * v)" "h (2 * v + 1) = g (2 * v + 1)"
    using ne unfolding h_def by simp_all
  note le = tinv_le [OF assms(2)] tinv_le [OF assms(3)]
  consider (whole) "g (2 * v) = k" "g (2 * v + 1) = k"
    | (busy) "g (2 * v) = UNAVAILABLE" "g (2 * v + 1) = UNAVAILABLE"
    | (mixed) "\<not> (g (2 * v) = k \<and> g (2 * v + 1) = k)" "g (2 * v) \<noteq> UNAVAILABLE \<or> g (2 * v + 1) \<noteq> UNAVAILABLE"
    by blast
  then have "tinv h (Suc k) v \<and> tfree h (Suc k) v b = tfree g k (2 * v) b \<union> tfree g k (2 * v + 1) (b + 2 ^ k)"
  proof cases
    case whole
    then have "h v = Suc k"
      using h(1) unfolding joined_def by simp
    moreover have "tfree g k (2 * v) b \<union> tfree g k (2 * v + 1) (b + 2 ^ k) = {b..<b + 2 ^ Suc k}"
      using whole assms(4) by (auto simp: tfree_whole simp del: One_nat_def)
    ultimately show ?thesis
      using assms(4) by (simp add: tfree_whole)
  next
    case busy
    then have "h v = UNAVAILABLE"
      using h(1) assms(4) unfolding joined_def max_available_def by simp
    then show ?thesis
      using busy by simp
  next
    case mixed
    then have v: "h v = max_available (g (2 * v)) (g (2 * v + 1))"
      using h(1) unfolding joined_def by auto
    then have "h v \<le> k"
      using le mixed(2) unfolding max_available_def by auto
    then show ?thesis
      using v mixed(1) same h assms(4) by (simp del: One_nat_def)
  qed
  then show "tinv h (Suc k) v" "tfree h (Suc k) v b = tfree g k (2 * v) b \<union> tfree g k (2 * v + 1) (b + 2 ^ k)"
    by blast+
qed

lemma mod_step: "off mod 2 ^ Suc k = (if bit off k then 2 ^ k else 0) + off mod 2 ^ k" for off :: nat
  using mod_mult2_eq [of off "2 ^ k" 2] by (simp add: bit_iff_odd odd_iff_mod_2_eq_one mult.commute even_iff_mod_2_eq_zero)

lemma block_in_node:
  fixes off :: nat
  assumes "2 ^ t dvd off" "t \<le> k"
  shows "off mod 2 ^ k + 2 ^ t \<le> 2 ^ k"
proof -
  have "2 ^ t dvd off mod 2 ^ k"
    using assms by (simp add: dvd_mod_iff le_imp_power_dvd)
  then show ?thesis
    using aligned_side [OF _ assms(2)] mod_less_divisor [of "2 ^ k" off] by (metis not_le zero_less_numeral zero_less_power)
qed

text \<open>Editing the frames of one child edits the frames of the pair.\<close>

lemma edit_children:
  fixes off :: nat
  assumes "2 ^ t dvd off" "t \<le> k" "c = b + (if d then 2 ^ k else 0)" "c + off mod 2 ^ k = x"
    and self: "tfree g k (2 * v + of_bool d) c = tfree f k (2 * v + of_bool d) c - block x t \<union> (if p then block x t else {})"
    and other: "\<And>y. tfree g k (2 * v + of_bool (\<not> d)) y = tfree f k (2 * v + of_bool (\<not> d)) y"
  shows "tfree g k (2 * v) b \<union> tfree g k (2 * v + 1) (b + 2 ^ k) =
    tfree f k (2 * v) b \<union> tfree f k (2 * v + 1) (b + 2 ^ k) - block x t \<union> (if p then block x t else {})"
proof -
  have "block x t \<subseteq> {c..<c + 2 ^ k}"
    using block_in_node [OF assms(1,2)] assms(4) by auto
  moreover have "tfree f k (2 * v + of_bool (\<not> d)) (b + (if d then 0 else 2 ^ k)) \<inter> {c..<c + 2 ^ k} = {}"
    using tfree_bounds [of f k "2 * v + of_bool (\<not> d)" "b + (if d then 0 else 2 ^ k)"] assms(3)
    by (cases d) (auto simp: subset_iff disjoint_iff)
  ultimately have away: "tfree f k (2 * v + of_bool (\<not> d)) (b + (if d then 0 else 2 ^ k)) - block x t =
      tfree f k (2 * v + of_bool (\<not> d)) (b + (if d then 0 else 2 ^ k))"
    by blast
  show ?thesis
  proof (cases d)
    case True
    then show ?thesis
      using self other [of b] assms(3) away by (simp add: Un_Diff Un_assoc)
  next
    case False
    then show ?thesis
      using self other [of "b + 2 ^ k"] assms(3) away by (simp add: Un_Diff Un_ac)
  qed
qed

text \<open>The effect of an edit: the tree stays well formed and exactly the frames of the block change.\<close>

lemma edit_tree:
  assumes "v > 0" "tinv f k v" "k < UNAVAILABLE" "t \<le> k" "2 ^ t dvd off" "s = t \<or> s = UNAVAILABLE"
  shows "tinv (edit f off t s v k) k v \<and>
    tfree (edit f off t s v k) k v b =
      tfree f k v b - block (b + off mod 2 ^ k) t \<union> (if s = t then block (b + off mod 2 ^ k) t else {})"
  using assms
proof (induction k arbitrary: f v b)
  case 0
  then show ?case
    by (auto simp: UNAVAILABLE_def)
next
  case (Suc k)
  show ?case
  proof (cases "Suc k = t")
    case True
    then have e: "edit f off t s v (Suc k) = f(v := s)" and m: "off mod 2 ^ Suc k = 0"
      using Suc.prems(5) by auto
    show ?thesis
      unfolding e m using Suc.prems(3,6) True tfree_bounds [of f "Suc k" v b]
      by (auto simp: tfree_whole tinv_leaf simp del: tfree.simps tinv.simps)
  next
    case False
    then have t: "t \<le> k"
      using Suc.prems(4) by simp
    define f1 where "f1 = expose f v (Suc k)"
    define d where "d = bit off k"
    define g where "g = edit f1 off t s (2 * v + of_bool d) k"
    have e: "edit f off t s v (Suc k) = g(v := joined g v (Suc k))"
      using t unfolding g_def f1_def d_def by (simp add: Let_def)
    note ex = expose_children [OF Suc.prems(1-3), folded f1_def]
    define c where "c = b + (if d then 2 ^ k else 0)"
    have c: "c + off mod 2 ^ k = b + off mod 2 ^ Suc k"
      unfolding c_def d_def mod_step by simp
    have IH: "tinv g k (2 * v + of_bool d)"
      "tfree g k (2 * v + of_bool d) c = tfree f1 k (2 * v + of_bool d) c - block (b + off mod 2 ^ Suc k) t \<union>
         (if s = t then block (b + off mod 2 ^ Suc k) t else {})"
      using Suc.IH [of "2 * v + of_bool d" f1 c] Suc.prems ex(1,2) t unfolding g_def c by (cases d; simp)+
    have apart: "w \<notin> sub k (2 * v + of_bool d)" if "w \<in> sub k (2 * v + of_bool (\<not> d))" for w
      using sub_apart(1) [OF Suc.prems(1), of w k] that by (cases d) auto
    have other: "tinv g k (2 * v + of_bool (\<not> d))" "tfree g k (2 * v + of_bool (\<not> d)) x = tfree f1 k (2 * v + of_bool (\<not> d)) x" for x
      using tinv_cong [of k "2 * v + of_bool (\<not> d)" g f1] tfree_cong [of k "2 * v + of_bool (\<not> d)" g f1 x]
        edit_outside [OF apart] ex(1,2) unfolding g_def by (cases d; simp)+
    have inv: "tinv g k (2 * v)" "tinv g k (2 * v + 1)"
      using IH(1) other(1) by (cases d; simp)+
    note join = join_node [OF Suc.prems(1) inv Suc.prems(3), folded e]
    show ?thesis
    proof (intro conjI)
      show "tinv (edit f off t s v (Suc k)) (Suc k) v"
        by (rule join(1))
      show "tfree (edit f off t s v (Suc k)) (Suc k) v b =
        tfree f (Suc k) v b - block (b + off mod 2 ^ Suc k) t \<union> (if s = t then block (b + off mod 2 ^ Suc k) t else {})"
        unfolding join(2) ex(3) [of b, symmetric] by (rule edit_children [OF Suc.prems(5) t c_def c IH(2) other(2)])
    qed
  qed
qed

end
