(* ===== verification/Frame_Pool_Blocks.thy ===== *)
theory Frame_Pool_Blocks
  imports Frame_Tree
begin

text \<open>
  The loops of the frame pool on one arena: they stay within the arena's window of the metadata, and they are the edits of \<open>Frame_Tree\<close>.
\<close>

section \<open>The window of an arena\<close>

definition tree :: "frame_pool \<Rightarrow> arena_metadata \<Rightarrow> nat \<Rightarrow> nat" where
  "tree p a v = metadata p ! (metadata_start a + v)"

definition windowed :: "frame_pool \<Rightarrow> arena_metadata \<Rightarrow> bool" where
  "windowed p a \<longleftrightarrow> order a < 64 \<and> metadata_start a + 2 ^ Suc (order a) \<le> length (metadata p)"

text \<open>The pool with the tree of one arena replaced.\<close>

definition put :: "frame_pool \<Rightarrow> arena_metadata \<Rightarrow> (nat \<Rightarrow> nat) \<Rightarrow> frame_pool" where
  "put p a f = p\<lparr>metadata := map (\<lambda>i.
     if metadata_start a \<le> i \<and> i < metadata_start a + 2 ^ Suc (order a) then f (i - metadata_start a)
     else metadata p ! i) [0..<length (metadata p)]\<rparr>"

lemma pool_put_sel [simp]:
  "metadata_used (put p a f) = metadata_used p" "arenas (put p a f) = arenas p"
  "arena_count (put p a f) = arena_count p" "free_frames (put p a f) = free_frames p"
  "length (metadata (put p a f)) = length (metadata p)" "windowed (put p a f) = windowed p"
  "admitted (put p a f) = admitted p"
  by (simp_all add: put_def windowed_def fun_eq_iff admitted_def)

lemma put_tree: "put p a (tree p a) = p"
proof -
  have "map (\<lambda>i. if metadata_start a \<le> i \<and> i < metadata_start a + 2 ^ Suc (order a) then tree p a (i - metadata_start a)
     else metadata p ! i) [0..<length (metadata p)] = metadata p"
    by (intro nth_equalityI) (auto simp: tree_def)
  then show ?thesis
    unfolding put_def by simp
qed

lemma state_put: "windowed p a \<Longrightarrow> v < 2 ^ Suc (order a) \<Longrightarrow> state (put p a f) a v = Some (f v)"
  unfolding state_def put_def at_def windowed_def by simp

lemma put_byte:
  assumes "windowed p a" "v < 2 ^ Suc (order a)"
  shows "set_state (put p a f) a v s = Some (put p a (f(v := s)))"
proof -
  have "metadata_start a + v < length (metadata (put p a f))"
    using assms unfolding windowed_def by simp
  moreover have "(metadata (put p a f))[metadata_start a + v := s] = metadata (put p a (f(v := s)))"
    using assms unfolding put_def windowed_def by (intro nth_equalityI) (auto simp: nth_list_update)
  ultimately show ?thesis
    unfolding set_state_def by (simp add: put_def)
qed

lemma tree_put: "windowed p a \<Longrightarrow> v < 2 ^ Suc (order a) \<Longrightarrow> tree (put p a f) a v = f v"
  unfolding tree_def put_def windowed_def by simp

text \<open>The nodes at which blocks of order \<open>k\<close> sit.\<close>

definition level :: "arena_metadata \<Rightarrow> nat \<Rightarrow> nat \<Rightarrow> bool" where
  "level a k v \<longleftrightarrow> k \<le> order a \<and> 2 ^ (order a - k) \<le> v \<and> v < 2 ^ Suc (order a - k)"

lemma level_root: "level a (order a) 1"
  unfolding level_def by simp

lemma level_pos: "level a k v \<Longrightarrow> 0 < v"
  unfolding level_def by (metis le_zero_eq not_gr_zero power_not_zero zero_neq_numeral)

lemma level_window: "level a k v \<Longrightarrow> v < 2 ^ Suc (order a)"
proof -
  assume "level a k v"
  moreover have "(2::nat) ^ Suc (order a - k) \<le> 2 ^ Suc (order a)"
    by (rule power_increasing) simp_all
  ultimately show ?thesis
    unfolding level_def by linarith
qed

lemma level_child:
  assumes "level a (Suc k) v"
  shows "level a k (2 * v + of_bool d)"
proof -
  have "order a - k = Suc (order a - Suc k)"
    using assms unfolding level_def by linarith
  then show ?thesis
    using assms unfolding level_def by (cases d) auto
qed

lemma floor_order_le: "0 < n \<Longrightarrow> 2 ^ floor_order n \<le> n \<and> n < 2 ^ Suc (floor_order n)"
proof (induction n rule: floor_order.induct)
  case (1 n)
  show ?case
  proof (cases "n \<le> 1")
    case True
    then show ?thesis
      using 1(2) by (simp add: floor_order.simps [of n])
  next
    case False
    then have "2 ^ floor_order (n div 2) \<le> n div 2 \<and> n div 2 < 2 ^ Suc (floor_order (n div 2))"
      using 1(1) by simp
    then have "2 * 2 ^ floor_order (n div 2) \<le> n \<and> n < 2 * 2 ^ Suc (floor_order (n div 2))"
      by linarith
    then show ?thesis
      using False by (simp add: floor_order.simps [of n])
  qed
qed

lemma floor_order_unique:
  assumes "2 ^ j \<le> n" "n < 2 ^ Suc j"
  shows "floor_order n = j"
proof -
  have "0 < n"
    using assms(1) by (metis le_zero_eq not_gr_zero power_not_zero zero_neq_numeral)
  then have "2 ^ floor_order n < (2::nat) ^ Suc j" "2 ^ j < (2::nat) ^ Suc (floor_order n)"
    using floor_order_le [of n] assms by linarith+
  then show ?thesis
    by (metis less_Suc_eq_le le_antisym power_strict_increasing_iff one_less_numeral_iff semiring_norm(76))
qed

lemma order_at_level: "level a k v \<Longrightarrow> order_at a v = Some k"
  using floor_order_unique [of "order a - k" v] unfolding level_def order_at_def usize_sub_def by auto

lemma joined_put:
  assumes "windowed p a" "level a (Suc k) v"
  shows "update_node (put p a f) a v = Some (put p a (f(v := joined f v (Suc k))))"
proof -
  have "Suc k < 256"
    using assms unfolding level_def windowed_def by simp
  then show ?thesis
    using state_put [OF assms(1) level_window [OF level_child [OF assms(2), of False]]]
      state_put [OF assms(1) level_window [OF level_child [OF assms(2), of True]]]
    unfolding update_node_def order_at_level [OF assms(2)] usize_sub_def joined_def as_u8_def
    by (simp add: put_byte [OF assms(1) level_window [OF assms(2)]] mult.commute)
qed

lemma ancestors_child:
  assumes "windowed p a" "level a (Suc k) v"
  shows "update_ancestors (put p a f) a (2 * v + of_bool d) = update_ancestors (put p a (f(v := joined f v (Suc k)))) a v"
  using joined_put [OF assms] level_pos [OF assms(2)]
  by (subst update_ancestors.simps) (cases d; simp)

section \<open>The loops are edits\<close>

text \<open>Taking a free block: \<open>take_at_block\<close> from any node on its path.\<close>

lemma expose_split:
  assumes "windowed p a" "level a (Suc k) v" "f v \<noteq> UNAVAILABLE"
  shows "split_if_whole (put p a f) a v (Suc k) = Some (put p a (expose f v (Suc k)))"
proof -
  have w: "v < 2 ^ Suc (order a)" "2 * v < 2 ^ Suc (order a)" "2 * v + 1 < 2 ^ Suc (order a)"
    using level_window [OF assms(2)] level_window [OF level_child [OF assms(2), of False]]
      level_window [OF level_child [OF assms(2), of True]] by simp_all
  have k: "as_u8 (Suc k - 1) = k"
    using assms(1,2) unfolding level_def windowed_def as_u8_def by simp
  show ?thesis
    unfolding split_if_whole_def split_whole_def state_put [OF assms(1) w(1)] expose_def k
    using assms(3) w by (simp add: put_byte [OF assms(1)] mult.commute)
qed

lemma expose_busy:
  assumes "windowed p a" "level a (Suc k) v" "f v \<noteq> Suc k"
  shows "materialise (put p a f) a v (Suc k) = Some (put p a (expose f v (Suc k)))"
proof -
  have w: "v < 2 ^ Suc (order a)" "2 * v < 2 ^ Suc (order a)" "2 * v + 1 < 2 ^ Suc (order a)"
    using level_window [OF assms(2)] level_window [OF level_child [OF assms(2), of False]]
      level_window [OF level_child [OF assms(2), of True]] by simp_all
  show ?thesis
    unfolding materialise_def state_put [OF assms(1) w(1)] expose_def
    using assms(3) w by (simp add: put_byte [OF assms(1)] mult.commute)
qed

text \<open>The path to a block, from a node that holds it.\<close>

definition finish :: "arena_metadata \<Rightarrow> nat \<Rightarrow> (frame_pool \<times> nat) option \<Rightarrow> frame_pool option" where
  "finish a s r = do { (p1, node) \<leftarrow> r; p2 \<leftarrow> set_state p1 a node s; update_ancestors p2 a node }"

lemma descend_edit:
  assumes "windowed p a" "level a k v" "tinv f k v" "t \<le> k" "2 ^ t dvd off" "c = base a + off" "c < usize_bound"
    and ok: "\<And>f v k. level a (Suc k) v \<Longrightarrow> tinv f (Suc k) v \<Longrightarrow> P f (Suc k) v \<Longrightarrow>
        prep (put p a f) a v (Suc k) = Some (put p a (expose f v (Suc k)))"
    and child: "\<And>f v k. level a (Suc k) v \<Longrightarrow> tinv f (Suc k) v \<Longrightarrow> t \<le> k \<Longrightarrow> P f (Suc k) v \<Longrightarrow>
        P (expose f v (Suc k)) k (2 * v + of_bool (bit off k))"
    and "P f k v"
  shows "finish a s (descend prep (put p a f) a c t v k) = update_ancestors (put p a (edit f off t s v k)) a v"
  using assms(2,3,4) \<open>P f k v\<close>
proof (induction k arbitrary: f v)
  case 0
  then show ?case
    unfolding edit.simps descend.simps using put_byte [OF assms(1) level_window [OF 0(1)]]
    by (simp add: finish_def fun_upd_def)
next
  case (Suc k)
  show ?case
  proof (cases "t = Suc k")
    case True
    then show ?thesis
      unfolding edit.simps descend.simps using put_byte [OF assms(1) level_window [OF Suc.prems(1)]]
      by (simp add: finish_def fun_upd_def)
  next
    case False
    then have t: "t \<le> k"
      using Suc.prems(3) by simp
    define g where "g = expose f v (Suc k)"
    define d where "d = bit off k"
    have "Suc k < UNAVAILABLE"
      using Suc.prems(1) assms(1) unfolding level_def windowed_def UNAVAILABLE_def by simp
    then have "tinv g k (2 * v + of_bool d)"
      using expose_children [OF level_pos [OF Suc.prems(1)] Suc.prems(2)] unfolding g_def by (cases d) simp_all
    then have IH: "finish a s (descend prep (put p a g) a c t (2 * v + of_bool d) k) =
        update_ancestors (put p a (edit g off t s (2 * v + of_bool d) k)) a (2 * v + of_bool d)"
      using Suc.IH level_child [OF Suc.prems(1)] t child [OF Suc.prems(1,2) t Suc.prems(4)] unfolding g_def d_def by blast
    have "descend prep (put p a f) a c t v (Suc k) = descend prep (put p a g) a c t (2 * v + of_bool d) k"
      using ok [OF Suc.prems(1,2,4)] t unfolding g_def d_def assms(6) by (simp add: mult.commute usize_sub_def)
    moreover have "edit f off t s v (Suc k) =
        (edit g off t s (2 * v + of_bool d) k)(v := joined (edit g off t s (2 * v + of_bool d) k) v (Suc k))"
      using t unfolding g_def d_def by (simp add: Let_def)
    ultimately show ?thesis
      using IH ancestors_child [OF assms(1) Suc.prems(1), of _ d] by presburger
  qed
qed

text \<open>The frames of the block at \<open>c\<close>, seen from a node at \<open>b\<close>, stay where they are while the loops descend.\<close>

lemma block_child:
  fixes off :: nat
  assumes "2 ^ t dvd off" "t \<le> k" "b' = b + (if bit off k then 2 ^ k else 0)"
  shows "b' + off mod 2 ^ k = b + off mod 2 ^ Suc k" "block (b' + off mod 2 ^ k) t \<subseteq> block b' k"
  using block_in_node [OF assms(1,2)] unfolding mod_step assms(3) by auto

lemma free_child:
  assumes "v > 0" "tinv f (Suc k) v" "Suc k < UNAVAILABLE" "2 ^ t dvd off" "t \<le> k"
    "b' = b + (if bit off k then 2 ^ k else 0)"
  shows "block (b + off mod 2 ^ Suc k) t \<inter> tfree (expose f v (Suc k)) k (2 * v + of_bool (bit off k)) b' =
    block (b + off mod 2 ^ Suc k) t \<inter> tfree f (Suc k) v b"
proof -
  let ?g = "expose f v (Suc k)"
  define d where "d = bit off k"
  have in': "block (b + off mod 2 ^ Suc k) t \<subseteq> block b' k"
    using block_child [OF assms(4-6)] by simp
  have away: "block b' k \<inter> tfree ?g k (2 * v + of_bool (\<not> d)) (b + (if d then 0 else 2 ^ k)) = {}"
    using tfree_bounds [of ?g k "2 * v + of_bool (\<not> d)" "b + (if d then 0 else 2 ^ k)"] assms(6) unfolding d_def
    by (cases d) (auto simp: subset_iff disjoint_iff)
  have "tfree f (Suc k) v b = tfree ?g k (2 * v + of_bool d) b' \<union> tfree ?g k (2 * v + of_bool (\<not> d)) (b + (if d then 0 else 2 ^ k))"
    using expose_children(3) [OF assms(1-3), of b] assms(6) unfolding d_def by (cases d) (auto simp: Un_commute)
  then show ?thesis
    using in' away unfolding d_def [symmetric] by blast
qed

lemma take_at_block_edit:
  assumes "windowed p a" "tinv (tree p a) (order a) 1" "t \<le> order a" "2 ^ t dvd off" "off < 2 ^ order a"
    "c = base a + off" "c < usize_bound" "block c t \<subseteq> tfree (tree p a) (order a) 1 (base a)"
  shows "take_at_block p a c t = Some (put p a (edit (tree p a) off t UNAVAILABLE 1 (order a)))"
proof -
  define P where "P = (\<lambda>f k v. \<exists>b. block (b + off mod 2 ^ k) t \<subseteq> tfree f k v b)"
  have ne: "f v \<noteq> UNAVAILABLE" if "P f k v" for f k v
    using that unfolding P_def by auto
  have small: "Suc k < UNAVAILABLE" if "level a (Suc k) v" for k v
    using that assms(1) unfolding level_def windowed_def UNAVAILABLE_def by simp
  have child: "P (expose f v (Suc k)) k (2 * v + of_bool (bit off k))"
    if v: "level a (Suc k) v" "tinv f (Suc k) v" "t \<le> k" "P f (Suc k) v" for f v k
  proof -
    obtain b where b: "block (b + off mod 2 ^ Suc k) t \<subseteq> tfree f (Suc k) v b"
      using v(4) unfolding P_def by blast
    define b' where "b' = b + (if bit off k then 2 ^ k else 0)"
    have "block (b' + off mod 2 ^ k) t \<subseteq> tfree (expose f v (Suc k)) k (2 * v + of_bool (bit off k)) b'"
      using b free_child [OF level_pos [OF v(1)] v(2) small [OF v(1)] assms(4) v(3) b'_def]
        block_child [OF assms(4) v(3) b'_def] by auto
    then show ?thesis
      unfolding P_def by blast
  qed
  have "P (tree p a) (order a) 1"
    unfolding P_def using assms(5,6,8) by (intro exI [of _ "base a"]) simp
  then have "finish a UNAVAILABLE (descend split_if_whole (put p a (tree p a)) a c t 1 (order a)) =
      update_ancestors (put p a (edit (tree p a) off t UNAVAILABLE 1 (order a))) a 1"
    using descend_edit [OF assms(1) level_root assms(2-4,6,7), where prep = split_if_whole and P = P]
      expose_split [OF assms(1)] ne child by blast
  then show ?thesis
    unfolding put_tree finish_def take_at_block_def by (simp add: update_ancestors.simps)
qed

lemma release_block_edit:
  assumes "windowed p a" "tinv (tree p a) (order a) 1" "t \<le> order a" "2 ^ t dvd off" "off < 2 ^ order a"
    "c = base a + off" "c < usize_bound" "block c t \<inter> tfree (tree p a) (order a) 1 (base a) = {}"
  shows "release_block p a c t = Some (put p a (edit (tree p a) off t t 1 (order a)))"
proof -
  define P where "P = (\<lambda>f k v. \<exists>b. block (b + off mod 2 ^ k) t \<inter> tfree f k v b = {})"
  have small: "Suc k < UNAVAILABLE" if "level a (Suc k) v" for k v
    using that assms(1) unfolding level_def windowed_def UNAVAILABLE_def by simp
  have child: "P (expose f v (Suc k)) k (2 * v + of_bool (bit off k))"
    if v: "level a (Suc k) v" "tinv f (Suc k) v" "t \<le> k" "P f (Suc k) v" for f v k
  proof -
    obtain b where b: "block (b + off mod 2 ^ Suc k) t \<inter> tfree f (Suc k) v b = {}"
      using v(4) unfolding P_def by blast
    define b' where "b' = b + (if bit off k then 2 ^ k else 0)"
    have "block (b' + off mod 2 ^ k) t \<inter> tfree (expose f v (Suc k)) k (2 * v + of_bool (bit off k)) b' = {}"
      using b free_child [OF level_pos [OF v(1)] v(2) small [OF v(1)] assms(4) v(3) b'_def]
        block_child [OF assms(4) v(3) b'_def] by auto
    then show ?thesis
      unfolding P_def by blast
  qed
  have ne: "f v \<noteq> Suc k" if v: "level a (Suc k) v" "P f (Suc k) v" for f k v
  proof
    assume "f v = Suc k"
    then have "tfree f (Suc k) v b = block b (Suc k)" for b
      using tfree_whole small [OF v(1)] by blast
    then obtain b where "block (b + off mod 2 ^ Suc k) t \<inter> block b (Suc k) = {}"
      using v(2) unfolding P_def by auto
    moreover have "b + off mod 2 ^ Suc k \<in> block (b + off mod 2 ^ Suc k) t" "b + off mod 2 ^ Suc k \<in> block b (Suc k)"
      by (simp_all del: power_Suc)
    ultimately show False
      by blast
  qed
  have "P (tree p a) (order a) 1"
    unfolding P_def using assms(5,6,8) by (intro exI [of _ "base a"]) simp
  then have "finish a t (descend materialise (put p a (tree p a)) a c t 1 (order a)) =
      update_ancestors (put p a (edit (tree p a) off t t 1 (order a))) a 1"
    using descend_edit [OF assms(1) level_root assms(2-4,6,7), where prep = materialise and P = P]
      expose_busy [OF assms(1)] ne child by blast
  moreover have "as_u8 t = t"
    using assms(1,3) unfolding as_u8_def windowed_def by simp
  ultimately show ?thesis
    unfolding put_tree finish_def release_block_def by (simp add: update_ancestors.simps)
qed

section \<open>Tests\<close>

lemma tree_window_state: "windowed p a \<Longrightarrow> level a k v \<Longrightarrow> state p a v = Some (tree p a v)"
  using state_put [OF _ level_window, of p a k v "tree p a"] unfolding put_tree by blast

lemma free_step:
  assumes "v > 0" "tinv f (Suc k) v" "Suc k < UNAVAILABLE" "2 ^ t dvd off" "t \<le> k"
    "f v \<noteq> Suc k" "f v \<noteq> UNAVAILABLE" "b' = b + (if bit off k then 2 ^ k else 0)"
  shows "block (b' + off mod 2 ^ k) t \<inter> tfree f k (2 * v + of_bool (bit off k)) b' =
      block (b + off mod 2 ^ Suc k) t \<inter> tfree f (Suc k) v b"
    "tinv f k (2 * v + of_bool (bit off k))"
proof -
  have "expose f v (Suc k) = f"
    using assms(6,7) unfolding expose_def by simp
  note same = this
  show "block (b' + off mod 2 ^ k) t \<inter> tfree f k (2 * v + of_bool (bit off k)) b' =
      block (b + off mod 2 ^ Suc k) t \<inter> tfree f (Suc k) v b"
    using free_child [OF assms(1-5,8)] unfolding same block_child(1) [OF assms(4,5,8)] .
  show "tinv f k (2 * v + of_bool (bit off k))"
    using expose_children(1,2) [OF assms(1-3)] unfolding same by (cases "bit off k") simp_all
qed

lemma block_is_free_tree:
  assumes "windowed p a" "level a k v" "tinv (tree p a) k v" "t \<le> k" "2 ^ t dvd off" "c = base a + off" "c < usize_bound"
  shows "block_is_free_loop p a c t v k =
    Some (block (b + off mod 2 ^ k) t \<subseteq> tfree (tree p a) k v b)"
  using assms(2,3,4)
proof (induction k arbitrary: v b)
  case 0
  then show ?case
    using tree_window_state [OF assms(1) 0(1)] by (subst block_is_free_loop.simps) (auto simp: UNAVAILABLE_def)
next
  case (Suc k)
  let ?f = "tree p a"
  have small: "Suc k < UNAVAILABLE"
    using Suc.prems(1) assms(1) unfolding level_def windowed_def UNAVAILABLE_def by simp
  note st = tree_window_state [OF assms(1) Suc.prems(1)]
  consider (whole) "?f v = Suc k" | (busy) "?f v = UNAVAILABLE" | (exact) "?f v \<noteq> Suc k" "?f v \<noteq> UNAVAILABLE" "t = Suc k"
    | (down) "?f v \<noteq> Suc k" "?f v \<noteq> UNAVAILABLE" "t \<le> k"
    using Suc.prems(3) by linarith
  then show ?case
  proof cases
    case whole
    have "block (b + off mod 2 ^ Suc k) t \<subseteq> block b (Suc k)"
      using block_in_node [OF assms(5) Suc.prems(3)] by auto
    then show ?thesis
      using whole st tfree_whole [of ?f v, OF whole small] by (subst block_is_free_loop.simps) simp
  next
    case busy
    then show ?thesis
      using small st by (subst block_is_free_loop.simps) simp
  next
    case exact
    then have "\<not> block (b + off mod 2 ^ Suc k) t \<subseteq> tfree ?f (Suc k) v b"
      using tree_block_below [OF Suc.prems(2), of t "off mod 2 ^ Suc k" b] tinv_le [OF Suc.prems(2)] assms(5) by auto
    then show ?thesis
      using exact st by (subst block_is_free_loop.simps) (simp del: tfree.simps power_Suc)
  next
    case down
    define b' where "b' = b + (if bit off k then 2 ^ k else 0)"
    note step = free_step [OF level_pos [OF Suc.prems(1)] Suc.prems(2) small assms(5) down(3,1,2) b'_def]
    have "block_is_free_loop p a c t v (Suc k) = block_is_free_loop p a c t (2 * v + of_bool (bit off k)) k"
      using down st assms(6) by (subst block_is_free_loop.simps) (simp add: usize_sub_def mult.commute)
    also have "\<dots> = Some (block (b' + off mod 2 ^ k) t \<subseteq> tfree ?f k (2 * v + of_bool (bit off k)) b')"
      using Suc.IH level_child [OF Suc.prems(1)] step(2) down(3) by blast
    also have "(block (b' + off mod 2 ^ k) t \<subseteq> tfree ?f k (2 * v + of_bool (bit off k)) b') =
        (block (b + off mod 2 ^ Suc k) t \<subseteq> tfree ?f (Suc k) v b)"
      using step(1) unfolding block_child(1) [OF assms(5) down(3) b'_def] by blast
    finally show ?thesis .
  qed
qed

lemma block_has_free_tree:
  assumes "windowed p a" "level a k v" "tinv (tree p a) k v" "t \<le> k" "2 ^ t dvd off" "c = base a + off" "c < usize_bound"
  shows "block_has_free_loop p a c t v k =
    Some (block (b + off mod 2 ^ k) t \<inter> tfree (tree p a) k v b \<noteq> {})"
  using assms(2,3,4)
proof (induction k arbitrary: v b)
  case 0
  then show ?case
    using tree_window_state [OF assms(1) 0(1)] by (subst block_has_free_loop.simps) (auto simp: UNAVAILABLE_def)
next
  case (Suc k)
  let ?f = "tree p a"
  have small: "Suc k < UNAVAILABLE"
    using Suc.prems(1) assms(1) unfolding level_def windowed_def UNAVAILABLE_def by simp
  note st = tree_window_state [OF assms(1) Suc.prems(1)]
  consider (whole) "?f v = Suc k" | (busy) "?f v = UNAVAILABLE" | (exact) "?f v \<noteq> Suc k" "?f v \<noteq> UNAVAILABLE" "t = Suc k"
    | (down) "?f v \<noteq> Suc k" "?f v \<noteq> UNAVAILABLE" "t \<le> k"
    using Suc.prems(3) by linarith
  then show ?case
  proof cases
    case whole
    have "b + off mod 2 ^ Suc k \<in> block (b + off mod 2 ^ Suc k) t \<inter> tfree ?f (Suc k) v b"
      unfolding tfree_whole [of ?f v, OF whole small] by (simp del: power_Suc)
    then show ?thesis
      using whole st by (subst block_has_free_loop.simps) (auto simp del: power_Suc)
  next
    case busy
    then show ?thesis
      using small st by (subst block_has_free_loop.simps) simp
  next
    case exact
    obtain r where "{b + r..<b + r + 2 ^ ?f v} \<subseteq> tfree ?f (Suc k) v b"
      using tree_has_block [OF Suc.prems(2) exact(2), of b] by blast
    then have "b + r \<in> tfree ?f (Suc k) v b"
      by (auto simp del: tfree.simps)
    then have "b + r \<in> block (b + off mod 2 ^ Suc k) t \<inter> tfree ?f (Suc k) v b"
      using tfree_bounds [of ?f "Suc k" v b] assms(5) exact(3) by (auto simp del: tfree.simps power_Suc)
    then have "block (b + off mod 2 ^ Suc k) t \<inter> tfree ?f (Suc k) v b \<noteq> {}"
      by blast
    then show ?thesis
      using exact st by (subst block_has_free_loop.simps) (simp del: tfree.simps power_Suc)
  next
    case down
    define b' where "b' = b + (if bit off k then 2 ^ k else 0)"
    note step = free_step [OF level_pos [OF Suc.prems(1)] Suc.prems(2) small assms(5) down(3,1,2) b'_def]
    have "block_has_free_loop p a c t v (Suc k) = block_has_free_loop p a c t (2 * v + of_bool (bit off k)) k"
      using down st assms(6) by (subst block_has_free_loop.simps) (simp add: usize_sub_def mult.commute)
    also have "\<dots> = Some (block (b' + off mod 2 ^ k) t \<inter> tfree ?f k (2 * v + of_bool (bit off k)) b' \<noteq> {})"
      using Suc.IH level_child [OF Suc.prems(1)] step(2) down(3) by blast
    finally show ?thesis
      unfolding step(1) .
  qed
qed

section \<open>Taking any block of an order\<close>

text \<open>The choice at a node: the left child when it can provide the order, otherwise the right one, which then can.\<close>

lemma expose_available:
  assumes "v > 0" "tinv f (Suc k) v" "f v \<noteq> UNAVAILABLE" "t \<le> f v" "t \<le> k" "Suc k < UNAVAILABLE"
  shows "state_available (expose f v (Suc k) (2 * v)) t \<or> state_available (expose f v (Suc k) (2 * v + 1)) t"
proof (cases "f v = Suc k")
  case True
  then show ?thesis
    using assms(5,6) unfolding expose_def state_available_def by simp
next
  case False
  then have "f v = max_available (f (2 * v)) (f (2 * v + 1))"
    using assms(2,3) by (simp del: One_nat_def)
  then show ?thesis
    using False assms(3,4) unfolding expose_def state_available_def max_available_def
    by (auto split: if_splits simp: max_def)
qed

lemma mod_bit_side:
  fixes off :: nat
  assumes "off mod 2 ^ Suc k = (if d then 2 ^ k else 0) + r" "r < 2 ^ k"
  shows "bit off k = d" "off mod 2 ^ k = r"
proof -
  have lt: "off mod 2 ^ k < 2 ^ k"
    by simp
  have "bit off k \<longleftrightarrow> 2 ^ k \<le> off mod 2 ^ Suc k"
    unfolding mod_step using lt [folded not_le] by (cases "bit off k") simp_all
  moreover have "d \<longleftrightarrow> 2 ^ k \<le> off mod 2 ^ Suc k"
    unfolding assms(1) using assms(2) by simp
  ultimately show "bit off k = d"
    by blast
  then show "off mod 2 ^ k = r"
    using assms(1) unfolding mod_step by simp
qed

definition found :: "frame_pool \<Rightarrow> arena_metadata \<Rightarrow> (nat \<Rightarrow> nat) \<Rightarrow> nat \<Rightarrow> nat \<Rightarrow> nat \<Rightarrow> nat \<Rightarrow> nat \<Rightarrow> bool" where
  "found p a f t v k b r \<longleftrightarrow> r < 2 ^ k \<and> 2 ^ t dvd r \<and> block (b + r) t \<subseteq> tfree f k v b \<and>
     (\<forall>off. off mod 2 ^ k = r \<longrightarrow> (\<exists>p1 w. take_any_loop (put p a f) a t v k b = Some (p1, w, b + r) \<and>
        descend split_if_whole (put p a f) a (base a + off) t v k = Some (p1, w)))"

lemma found_child:
  assumes "windowed p a" "level a (Suc k) v" "tinv f (Suc k) v" "f v \<noteq> UNAVAILABLE" "t \<le> k"
    "b + 2 ^ Suc k < usize_bound" "d \<longleftrightarrow> \<not> state_available (expose f v (Suc k) (2 * v)) t"
    and IH: "found p a (expose f v (Suc k)) t (2 * v + of_bool d) k (b + (if d then 2 ^ k else 0)) r"
  shows "found p a f t v (Suc k) b ((if d then 2 ^ k else 0) + r)"
proof -
  define g where "g = expose f v (Suc k)"
  define x where "x = (if d then 2 ^ k else (0::nat))"
  have r: "r < 2 ^ k" "2 ^ t dvd r" "block (b + x + r) t \<subseteq> tfree g k (2 * v + of_bool d) (b + x)"
    using IH unfolding found_def g_def x_def by blast+
  have small: "Suc k < UNAVAILABLE"
    using assms(1,2) unfolding level_def windowed_def UNAVAILABLE_def by simp
  have "tfree g k (2 * v + of_bool d) (b + x) \<subseteq> tfree f (Suc k) v b"
    using expose_children(3) [OF level_pos [OF assms(2)] assms(3) small, of b] unfolding g_def x_def by (cases d) auto
  then have 1: "block (b + (x + r)) t \<subseteq> tfree f (Suc k) v b"
    using r(3) by (simp add: add.assoc)
  have st: "state (put p a g) a (v * 2) = Some (g (2 * v))"
    using state_put [OF assms(1) level_window [OF level_child [OF assms(2), of False]]] by (simp add: mult.commute)
  have 2: "\<exists>p1 w. take_any_loop (put p a f) a t v (Suc k) b = Some (p1, w, b + (x + r)) \<and>
      descend split_if_whole (put p a f) a (base a + off) t v (Suc k) = Some (p1, w)"
    if off: "off mod 2 ^ Suc k = x + r" for off
  proof -
    have bit: "bit off k = d" "off mod 2 ^ k = r"
      using mod_bit_side [of off k d r] off r(1) unfolding x_def by blast+
    then obtain p1 w where w: "take_any_loop (put p a g) a t (2 * v + of_bool d) k (b + x) = Some (p1, w, b + x + r)"
      "descend split_if_whole (put p a g) a (base a + off) t (2 * v + of_bool d) k = Some (p1, w)"
      using IH unfolding found_def g_def x_def by blast
    have "take_any_loop (put p a f) a t v (Suc k) b = Some (p1, w, b + (x + r))"
      using w(1) assms(5-7) st unfolding x_def g_def [symmetric]
      by (cases d) (simp_all add: expose_split [OF assms(1,2), of f, OF assms(4)] g_def [symmetric] mult.commute add.assoc usize_add_def)
    moreover have "descend split_if_whole (put p a f) a (base a + off) t v (Suc k) = Some (p1, w)"
      using w(2) assms(5) bit(1)
      by (cases d) (simp_all add: expose_split [OF assms(1,2), of f, OF assms(4)] g_def [symmetric] mult.commute usize_sub_def)
    ultimately show ?thesis
      by blast
  qed
  have "x + r < 2 ^ Suc k" "2 ^ t dvd x + r"
    using r(1,2) assms(5) unfolding x_def by (auto intro: dvd_add le_imp_power_dvd)
  then show ?thesis
    unfolding found_def x_def [symmetric] using 1 2 by blast
qed

lemma take_any_path:
  assumes "windowed p a" "level a k v" "tinv f k v" "f v \<noteq> UNAVAILABLE" "t \<le> f v" "b + 2 ^ k < usize_bound"
  shows "\<exists>r. found p a f t v k b r"
  using assms(2-)
proof (induction k arbitrary: f v b)
  case 0
  then have "found p a f t v 0 b 0"
    unfolding found_def by auto
  then show ?case
    by blast
next
  case (Suc k)
  have small: "Suc k < UNAVAILABLE"
    using Suc.prems(1) assms(1) unfolding level_def windowed_def UNAVAILABLE_def by simp
  show ?case
  proof (cases "t \<le> k")
    case True
    define g where "g = expose f v (Suc k)"
    define d where "d = (\<not> state_available (g (2 * v)) t)"
    note v = level_pos [OF Suc.prems(1)]
    have "state_available (g (2 * v + of_bool d)) t"
      using expose_available [OF v Suc.prems(2-4) True small] unfolding d_def g_def
      by (cases "state_available (expose f v (Suc k) (2 * v)) t") simp_all
    then have "g (2 * v + of_bool d) \<noteq> UNAVAILABLE" "t \<le> g (2 * v + of_bool d)"
      unfolding state_available_def by auto
    moreover have "tinv g k (2 * v + of_bool d)"
      using expose_children(1,2) [OF v Suc.prems(2) small] unfolding g_def by (cases d) simp_all
    moreover have "b + (if d then 2 ^ k else 0) + 2 ^ k < usize_bound"
      using Suc.prems(5) by simp
    ultimately obtain r where "found p a g t (2 * v + of_bool d) k (b + (if d then 2 ^ k else 0)) r"
      using Suc.IH [OF level_child [OF Suc.prems(1)]] by blast
    then show ?thesis
      using found_child [OF assms(1) Suc.prems(1-3) True Suc.prems(5)] unfolding g_def d_def by blast
  next
    case False
    then have "t = Suc k" "f v = Suc k"
      using Suc.prems(3,4) tinv_le [OF Suc.prems(2)] by auto
    then have "found p a f t v (Suc k) b 0"
      using tfree_whole [of f v "Suc k" b] small unfolding found_def by auto
    then show ?thesis
      by blast
  qed
qed

lemma take_any_edit:
  assumes "windowed p a" "tinv (tree p a) (order a) 1" "tree p a 1 \<noteq> UNAVAILABLE" "t \<le> tree p a 1"
    "base a + 2 ^ order a < usize_bound"
  obtains off where "off < 2 ^ order a" "2 ^ t dvd off" "t \<le> order a"
    "block (base a + off) t \<subseteq> tfree (tree p a) (order a) 1 (base a)"
    "take_any p a t = Some (base a + off, put p a (edit (tree p a) off t UNAVAILABLE 1 (order a)))"
proof -
  obtain off where off: "found p a (tree p a) t 1 (order a) (base a) off"
    using take_any_path [OF assms(1) level_root assms(2-5)] by blast
  then have r: "off < 2 ^ order a" "2 ^ t dvd off" "block (base a + off) t \<subseteq> tfree (tree p a) (order a) 1 (base a)"
    unfolding found_def by blast+
  have t: "t \<le> order a"
    using tinv_le [OF assms(2)] assms(3,4) by auto
  have "off mod 2 ^ order a = off"
    using r(1) by simp
  then obtain p1 w where w: "take_any_loop p a t 1 (order a) (base a) = Some (p1, w, base a + off)"
    "descend split_if_whole p a (base a + off) t 1 (order a) = Some (p1, w)"
    using off unfolding found_def put_tree by blast
  have "take_at_block p a (base a + off) t = Some (put p a (edit (tree p a) off t UNAVAILABLE 1 (order a)))"
    using take_at_block_edit [OF assms(1,2) t r(2,1) refl _ r(3)] r(1) assms(5) by simp
  then have "take_any p a t = Some (base a + off, put p a (edit (tree p a) off t UNAVAILABLE 1 (order a)))"
    unfolding take_any_def take_at_block_def w by (auto simp: bind_eq_Some_conv)
  then show ?thesis
    using that r t by blast
qed

end
