(* ===== verification/Frame_Pool_Ranges.thy ===== *)
theory Frame_Pool_Ranges
  imports Frame_Pool_Blocks
begin

text \<open>
  The invariant of the frame pool, the set of frames it records as free, and its range loops: the canonical blocks of a range
  partition it, and the operations on ranges test and change exactly the frames of the range.
\<close>

section \<open>Canonical blocks\<close>

lemma trailing_zeros_dvd: "0 < n \<Longrightarrow> 2 ^ trailing_zeros n dvd n"
proof (induction n rule: trailing_zeros.induct)
  case (1 n)
  show ?case
  proof (cases "odd n")
    case True
    then show ?thesis
      using 1(2) by (simp add: trailing_zeros.simps [of n])
  next
    case False
    then have "2 ^ trailing_zeros (n div 2) dvd n div 2"
      using 1 by (auto elim!: evenE)
    then have "2 * 2 ^ trailing_zeros (n div 2) dvd 2 * (n div 2)"
      by (rule mult_dvd_mono [OF dvd_refl])
    moreover have "2 * (n div 2) = n"
      using False by simp
    ultimately have "2 * 2 ^ trailing_zeros (n div 2) dvd n"
      by (simp only:)
    then show ?thesis
      using 1(2) False by (simp add: trailing_zeros.simps [of n])
  qed
qed

lemma trailing_zeros_ge: "0 < n \<Longrightarrow> 2 ^ k dvd n \<Longrightarrow> k \<le> trailing_zeros n"
proof (induction n arbitrary: k rule: trailing_zeros.induct)
  case (1 n)
  show ?case
  proof (cases k)
    case (Suc j)
    then have "even n" "2 ^ j dvd n div 2"
      using 1(3) by (auto elim!: dvdE)
    then have "j \<le> trailing_zeros (n div 2)"
      using 1(1,2) by (auto elim!: evenE)
    then show ?thesis
      using 1(2) \<open>even n\<close> Suc by (simp add: trailing_zeros.simps [of n])
  qed simp
qed

lemma block_order_fits:
  assumes "s < e"
  shows "2 ^ block_order s e dvd s" "s + 2 ^ block_order s e \<le> e"
proof -
  show "2 ^ block_order s e dvd s"
    using power_le_dvd [OF trailing_zeros_dvd, of s "block_order s e"] unfolding block_order_def by (cases "s = 0") simp_all
  have "2 ^ block_order s e \<le> (2::nat) ^ floor_order (e - s)"
    unfolding block_order_def by (intro power_increasing) simp_all
  also have "\<dots> \<le> e - s"
    using floor_order_le [of "e - s"] assms by simp
  finally show "s + 2 ^ block_order s e \<le> e"
    using assms by simp
qed

lemma block_order_max:
  assumes "s < e" "2 ^ k dvd s" "s + 2 ^ k \<le> e" "e < usize_bound"
  shows "k \<le> block_order s e"
proof -
  have "2 ^ k < (2::nat) ^ 64"
    using assms(3,4) by linarith
  then have "k \<le> 63"
    using power_less_imp_less_exp [of "2::nat" k 64] by simp
  moreover have "2 ^ k < (2::nat) ^ Suc (floor_order (e - s))"
    using floor_order_le [of "e - s"] assms(1,3) by linarith
  then have "k \<le> floor_order (e - s)"
    using power_less_imp_less_exp [of "2::nat" k "Suc (floor_order (e - s))"] by simp
  ultimately show ?thesis
    using trailing_zeros_ge [of s k] assms(2) unfolding block_order_def by auto
qed

lemma for_each_block_blocks:
  "(b, n) \<in> set (for_each_block s e) \<Longrightarrow> s \<le> b \<and> 2 ^ n dvd b \<and> b + 2 ^ n \<le> e"
proof (induction s e rule: for_each_block.induct)
  case (1 s e)
  show ?case
  proof (cases "s < e")
    case True
    then consider "b = s" "n = block_order s e" | "(b, n) \<in> set (for_each_block (s + 2 ^ block_order s e) e)"
      using 1(2) by (auto simp: for_each_block.simps [of s e])
    then show ?thesis
    proof cases
      case 1
      then show ?thesis
        using block_order_fits [OF True] by simp
    next
      case 2
      then show ?thesis
        using 1(1) [OF True] by fastforce
    qed
  next
    case False
    then show ?thesis
      using 1(2) by (simp add: for_each_block.simps [of s e])
  qed
qed

text \<open>The blocks are as large as alignment allows: an aligned block inside the range lies in one of them.\<close>

lemma aligned_within:
  fixes b x :: nat
  assumes "2 ^ m dvd b" "2 ^ n dvd x" "m \<le> n" "x \<le> b" "b < x + 2 ^ n"
  shows "b + 2 ^ m \<le> x + 2 ^ n"
proof -
  have "2 ^ m dvd b - x"
    using assms(1-3) by (meson dvd_diff_nat dvd_trans le_imp_power_dvd)
  then show ?thesis
    using aligned_side [of m "b - x" n] assms(3-5) by linarith
qed

lemma for_each_block_contains:
  assumes "2 ^ m dvd b" "s \<le> b" "b + 2 ^ m \<le> e" "e < usize_bound"
  shows "\<exists>(x, n) \<in> set (for_each_block s e). x \<le> b \<and> b + 2 ^ m \<le> x + 2 ^ n"
  using assms
proof (induction s e rule: for_each_block.induct)
  case (1 s e)
  define o' where "o' = block_order s e"
  have pos: "0 < (2::nat) ^ m"
    by simp
  then have se: "s < e"
    using 1(3,4) by linarith
  note fits = block_order_fits [OF se, folded o'_def]
  have eq: "for_each_block s e = (s, o') # for_each_block (s + 2 ^ o') e"
    using se unfolding o'_def by (simp add: for_each_block.simps [of s e])
  show ?case
  proof (cases "b < s + 2 ^ o'")
    case True
    have "m \<le> o'"
    proof (rule ccontr)
      assume "\<not> m \<le> o'"
      then have "2 ^ o' dvd b"
        using 1(2) by (meson dvd_trans le_imp_power_dvd nat_le_linear)
      then have "b = s"
        using aligned_within [of o' b o' s] fits(1) 1(3) True by simp
      then show False
        using block_order_max [OF se, of m] 1(2,4,5) \<open>\<not> m \<le> o'\<close> unfolding o'_def by simp
    qed
    then have "b + 2 ^ m \<le> s + 2 ^ o'"
      using aligned_within [OF 1(2) fits(1) _ 1(3) True] by blast
    then show ?thesis
      using 1(3) unfolding eq by auto
  next
    case False
    then show ?thesis
      using 1(1) [OF se] 1(2,4,5) unfolding eq o'_def by auto
  qed
qed

section \<open>The invariant\<close>

abbreviation arena_range :: "arena_metadata \<Rightarrow> nat set" where
  "arena_range a \<equiv> block (base a) (order a)"

abbreviation arena_free :: "frame_pool \<Rightarrow> arena_metadata \<Rightarrow> nat set" where
  "arena_free p a \<equiv> tfree (tree p a) (order a) 1 (base a)"

definition managed :: "arena_metadata list \<Rightarrow> nat set" where
  "managed as = \<Union> (arena_range ` set as)"

definition free_set :: "frame_pool \<Rightarrow> nat set" where
  "free_set p = \<Union> (arena_free p ` set (admitted p))"

definition arena_ok :: "frame_pool \<Rightarrow> arena_metadata \<Rightarrow> bool" where
  "arena_ok p a \<longleftrightarrow> windowed p a \<and> metadata_start a + 2 ^ Suc (order a) \<le> metadata_used p \<and>
     2 ^ order a dvd base a \<and> base a + 2 ^ order a < usize_bound \<and> tinv (tree p a) (order a) 1"

definition apart :: "arena_metadata \<Rightarrow> arena_metadata \<Rightarrow> bool" where
  "apart a b \<longleftrightarrow> arena_range a \<inter> arena_range b = {} \<and>
     (metadata_start a + 2 ^ Suc (order a) \<le> metadata_start b \<or> metadata_start b + 2 ^ Suc (order b) \<le> metadata_start a)"

definition pool_trees :: "frame_pool \<Rightarrow> bool" where
  "pool_trees p \<longleftrightarrow> (\<forall>a \<in> set (admitted p). arena_ok p a) \<and> sorted_wrt apart (admitted p) \<and>
     metadata_used p \<le> length (metadata p) \<and> length (metadata p) < usize_bound \<and>
     arena_count p \<le> length (arenas p) \<and> length (arenas p) \<le> MAX_ARENAS"

definition pool_inv :: "frame_pool \<Rightarrow> bool" where
  "pool_inv p \<longleftrightarrow> pool_trees p \<and> free_frames p = card (free_set p)"

lemma apart_sym: "apart a b \<Longrightarrow> apart b a"
  unfolding apart_def by blast

lemma sorted_wrt_pair: "sorted_wrt R xs \<Longrightarrow> (\<And>a b. R a b \<Longrightarrow> R b a) \<Longrightarrow> x \<in> set xs \<Longrightarrow> y \<in> set xs \<Longrightarrow> x \<noteq> y \<Longrightarrow> R x y"
  by (induction xs) auto

lemma admitted_apart: "pool_trees p \<Longrightarrow> a \<in> set (admitted p) \<Longrightarrow> b \<in> set (admitted p) \<Longrightarrow> a \<noteq> b \<Longrightarrow> apart a b"
  using sorted_wrt_pair [of apart "admitted p" a b] apart_sym unfolding pool_trees_def by blast

lemma pool_arena: "pool_trees p \<Longrightarrow> a \<in> set (admitted p) \<Longrightarrow> arena_ok p a"
  unfolding pool_trees_def by blast

lemma free_in_arena: "pool_trees p \<Longrightarrow> a \<in> set (admitted p) \<Longrightarrow> x \<in> arena_range a \<Longrightarrow> x \<in> free_set p \<longleftrightarrow> x \<in> arena_free p a"
  using admitted_apart [of p a] tfree_bounds unfolding free_set_def apart_def by fast

lemma free_set_managed: "free_set p \<subseteq> managed (admitted p)"
  using tfree_bounds unfolding free_set_def managed_def by fast

lemma finite_free [simp]: "finite (free_set p)"
  using free_set_managed finite_subset unfolding managed_def by blast

section \<open>Replacing the tree of one arena\<close>

lemma sub_root: "w \<in> sub k 1 \<Longrightarrow> w < 2 ^ Suc k"
proof -
  assume "w \<in> sub k 1"
  then obtain d where "d \<le> k" "w div 2 ^ d = 1"
    using sub_div by blast
  then have "w < 2 ^ Suc d"
    by (simp add: div_less_iff_less_mult [symmetric])
  moreover have "(2::nat) ^ Suc d \<le> 2 ^ Suc k"
    using \<open>d \<le> k\<close> by (intro power_increasing) simp_all
  ultimately show ?thesis
    by linarith
qed

lemma tree_put_other:
  assumes "windowed p b" "apart a b" "v < 2 ^ Suc (order b)"
  shows "tree (put p a f) b v = tree p b v"
  using assms unfolding tree_def put_def windowed_def apart_def by auto

lemma put_pool:
  assumes "pool_trees p" "a \<in> set (admitted p)" "tinv f (order a) 1"
  shows "pool_trees (put p a f)"
    "x \<in> free_set (put p a f) \<longleftrightarrow> (if x \<in> arena_range a then x \<in> tfree f (order a) 1 (base a) else x \<in> free_set p)"
proof -
  have w: "windowed p b" if "b \<in> set (admitted p)" for b
    using pool_arena [OF assms(1) that] unfolding arena_ok_def by blast
  have self: "tinv (tree (put p a f) a) (order a) 1 = tinv f (order a) 1" "arena_free (put p a f) a = tfree f (order a) 1 (base a)"
    using tinv_cong [of "order a" 1 "tree (put p a f) a" f] tfree_cong [of "order a" 1 "tree (put p a f) a" f]
      tree_put [OF w [OF assms(2)]] sub_root by blast+
  have other: "tinv (tree (put p a f) b) (order b) 1 = tinv (tree p b) (order b) 1" "arena_free (put p a f) b = arena_free p b"
    if "b \<in> set (admitted p)" "b \<noteq> a" for b
    using tinv_cong [of "order b" 1 "tree (put p a f) b" "tree p b"] tfree_cong [of "order b" 1 "tree (put p a f) b" "tree p b"]
      tree_put_other [OF w [OF that(1)] admitted_apart [OF assms(1,2) that(1)]] sub_root that(2) by blast+
  have "arena_ok (put p a f) b" if "b \<in> set (admitted p)" for b
    using pool_arena [OF assms(1) that] self(1) other(1) [OF that] assms(3) unfolding arena_ok_def by (cases "b = a") auto
  then show trees: "pool_trees (put p a f)"
    using assms(1) unfolding pool_trees_def by simp
  show "x \<in> free_set (put p a f) \<longleftrightarrow> (if x \<in> arena_range a then x \<in> tfree f (order a) 1 (base a) else x \<in> free_set p)"
  proof (cases "x \<in> arena_range a")
    case True
    then show ?thesis
      using free_in_arena [OF trees, of a x] assms(2) self(2) by simp
  next
    case False
    then have "x \<in> arena_free (put p a f) b \<longleftrightarrow> x \<in> arena_free p b" if "b \<in> set (admitted p)" for b
      using self(2) other(2) [OF that] tfree_bounds [of f "order a" 1 "base a"] tfree_bounds [of "tree p a" "order a" 1 "base a"]
      by (cases "b = a") blast+
    then show ?thesis
      using False unfolding free_set_def pool_put_sel by auto
  qed
qed

section \<open>One block\<close>

text \<open>The frames after taking (\<open>pol\<close>) or releasing a set of frames.\<close>

definition flipped :: "bool \<Rightarrow> nat set \<Rightarrow> nat set \<Rightarrow> nat set" where
  "flipped pol F B = (if pol then F - B else F \<union> B)"

lemma flipped_flipped: "flipped pol (flipped pol F A) B = flipped pol F (A \<union> B)"
  unfolding flipped_def by auto

text \<open>Two pools that differ in the trees alone.\<close>

definition same_shape :: "frame_pool \<Rightarrow> frame_pool \<Rightarrow> bool" where
  "same_shape p q \<longleftrightarrow> admitted q = admitted p \<and> free_frames q = free_frames p"

definition block_op :: "bool \<Rightarrow> frame_pool \<Rightarrow> arena_metadata \<Rightarrow> nat \<times> nat \<Rightarrow> frame_pool option" where
  "block_op pol p a x = (if pol then take_at_block p a (fst x) (snd x) else release_block p a (fst x) (snd x))"

lemma block_offset:
  assumes "arena_ok p a" "2 ^ n dvd c" "block c n \<subseteq> arena_range a"
  obtains off where "c = base a + off" "off < 2 ^ order a" "2 ^ n dvd off" "n \<le> order a" "c < usize_bound"
proof -
  have pos: "0 < (2::nat) ^ n"
    by simp
  then have "c \<in> block c n" "c + 2 ^ n - 1 \<in> block c n"
    unfolding atLeastLessThan_iff by linarith+
  then have "c \<in> arena_range a" "c + 2 ^ n - 1 \<in> arena_range a"
    using assms(3) by blast+
  then have *: "base a \<le> c" "c + 2 ^ n \<le> base a + 2 ^ order a"
    using pos unfolding atLeastLessThan_iff by linarith+
  then have "2 ^ n \<le> (2::nat) ^ order a"
    by linarith
  then have n: "n \<le> order a"
    by simp
  then have "2 ^ n dvd base a"
    using assms(1) unfolding arena_ok_def by (meson dvd_trans le_imp_power_dvd)
  then have "2 ^ n dvd c - base a"
    using assms(2) by (simp add: dvd_diff_nat)
  moreover have "c - base a < 2 ^ order a" "c < usize_bound" "c = base a + (c - base a)"
    using * pos assms(1) unfolding arena_ok_def by linarith+
  ultimately show ?thesis
    using that n by blast
qed

lemma block_op_exact:
  assumes "pool_trees p" "a \<in> set (admitted p)" "2 ^ n dvd c" "block c n \<subseteq> arena_range a"
    and free: "\<And>x. x \<in> block c n \<Longrightarrow> x \<in> free_set p \<longleftrightarrow> pol"
  shows "\<exists>q. block_op pol p a (c, n) = Some q \<and> pool_trees q \<and> same_shape p q \<and> free_set q = flipped pol (free_set p) (block c n)"
proof -
  note ok = pool_arena [OF assms(1,2)]
  obtain off where off: "c = base a + off" "off < 2 ^ order a" "2 ^ n dvd off" "n \<le> order a" "c < usize_bound"
    using block_offset [OF ok assms(3,4)] .
  have w: "windowed p a" and inv: "tinv (tree p a) (order a) 1"
    using ok unfolding arena_ok_def by blast+
  have in': "x \<in> arena_free p a \<longleftrightarrow> pol" if "x \<in> block c n" for x
    using free_in_arena [OF assms(1,2), of x] free [OF that] that assms(4) by blast
  define s where "s = (if pol then UNAVAILABLE else n)"
  define f where "f = edit (tree p a) off n s 1 (order a)"
  have "order a < UNAVAILABLE"
    using w unfolding windowed_def UNAVAILABLE_def by simp
  then have ed: "tinv f (order a) 1" "tfree f (order a) 1 (base a) = flipped pol (arena_free p a) (block c n)"
    using edit_tree [OF _ inv _ off(4,3), of s "base a"] off unfolding f_def s_def flipped_def by auto
  have "block_op pol p a (c, n) = Some (put p a f)"
  proof (cases pol)
    case True
    then have "block c n \<subseteq> arena_free p a"
      using in' by blast
    then show ?thesis
      using take_at_block_edit [OF w inv off(4,3,2,1,5)] True unfolding block_op_def f_def s_def by simp
  next
    case False
    then have "block c n \<inter> arena_free p a = {}"
      using in' by blast
    then show ?thesis
      using release_block_edit [OF w inv off(4,3,2,1,5)] False unfolding block_op_def f_def s_def by simp
  qed
  moreover have "x \<in> free_set (put p a f) \<longleftrightarrow> x \<in> flipped pol (free_set p) (block c n)" for x
    using put_pool(2) [OF assms(1,2) ed(1), of x] free_in_arena [OF assms(1,2), of x] assms(4)
    unfolding ed(2) flipped_def by (cases "x \<in> arena_range a"; cases pol) auto
  ultimately show ?thesis
    using put_pool(1) [OF assms(1,2) ed(1)] unfolding same_shape_def by auto
qed

lemma block_tests:
  assumes "pool_trees p" "a \<in> set (admitted p)" "2 ^ n dvd c" "block c n \<subseteq> arena_range a"
  shows "block_is_free p a c n = Some (\<forall>x \<in> block c n. x \<in> free_set p)"
    "block_has_free p a c n = Some (\<not> (\<forall>x \<in> block c n. x \<notin> free_set p))"
proof -
  note ok = pool_arena [OF assms(1,2)]
  obtain off where off: "c = base a + off" "off < 2 ^ order a" "2 ^ n dvd off" "n \<le> order a" "c < usize_bound"
    using block_offset [OF ok assms(3,4)] .
  have w: "windowed p a" and inv: "tinv (tree p a) (order a) 1"
    using ok unfolding arena_ok_def by blast+
  have c: "base a + off mod 2 ^ order a = c"
    using off by simp
  have in': "x \<in> free_set p \<longleftrightarrow> x \<in> arena_free p a" if "x \<in> block c n" for x
    using free_in_arena [OF assms(1,2), of x] that assms(4) by blast
  show "block_is_free p a c n = Some (\<forall>x \<in> block c n. x \<in> free_set p)"
    using block_is_free_tree [OF w level_root inv off(4,3,1,5), of "base a"] in' unfolding c block_is_free_def by auto
  show "block_has_free p a c n = Some (\<not> (\<forall>x \<in> block c n. x \<notin> free_set p))"
    using block_has_free_tree [OF w level_root inv off(4,3,1,5), of "base a"] in' unfolding c block_has_free_def by auto
qed

section \<open>Ranges\<close>

lemma pool_arena_end: "pool_trees p \<Longrightarrow> a \<in> set (admitted p) \<Longrightarrow> arena_end a = Some (base a + 2 ^ order a)"
proof -
  assume "pool_trees p" "a \<in> set (admitted p)"
  then have "order a < 64" "base a + 2 ^ order a < usize_bound"
    using pool_arena unfolding arena_ok_def windowed_def by blast+
  then show ?thesis
    unfolding arena_end_def arena_frames_def order_size_def by (simp add: usize_add_def)
qed

lemma find_in_exact:
  assumes "\<And>a. a \<in> set as \<Longrightarrow> arena_end a = Some (base a + 2 ^ order a)"
  shows "(x \<in> managed as \<and> (\<exists>a \<in> set as. x \<in> arena_range a \<and> find_in as x = Some (Some a))) \<or>
    (x \<notin> managed as \<and> find_in as x = Some None)"
  using assms by (induction as) (auto simp: managed_def)

text \<open>One turn of the segment loop.\<close>

lemma segments_turn:
  assumes "pool_trees p" "s < e"
  obtains (out) "s \<notin> managed (admitted p)" "segments (admitted p) s e = Some ([], False)"
  | (step) a m where "a \<in> set (admitted p)" "s < m" "m \<le> e" "{s..<m} \<subseteq> arena_range a" "m = min e (base a + 2 ^ order a)"
      "segments (admitted p) s e = map_option (\<lambda>(segs, whole). ((a, s, m) # segs, whole)) (segments (admitted p) m e)"
proof -
  note ends = pool_arena_end [OF assms(1)]
  consider "s \<notin> managed (admitted p)" "find_in (admitted p) s = Some None"
    | a where "a \<in> set (admitted p)" "s \<in> arena_range a" "find_in (admitted p) s = Some (Some a)"
    using find_in_exact [of "admitted p" s] ends by blast
  then show ?thesis
  proof cases
    case 1
    then show ?thesis
      using out assms(2) by (simp add: segments.simps [of _ s e])
  next
    case (2 a)
    then have "segments (admitted p) s e =
        map_option (\<lambda>(segs, whole). ((a, s, min e (base a + 2 ^ order a)) # segs, whole))
          (segments (admitted p) (min e (base a + 2 ^ order a)) e)"
      using assms(2) ends by (subst segments.simps) simp
    then show ?thesis
      using step [OF 2(1) _ _ _ refl] 2(2) assms(2) by auto
  qed
qed

lemma segments_stop: "e \<le> s \<Longrightarrow> segments as s e = Some ([], True)"
  by (simp add: segments.simps [of _ s e])

text \<open>The blocks of a segment.\<close>

lemma for_each_block_rec:
  assumes "s < e"
  obtains n where "for_each_block s e = (s, n) # for_each_block (s + 2 ^ n) e" "2 ^ n dvd s" "s + 2 ^ n \<le> e"
  using block_order_fits [OF assms] assms for_each_block.simps [of s e] that by auto

lemma all_blocks_exact:
  assumes "\<And>b n. 2 ^ n dvd b \<Longrightarrow> block b n \<subseteq> {s..<e} \<Longrightarrow> t (b, n) = Some (\<forall>x \<in> block b n. q x)"
  shows "all_blocks t (for_each_block s e) = Some (\<forall>x \<in> {s..<e}. q x)"
  using assms
proof (induction "e - s" arbitrary: s rule: less_induct)
  case less
  show ?case
  proof (cases "s < e")
    case True
    obtain n where n: "for_each_block s e = (s, n) # for_each_block (s + 2 ^ n) e" "2 ^ n dvd s" "s + 2 ^ n \<le> e"
      using for_each_block_rec [OF True] .
    have "0 < (2::nat) ^ n"
      by simp
    then have "e - (s + 2 ^ n) < e - s"
      using True by linarith
    then have "all_blocks t (for_each_block (s + 2 ^ n) e) = Some (\<forall>x \<in> {s + 2 ^ n..<e}. q x)"
      by (rule less(1)) (auto intro!: less(2))
    moreover have "t (s, n) = Some (\<forall>x \<in> block s n. q x)"
      using n by (intro less(2)) auto
    moreover have "{s..<e} = block s n \<union> {s + 2 ^ n..<e}"
      using n(3) by auto
    ultimately show ?thesis
      unfolding n(1) by (simp add: ball_Un)
  next
    case False
    then show ?thesis
      by (simp add: for_each_block.simps [of s e])
  qed
qed

lemma range_test_exact:
  assumes "pool_trees p"
    and test: "\<And>a b n. a \<in> set (admitted p) \<Longrightarrow> 2 ^ n dvd b \<Longrightarrow> block b n \<subseteq> arena_range a \<Longrightarrow>
      t a (b, n) = Some (\<forall>x \<in> block b n. q x)"
  shows "Option.bind (segments (admitted p) s e) (\<lambda>(segs, whole). all_segments t segs whole) =
    Some (\<forall>x \<in> {s..<e}. x \<in> managed (admitted p) \<and> q x)"
proof (induction "e - s" arbitrary: s rule: less_induct)
  case less
  show ?case
  proof (cases "s < e")
    case True
    then show ?thesis
    proof (cases rule: segments_turn [OF assms(1) True, case_names out step])
      case out
      then show ?thesis
        using True by auto
    next
      case (step a m)
      have IH: "Option.bind (segments (admitted p) m e) (\<lambda>(segs, whole). all_segments t segs whole) =
          Some (\<forall>x \<in> {m..<e}. x \<in> managed (admitted p) \<and> q x)"
        using step(2,3) by (intro less) simp
      have "all_blocks (t a) (for_each_block s m) = Some (\<forall>x \<in> {s..<m}. q x)"
      proof (rule all_blocks_exact)
        fix b n
        assume b: "2 ^ n dvd b" "block b n \<subseteq> {s..<m}"
        show "t a (b, n) = Some (\<forall>x \<in> block b n. q x)"
          by (rule test [OF step(1) b(1) subset_trans [OF b(2) step(4)]])
      qed
      moreover have "{s..<e} = {s..<m} \<union> {m..<e}" "{s..<m} \<subseteq> managed (admitted p)"
        using step(1-4) unfolding managed_def by auto
      moreover obtain segs whole where "segments (admitted p) m e = Some (segs, whole)"
        using IH by (cases "segments (admitted p) m e") auto
      ultimately show ?thesis
        using IH step(6) by (auto simp: ball_Un)
    qed
  next
    case False
    then show ?thesis
      by (simp add: segments_stop)
  qed
qed

text \<open>Changing the frames of a range.\<close>

lemma each_block_exact:
  assumes "pool_trees p" "a \<in> set (admitted p)" "{s..<e} \<subseteq> arena_range a" "\<And>x. x \<in> {s..<e} \<Longrightarrow> x \<in> free_set p \<longleftrightarrow> pol"
  shows "\<exists>q. each_block (\<lambda>q x. block_op pol q a x) (for_each_block s e) p = Some q \<and> pool_trees q \<and> same_shape p q \<and>
    free_set q = flipped pol (free_set p) {s..<e}"
  using assms
proof (induction "e - s" arbitrary: s p rule: less_induct)
  case less
  show ?case
  proof (cases "s < e")
    case True
    obtain n where n: "for_each_block s e = (s, n) # for_each_block (s + 2 ^ n) e" "2 ^ n dvd s" "s + 2 ^ n \<le> e"
      using for_each_block_rec [OF True] .
    have cover: "{s..<e} = block s n \<union> {s + 2 ^ n..<e}"
      using n(3) by auto
    obtain q where q: "block_op pol p a (s, n) = Some q" "pool_trees q" "same_shape p q"
      "free_set q = flipped pol (free_set p) (block s n)"
      using block_op_exact [OF less(2,3) n(2), of pol] less(4,5) unfolding cover by blast
    have rest: "x \<in> free_set q \<longleftrightarrow> pol" if "x \<in> {s + 2 ^ n..<e}" for x
      using that less(5) [of x] unfolding q(4) flipped_def cover by auto
    have "0 < (2::nat) ^ n"
      by simp
    then have "e - (s + 2 ^ n) < e - s"
      using True by linarith
    moreover have sub': "{s + 2 ^ n..<e} \<subseteq> arena_range a"
      using less(4) unfolding cover by blast
    ultimately obtain r where r: "each_block (\<lambda>q x. block_op pol q a x) (for_each_block (s + 2 ^ n) e) q = Some r" "pool_trees r"
      "same_shape q r" "free_set r = flipped pol (free_set q) {s + 2 ^ n..<e}"
      using less(1) [of "s + 2 ^ n" q, OF _ q(2) _ sub' rest] less(3) q(3) unfolding same_shape_def by metis
    have "free_set r = flipped pol (free_set p) {s..<e}"
      unfolding cover r(4) q(4) by (rule flipped_flipped)
    moreover have "same_shape p r"
      using r(3) q(3) unfolding same_shape_def by simp
    ultimately show ?thesis
      using q(1) r(1,2) unfolding n(1) by simp
  next
    case False
    then show ?thesis
      using less(2) by (auto simp: for_each_block.simps [of s e] same_shape_def flipped_def)
  qed
qed

lemma each_segment_exact:
  assumes "pool_trees p" "{s..<e} \<subseteq> managed (admitted p)" "\<And>x. x \<in> {s..<e} \<Longrightarrow> x \<in> free_set p \<longleftrightarrow> pol"
  shows "\<exists>segs q. segments (admitted p) s e = Some (segs, True) \<and>
    each_segment (block_op pol) segs p = Some q \<and> pool_trees q \<and> same_shape p q \<and>
    free_set q = flipped pol (free_set p) {s..<e}"
  using assms
proof (induction "e - s" arbitrary: s p rule: less_induct)
  case less
  show ?case
  proof (cases "s < e")
    case True
    then show ?thesis
    proof (cases rule: segments_turn [OF less(2) True, case_names out step])
      case out
      then show ?thesis
        using less(3) True by auto
    next
      case (step a m)
      have cover: "{s..<e} = {s..<m} \<union> {m..<e}"
        using step(2,3) by auto
      obtain q where q: "each_block (\<lambda>q x. block_op pol q a x) (for_each_block s m) p = Some q" "pool_trees q" "same_shape p q"
        "free_set q = flipped pol (free_set p) {s..<m}"
        using each_block_exact [OF less(2) step(1,4), of pol] less(4) unfolding cover by blast
      have rest: "x \<in> free_set q \<longleftrightarrow> pol" if "x \<in> {m..<e}" for x
        using that less(4) [of x] unfolding q(4) flipped_def cover by auto
      have adm: "admitted q = admitted p"
        using q(3) unfolding same_shape_def by blast
      have "e - m < e - s"
        using step(2) True by linarith
      then obtain segs r where r: "segments (admitted p) m e = Some (segs, True)" "each_segment (block_op pol) segs q = Some r"
        "pool_trees r" "same_shape q r" "free_set r = flipped pol (free_set q) {m..<e}"
        using less(1) [of m q, OF _ q(2) _ rest] less(3) unfolding adm cover by auto
      have "free_set r = flipped pol (free_set p) {s..<e}"
        unfolding cover r(5) q(4) by (rule flipped_flipped)
      moreover have "same_shape p r"
        using r(4) q(3) unfolding same_shape_def by simp
      moreover have "segments (admitted p) s e = Some ((a, s, m) # segs, True)"
        using step(6) r(1) by simp
      ultimately show ?thesis
        using q(1) r(2,3) by auto
    qed
  next
    case False
    then show ?thesis
      using less(2) by (auto simp: segments_stop same_shape_def flipped_def)
  qed
qed

end
