(* ===== verification/Frame_Pool_Props.thy ===== *)
theory Frame_Pool_Props
  imports Frame_Pool_Ranges
begin

text \<open>
  The operations of the frame pool against the set of frames it records as free: what each one returns and what it leaves behind.
\<close>

section \<open>Range tests and range changes\<close>

lemma range_is_managed_exact: "pool_trees p \<Longrightarrow> range_is_managed p s e = Some ({s..<e} \<subseteq> managed (admitted p))"
proof -
  assume p: "pool_trees p"
  have "all_segments (\<lambda>a x. Some True) segs whole = Some whole" for segs whole
  proof (induction segs)
    case (Cons x segs)
    have "all_blocks (\<lambda>x. Some True) bs = Some True" for bs :: "(nat \<times> nat) list"
      by (induction bs) simp_all
    then show ?case
      using Cons by (cases x) simp
  qed simp
  then have "range_is_managed p s e =
      Option.bind (segments (admitted p) s e) (\<lambda>(segs, whole). all_segments (\<lambda>a x. Some True) segs whole)"
    unfolding range_is_managed_def by (cases "segments (admitted p) s e") auto
  then show ?thesis
    using range_test_exact [OF p, of "\<lambda>a x. Some True" "\<lambda>x. True" s e] by (auto simp: subset_iff)
qed

lemma range_is_free_exact: "pool_trees p \<Longrightarrow> range_is_free p s e = Some ({s..<e} \<subseteq> free_set p)"
  using range_test_exact [of p "\<lambda>a (b, n). block_is_free p a b n" "\<lambda>x. x \<in> free_set p" s e]
    block_tests(1) [of p] free_set_managed [of p] unfolding range_is_free_def by (auto simp: subset_iff)

lemma range_is_unavailable_exact:
  "pool_trees p \<Longrightarrow> range_is_unavailable p s e = Some ({s..<e} \<subseteq> managed (admitted p) - free_set p)"
  using range_test_exact [of p "\<lambda>a (b, n). map_option Not (block_has_free p a b n)" "\<lambda>x. x \<notin> free_set p" s e]
    block_tests(2) [of p] unfolding range_is_unavailable_def by (auto simp: subset_iff)

lemma take_range_exact:
  assumes "pool_trees p" "{s..<e} \<subseteq> free_set p"
  obtains q where "take_range p s e = Some q" "pool_trees q" "same_shape p q" "free_set q = free_set p - {s..<e}"
proof -
  have "(\<lambda>q a (b, n). take_at_block q a b n) = block_op True"
    by (auto simp: fun_eq_iff block_op_def)
  then show ?thesis
    using each_segment_exact [OF assms(1), of s e True] assms(2) free_set_managed [of p] that
    unfolding take_range_def flipped_def by fastforce
qed

lemma release_blocks_exact:
  assumes "pool_trees p" "{s..<e} \<subseteq> managed (admitted p) - free_set p"
  obtains q where "release_blocks p s e = Some q" "pool_trees q" "same_shape p q" "free_set q = free_set p \<union> {s..<e}"
proof -
  have "(\<lambda>q a (b, n). release_block q a b n) = block_op False"
    by (auto simp: fun_eq_iff block_op_def)
  then show ?thesis
    using each_segment_exact [OF assms(1), of s e False] assms(2) that
    unfolding release_blocks_def flipped_def by fastforce
qed

section \<open>Counting\<close>

lemma pool_trees_counter [simp]: "pool_trees (p\<lparr>free_frames := n\<rparr>) = pool_trees p"
  "free_set (p\<lparr>free_frames := n\<rparr>) = free_set p" "admitted (p\<lparr>free_frames := n\<rparr>) = admitted p"
  by (simp_all add: pool_trees_def free_set_def admitted_def arena_ok_def windowed_def tree_def [abs_def])

lemma managed_bound: "pool_trees p \<Longrightarrow> x \<in> managed (admitted p) \<Longrightarrow> Suc x < usize_bound"
  using pool_arena [of p] unfolding managed_def arena_ok_def by fastforce

lemma managed_card: "pool_trees p \<Longrightarrow> A \<subseteq> managed (admitted p) \<Longrightarrow> card A < usize_bound"
proof -
  assume "pool_trees p" "A \<subseteq> managed (admitted p)"
  then have "A \<subseteq> {..<usize_bound - 1}"
    using managed_bound by fastforce
  then have "card A \<le> usize_bound - 1"
    using card_mono [of "{..<usize_bound - 1}" A] by simp
  then show ?thesis
    by simp
qed

lemma managed_end:
  assumes "pool_trees p" "0 < n" "{b..<b + n} \<subseteq> managed (admitted p)"
  shows "b + n < usize_bound"
proof -
  have "b + n - 1 \<in> managed (admitted p)"
    using assms(2,3) by (auto simp: subset_iff)
  then show ?thesis
    using managed_bound [OF assms(1)] assms(2) by fastforce
qed

section \<open>Exact ranges\<close>

lemma alloc_at_free:
  assumes "pool_inv p" "0 < n" "{b..<b + n} \<subseteq> free_set p"
  obtains q where "alloc_at p b n = Some (Ok (), q)" "pool_inv q" "admitted q = admitted p" "free_set q = free_set p - {b..<b + n}"
proof -
  have p: "pool_trees p" "free_frames p = card (free_set p)"
    using assms(1) unfolding pool_inv_def by blast+
  obtain q where q: "take_range p b (b + n) = Some q" "pool_trees q" "same_shape p q" "free_set q = free_set p - {b..<b + n}"
    using take_range_exact [OF p(1) assms(3)] .
  have "b + n < usize_bound"
    using managed_end [OF p(1) assms(2)] assms(3) free_set_managed by blast
  moreover have le: "n \<le> free_frames p"
    using card_mono [OF finite_free assms(3)] p(2) by simp
  ultimately have "alloc_at p b n = Some (Ok (), q\<lparr>free_frames := free_frames p - n\<rparr>)"
    using assms(2,3) q(1) range_is_free_exact [OF p(1), of b "b + n"] unfolding alloc_at_def by (simp add: usize_add_def usize_sub_def)
  moreover have "card (free_set q) = free_frames p - n"
    using q(4) card_Diff_subset [of "{b..<b + n}" "free_set p"] assms(3) p(2) by simp
  ultimately show ?thesis
    using that q(2-4) unfolding pool_inv_def same_shape_def by simp
qed

lemma alloc_at_refused:
  assumes "pool_inv p" "\<not> (0 < n \<and> {b..<b + n} \<subseteq> free_set p)"
  shows "alloc_at p b n = Some (Err Unavailable, p)"
proof -
  have p: "pool_trees p"
    using assms(1) unfolding pool_inv_def by blast
  show ?thesis
    using assms(2) range_is_free_exact [OF p, of b "b + n"] unfolding alloc_at_def
    by (auto simp: usize_add_def split: option.splits)
qed

lemma release_parts:
  assumes "pool_inv p" "0 < n" "{b..<b + n} \<subseteq> managed (admitted p) - free_set p"
  obtains q where "release_blocks p b (b + n) = Some q" "pool_inv (q\<lparr>free_frames := free_frames p + n\<rparr>)"
    "admitted q = admitted p" "free_set q = free_set p \<union> {b..<b + n}"
    "b + n < usize_bound" "free_frames p + n < usize_bound"
proof -
  have p: "pool_trees p" "free_frames p = card (free_set p)"
    using assms(1) unfolding pool_inv_def by blast+
  obtain q where q: "release_blocks p b (b + n) = Some q" "pool_trees q" "same_shape p q" "free_set q = free_set p \<union> {b..<b + n}"
    using release_blocks_exact [OF p(1) assms(3)] .
  have "b + n < usize_bound"
    using managed_end [OF p(1) assms(2)] assms(3) by blast
  moreover have sum: "card (free_set p \<union> {b..<b + n}) = free_frames p + n"
    using card_Un_disjoint [of "free_set p" "{b..<b + n}"] assms(3) p(2) by auto
  moreover have "card (free_set p \<union> {b..<b + n}) < usize_bound"
    by (rule managed_card [OF p(1)]) (use assms(3) free_set_managed [of p] in blast)
  ultimately show ?thesis
    using that q unfolding pool_inv_def same_shape_def by simp
qed

lemma dealloc_taken:
  assumes "pool_inv p" "0 < n" "{b..<b + n} \<subseteq> managed (admitted p) - free_set p"
  obtains q where "dealloc p b n = Some q" "pool_inv q" "admitted q = admitted p" "free_set q = free_set p \<union> {b..<b + n}"
proof -
  obtain q where q: "release_blocks p b (b + n) = Some q" "pool_inv (q\<lparr>free_frames := free_frames p + n\<rparr>)"
    "admitted q = admitted p" "free_set q = free_set p \<union> {b..<b + n}"
    "b + n < usize_bound" "free_frames p + n < usize_bound"
    using release_parts [OF assms] .
  have p: "pool_trees p"
    using assms(1) unfolding pool_inv_def by blast
  have "dealloc p b n = Some (q\<lparr>free_frames := free_frames p + n\<rparr>)"
    using assms(2,3) q range_is_managed_exact [OF p, of b "b + n"] range_is_unavailable_exact [OF p, of b "b + n"]
    unfolding dealloc_def by (auto simp: usize_add_def)
  then show ?thesis
    using that q by simp
qed

lemma dealloc_refused:
  assumes "pool_inv p" "\<not> (0 < n \<and> {b..<b + n} \<subseteq> managed (admitted p) - free_set p)"
  shows "dealloc p b n = None"
proof -
  have p: "pool_trees p"
    using assms(1) unfolding pool_inv_def by blast
  show ?thesis
    using assms(2) range_is_managed_exact [OF p, of b "b + n"] range_is_unavailable_exact [OF p, of b "b + n"]
    unfolding dealloc_def by (auto simp: usize_add_def)
qed

lemma release_range_taken:
  assumes "pool_inv p" "s < e" "{s..<e} \<subseteq> managed (admitted p) - free_set p"
  obtains q where "release_range p s e = Some (Ok (), q)" "pool_inv q" "admitted q = admitted p" "free_set q = free_set p \<union> {s..<e}"
proof -
  have e: "s + (e - s) = e" "0 < e - s"
    using assms(2) by simp_all
  obtain q where q: "release_blocks p s e = Some q" "pool_inv (q\<lparr>free_frames := free_frames p + (e - s)\<rparr>)"
    "admitted q = admitted p" "free_set q = free_set p \<union> {s..<e}" "free_frames p + (e - s) < usize_bound"
    using release_parts [OF assms(1) e(2), of s] assms(3) unfolding e(1) by blast
  have p: "pool_trees p"
    using assms(1) unfolding pool_inv_def by blast
  have "release_range p s e = Some (Ok (), q\<lparr>free_frames := free_frames p + (e - s)\<rparr>)"
    using assms(2,3) q range_is_managed_exact [OF p, of s e] range_is_unavailable_exact [OF p, of s e]
    unfolding release_range_def by (auto simp: usize_add_def)
  then show ?thesis
    using that q by simp
qed

lemma release_range_refused:
  assumes "pool_inv p" "\<not> (s < e \<and> {s..<e} \<subseteq> managed (admitted p) - free_set p)"
  shows "release_range p s e = Some (Err Unavailable, p)"
proof -
  have p: "pool_trees p"
    using assms(1) unfolding pool_inv_def by blast
  show ?thesis
    using assms(2) range_is_managed_exact [OF p, of s e] range_is_unavailable_exact [OF p, of s e]
    unfolding release_range_def by auto
qed

end
