(* ===== verification/Frame_Pool_System.thy ===== *)
theory Frame_Pool_System
  imports Frame_Pool_Props
begin

text \<open>
  The remaining operations of the frame pool (blocks of an order, the largest block, new regions), and the pool together with its
  owners: the extents handed out and not yet returned.
\<close>

section \<open>Blocks of an order\<close>

text \<open>An aligned block of free frames within one arena.\<close>

definition has_block :: "frame_pool \<Rightarrow> arena_metadata \<Rightarrow> nat \<Rightarrow> bool" where
  "has_block p a n \<longleftrightarrow> (\<exists>b. 2 ^ n dvd b \<and> block b n \<subseteq> arena_range a \<and> block b n \<subseteq> free_set p)"

lemma has_block_root:
  assumes "pool_trees p" "a \<in> set (admitted p)"
  shows "has_block p a n \<longleftrightarrow> state_available (tree p a 1) n"
proof -
  note ok = pool_arena [OF assms]
  have inv: "tinv (tree p a) (order a) 1"
    using ok unfolding arena_ok_def by blast
  show ?thesis
  proof
    assume "has_block p a n"
    then obtain b where b: "2 ^ n dvd b" "block b n \<subseteq> arena_range a" "block b n \<subseteq> free_set p"
      unfolding has_block_def by blast
    then have sub: "block b n \<subseteq> arena_free p a"
      using free_in_arena [OF assms] by blast
    obtain off where "b = base a + off" "2 ^ n dvd off"
      using block_offset [OF ok b(1,2)] by metis
    then show "state_available (tree p a 1) n"
      using tree_block_below [OF inv, of n off "base a"] sub unfolding state_available_def by simp
  next
    assume "state_available (tree p a 1) n"
    then have s: "tree p a 1 \<noteq> UNAVAILABLE" "n \<le> tree p a 1"
      unfolding state_available_def by auto
    have w: "windowed p a" "base a + 2 ^ order a < usize_bound" "2 ^ order a dvd base a"
      using ok unfolding arena_ok_def by blast+
    obtain off where off: "2 ^ n dvd off" "n \<le> order a" "block (base a + off) n \<subseteq> arena_free p a"
      using take_any_edit [OF w(1) inv s w(2)] by metis
    have "2 ^ n dvd base a + off"
      using off(1,2) w(3) by (meson dvd_add dvd_trans le_imp_power_dvd)
    moreover have "block (base a + off) n \<subseteq> arena_range a" "block (base a + off) n \<subseteq> free_set p"
      using off(3) tfree_bounds [of "tree p a" "order a" 1 "base a"] assms(2) unfolding free_set_def by blast+
    ultimately show "has_block p a n"
      unfolding has_block_def by blast
  qed
qed

lemma root_state: "pool_trees p \<Longrightarrow> a \<in> set (admitted p) \<Longrightarrow> state p a 1 = Some (tree p a 1)"
  using tree_window_state [OF _ level_root] pool_arena [of p a] unfolding arena_ok_def by blast

lemma take_any_exact:
  assumes "pool_trees p" "a \<in> set (admitted p)" "has_block p a n"
  obtains b q where "take_any p a n = Some (b, q)" "2 ^ n dvd b" "block b n \<subseteq> arena_range a" "block b n \<subseteq> free_set p"
    "pool_trees q" "same_shape p q" "free_set q = free_set p - block b n"
proof -
  note ok = pool_arena [OF assms(1,2)]
  have w: "windowed p a" "base a + 2 ^ order a < usize_bound" "2 ^ order a dvd base a" "tinv (tree p a) (order a) 1"
    using ok unfolding arena_ok_def by blast+
  have s: "tree p a 1 \<noteq> UNAVAILABLE" "n \<le> tree p a 1"
    using has_block_root [OF assms(1,2)] assms(3) unfolding state_available_def by auto
  obtain off where off: "off < 2 ^ order a" "2 ^ n dvd off" "n \<le> order a" "block (base a + off) n \<subseteq> arena_free p a"
    "take_any p a n = Some (base a + off, put p a (edit (tree p a) off n UNAVAILABLE 1 (order a)))"
    using take_any_edit [OF w(1,4) s w(2)] .
  have b: "2 ^ n dvd base a + off" "block (base a + off) n \<subseteq> arena_range a" "block (base a + off) n \<subseteq> free_set p"
    using off(2-4) w(3) tfree_bounds [of "tree p a" "order a" 1 "base a"] assms(2) unfolding free_set_def
    by (meson dvd_add dvd_trans le_imp_power_dvd, blast+)
  have "x \<in> free_set p \<longleftrightarrow> True" if "x \<in> block (base a + off) n" for x
    using that b(3) by blast
  then obtain q where q: "block_op True p a (base a + off, n) = Some q" "pool_trees q" "same_shape p q"
    "free_set q = free_set p - block (base a + off) n"
    using block_op_exact [OF assms(1,2) b(1,2), of True] unfolding flipped_def if_True by blast
  have "base a + off < usize_bound"
    using off(1) w(2) by linarith
  then have "take_at_block p a (base a + off) n = Some (put p a (edit (tree p a) off n UNAVAILABLE 1 (order a)))"
    using take_at_block_edit [OF w(1,4) off(3,2,1) refl _ off(4)] by blast
  then have "take_any p a n = Some (base a + off, q)"
    using q(1) off(5) unfolding block_op_def by simp
  then show ?thesis
    using that b q(2-4) by blast
qed

text \<open>A block leaves the pool: the counter follows.\<close>

lemma block_counted:
  assumes "pool_inv p" "block b n \<subseteq> free_set p" "pool_trees q" "free_set q = free_set p - block b n"
  shows "2 ^ n \<le> free_frames p" "pool_inv (q\<lparr>free_frames := free_frames p - 2 ^ n\<rparr>)"
proof -
  have p: "free_frames p = card (free_set p)"
    using assms(1) unfolding pool_inv_def by blast
  show "2 ^ n \<le> free_frames p"
    using card_mono [OF finite_free assms(2)] p by simp
  show "pool_inv (q\<lparr>free_frames := free_frames p - 2 ^ n\<rparr>)"
    using card_Diff_subset [of "block b n" "free_set p"] assms(2-4) p unfolding pool_inv_def by simp
qed

lemma find_available_exact:
  assumes "pool_trees p" "set as \<subseteq> set (admitted p)"
  shows "(\<exists>a \<in> set as. has_block p a n \<and> find_available p n as = Some (Some a)) \<or>
    ((\<forall>a \<in> set as. \<not> has_block p a n) \<and> find_available p n as = Some None)"
  using assms(2)
proof (induction as)
  case (Cons a as)
  then have a: "a \<in> set (admitted p)" and as: "set as \<subseteq> set (admitted p)"
    by auto
  have "state_available (tree p a 1) n \<Longrightarrow> n \<le> order a"
    using pool_arena [OF assms(1) a] tinv_le [of "tree p a" "order a" 1] unfolding arena_ok_def state_available_def by auto
  then show ?case
    using Cons.IH [OF as] root_state [OF assms(1) a] has_block_root [OF assms(1) a, of n] by auto
qed simp

lemma has_block_small: "pool_trees p \<Longrightarrow> a \<in> set (admitted p) \<Longrightarrow> has_block p a n \<Longrightarrow> order_size n = Some (2 ^ n)"
proof -
  assume a: "pool_trees p" "a \<in> set (admitted p)" "has_block p a n"
  then obtain b where "2 ^ n dvd b" "block b n \<subseteq> arena_range a"
    unfolding has_block_def by blast
  then have "n \<le> order a"
    using block_offset [OF pool_arena [OF a(1,2)]] by metis
  then have "n < 64"
    using pool_arena [OF a(1,2)] unfolding arena_ok_def windowed_def by linarith
  then show ?thesis
    unfolding order_size_def Let_def by simp
qed

lemma alloc_order_found:
  assumes "pool_inv p" "a \<in> set (admitted p)" "has_block p a n"
  obtains b q where "alloc_order p n = Some (Some b, q)" "2 ^ n dvd b" "block b n \<subseteq> free_set p" "pool_inv q"
    "admitted q = admitted p" "free_set q = free_set p - block b n"
proof -
  have p: "pool_trees p"
    using assms(1) unfolding pool_inv_def by blast
  obtain c where c: "c \<in> set (admitted p)" "has_block p c n" "find_available p n (admitted p) = Some (Some c)"
    using find_available_exact [OF p subset_refl, of n] assms(2,3) by blast
  obtain b q where q: "take_any p c n = Some (b, q)" "2 ^ n dvd b" "block b n \<subseteq> free_set p" "pool_trees q" "same_shape p q"
      "free_set q = free_set p - block b n"
    using take_any_exact [OF p c(1,2)] by metis
  note cnt = block_counted [OF assms(1) q(3,4,6)]
  have "alloc_order p n = Some (Some b, q\<lparr>free_frames := free_frames p - 2 ^ n\<rparr>)"
    using c(3) q(1) cnt(1) has_block_small [OF p c(1,2)] unfolding alloc_order_def by (simp add: usize_sub_def)
  then show ?thesis
    using that q cnt(2) unfolding same_shape_def by simp
qed

lemma alloc_order_none:
  assumes "pool_inv p" "\<forall>a \<in> set (admitted p). \<not> has_block p a n"
  shows "alloc_order p n = Some (None, p)"
  using find_available_exact [OF _ subset_refl, of p n] assms unfolding alloc_order_def pool_inv_def
  by (auto split: option.splits)

section \<open>The largest block\<close>

text \<open>What one arena can provide, capped at the requested order.\<close>

definition offers :: "frame_pool \<Rightarrow> nat \<Rightarrow> arena_metadata \<Rightarrow> nat \<Rightarrow> bool" where
  "offers p requested a n \<longleftrightarrow> n \<le> requested \<and> has_block p a n"

definition best_of :: "frame_pool \<Rightarrow> nat \<Rightarrow> arena_metadata list \<Rightarrow> (arena_metadata \<times> nat) option \<Rightarrow> (arena_metadata \<times> nat) option \<Rightarrow> bool" where
  "best_of p r as choice c \<longleftrightarrow> (case c of
     Some (a, n) \<Rightarrow> a \<in> set (admitted p) \<and> offers p r a n \<and>
        (\<forall>b \<in> set as. \<forall>m. offers p r b m \<longrightarrow> m \<le> n) \<and> (\<forall>b m. choice = Some (b, m) \<longrightarrow> m \<le> n)
   | None \<Rightarrow> choice = None \<and> (\<forall>b \<in> set as. \<forall>m. \<not> offers p r b m))"

lemma best_of_cons:
  assumes "best_of p r as (Some (c0, n0)) c" "\<And>m. offers p r a m \<Longrightarrow> m \<le> n0" "\<And>b m. choice = Some (b, m) \<Longrightarrow> m \<le> n0"
  shows "best_of p r (a # as) choice c"
proof -
  obtain d n where c: "c = Some (d, n)"
    using assms(1) unfolding best_of_def by (cases c) auto
  then have "d \<in> set (admitted p)" "offers p r d n" "\<forall>b \<in> set as. \<forall>m. offers p r b m \<longrightarrow> m \<le> n" "n0 \<le> n"
    using assms(1) unfolding best_of_def by auto
  moreover have "m \<le> n" if "offers p r a m" for m
    using assms(2) [OF that] \<open>n0 \<le> n\<close> by simp
  moreover have "m \<le> n" if "choice = Some (b, m)" for b m
    using assms(3) [OF that] \<open>n0 \<le> n\<close> by simp
  ultimately show ?thesis
    unfolding best_of_def c by simp
qed

lemma find_largest_exact:
  assumes "pool_trees p" "set as \<subseteq> set (admitted p)"
    "\<And>a n. choice = Some (a, n) \<Longrightarrow> a \<in> set (admitted p) \<and> offers p r a n"
  shows "\<exists>c. find_largest p r as choice = Some c \<and> best_of p r as choice c"
  using assms(2,3)
proof (induction as arbitrary: choice)
  case Nil
  then show ?case by (cases choice) (auto simp: best_of_def)
next
  case (Cons a as)
  have a: "a \<in> set (admitted p)" and as: "set as \<subseteq> set (admitted p)"
    using Cons.prems(1) by auto
  define s where "s = tree p a 1"
  have off: "offers p r a m \<longleftrightarrow> s \<noteq> UNAVAILABLE \<and> m \<le> min s r" for m
    using has_block_root [OF assms(1) a, of m] unfolding offers_def s_def state_available_def by auto
  have st: "state p a 1 = Some s"
    unfolding s_def by (rule root_state [OF assms(1) a])
  show ?case
  proof (cases "s = UNAVAILABLE")
    case True
    then have "best_of p r (a # as) choice = best_of p r as choice"
      using off unfolding best_of_def by (simp add: fun_eq_iff split: option.split)
    then show ?thesis
      using Cons.IH [of choice, OF as Cons.prems(2)] True st by simp
  next
    case False
    define ch where "ch = (case choice of None \<Rightarrow> Some (a, min s r)
      | Some (b, best) \<Rightarrow> if min s r > best then Some (a, min s r) else choice)"
    have "find_largest p r (a # as) choice = find_largest p r as ch"
      using False st unfolding ch_def by (simp add: Let_def split_beta)
    moreover have ok: "c \<in> set (admitted p) \<and> offers p r c m" if "ch = Some (c, m)" for c m
    proof -
      have "(c, m) = (a, min s r) \<or> choice = Some (c, m)"
        using that unfolding ch_def by (cases choice) (auto split: if_splits)
      then show ?thesis
        using off [of "min s r"] a False Cons.prems(2) by blast
    qed
    moreover obtain c0 n0 where ch: "ch = Some (c0, n0)" "min s r \<le> n0" "\<And>b m. choice = Some (b, m) \<Longrightarrow> m \<le> n0"
    proof (cases choice)
      case None
      then show ?thesis
        using that [of a "min s r"] unfolding ch_def by simp
    next
      case (Some x)
      obtain d best where x: "x = (d, best)"
        by (cases x)
      show ?thesis
      proof (cases "best < min s r")
        case True
        then have "ch = Some (a, min s r)"
          unfolding ch_def Some x by simp
        then show ?thesis
          using that True Some x by auto
      next
        case False
        then have "ch = Some (d, best)"
          unfolding ch_def Some x option.case prod.case by auto
        then show ?thesis
          using that False Some x by auto
      qed
    qed
    moreover obtain c where "find_largest p r as ch = Some c" "best_of p r as ch c"
      using Cons.IH [OF as ok] by blast
    moreover have "m \<le> n0" if "offers p r a m" for m
      using that off ch(2) by (meson order.trans)
    ultimately show ?thesis
      using best_of_cons [of p r as c0 n0 c a choice] by auto
  qed
qed

lemma alloc_largest_found:
  assumes "pool_inv p" "0 < max_count" "free_set p \<noteq> {}"
  obtains b n q where "alloc_largest p max_count = Some (Some (b, 2 ^ n), q)" "2 ^ n \<le> max_count" "2 ^ n dvd b"
    "block b n \<subseteq> free_set p" "pool_inv q" "admitted q = admitted p" "free_set q = free_set p - block b n"
    "\<forall>a \<in> set (admitted p). \<forall>m. 2 ^ m \<le> max_count \<longrightarrow> has_block p a m \<longrightarrow> m \<le> n"
proof -
  have p: "pool_trees p"
    using assms(1) unfolding pool_inv_def by blast
  define r where "r = floor_order max_count"
  have fl: "m \<le> r \<longleftrightarrow> 2 ^ m \<le> max_count" for m
  proof -
    have "m \<le> r \<Longrightarrow> 2 ^ m \<le> (2::nat) ^ r" "2 ^ m < (2::nat) ^ Suc r \<Longrightarrow> m \<le> r"
      using power_increasing [of m r "2::nat"] power_less_imp_less_exp [of "2::nat" m "Suc r"] by simp_all
    then show ?thesis
      using floor_order_le [OF assms(2)] unfolding r_def by linarith
  qed
  obtain x a where x: "x \<in> free_set p" "a \<in> set (admitted p)" "x \<in> arena_free p a"
    using assms(3) unfolding free_set_def by blast
  then have "x \<in> arena_range a"
    using tfree_bounds by blast
  then have "has_block p a 0"
    using x(1) unfolding has_block_def by (intro exI [of _ x]) auto
  then have "offers p r a 0"
    unfolding offers_def by simp
  then obtain c n where c: "find_largest p r (admitted p) None = Some (Some (c, n))" "c \<in> set (admitted p)" "offers p r c n"
    "\<forall>b \<in> set (admitted p). \<forall>m. offers p r b m \<longrightarrow> m \<le> n"
    using find_largest_exact [OF p subset_refl, of None r] x(2) unfolding best_of_def by (auto split: option.splits)
  have hb: "has_block p c n" "2 ^ n \<le> max_count"
    using c(3) fl unfolding offers_def by blast+
  obtain b q where q: "take_any p c n = Some (b, q)" "2 ^ n dvd b" "block b n \<subseteq> free_set p" "pool_trees q" "same_shape p q"
      "free_set q = free_set p - block b n"
    using take_any_exact [OF p c(2) hb(1)] by metis
  note cnt = block_counted [OF assms(1) q(3,4,6)]
  have "alloc_largest p max_count = Some (Some (b, 2 ^ n), q\<lparr>free_frames := free_frames p - 2 ^ n\<rparr>)"
    using c(1) q(1) cnt(1) has_block_small [OF p c(2) hb(1)] assms(2) unfolding alloc_largest_def r_def
    by (simp add: usize_sub_def)
  moreover have "\<forall>a \<in> set (admitted p). \<forall>m. 2 ^ m \<le> max_count \<longrightarrow> has_block p a m \<longrightarrow> m \<le> n"
    using c(4) fl unfolding offers_def by blast
  ultimately show ?thesis
    using that q cnt(2) hb(2) unfolding same_shape_def by simp
qed

lemma alloc_largest_none:
  assumes "pool_inv p" "max_count = 0 \<or> free_set p = {}"
  shows "alloc_largest p max_count = Some (None, p)"
proof (cases "max_count = 0")
  case False
  then have "\<not> has_block p a m" for a m
    using assms(2) unfolding has_block_def by auto
  then have no: "\<not> offers p r a m" for r a m
    unfolding offers_def by blast
  have "pool_trees p"
    using assms(1) unfolding pool_inv_def by blast
  then obtain c where "find_largest p (floor_order max_count) (admitted p) None = Some c"
    "best_of p (floor_order max_count) (admitted p) None c"
    using find_largest_exact [OF _ subset_refl, of p None "floor_order max_count"] by blast
  then have "find_largest p (floor_order max_count) (admitted p) None = Some None"
    using no unfolding best_of_def by (auto split: option.splits)
  then show ?thesis
    using False unfolding alloc_largest_def by simp
qed (simp add: alloc_largest_def)

section \<open>New regions\<close>

lemma for_each_block_length: "length (for_each_block s e) \<le> e - s"
proof (induction "e - s" arbitrary: s rule: less_induct)
  case less
  show ?case
  proof (cases "s < e")
    case True
    obtain n where n: "for_each_block s e = (s, n) # for_each_block (s + 2 ^ n) e" "s + 2 ^ n \<le> e"
      using for_each_block_rec [OF True] by metis
    have "0 < (2::nat) ^ n"
      by simp
    then have "e - (s + 2 ^ n) < e - s"
      using True by linarith
    then show ?thesis
      using less [of "s + 2 ^ n"] unfolding n(1) by simp
  next
    case False
    then show ?thesis
      by (simp add: for_each_block.simps [of s e])
  qed
qed

lemma block_count_exact:
  assumes "e < usize_bound"
  shows "block_count s e = Some (length (for_each_block s e))"
proof -
  have "c + length xs < usize_bound \<Longrightarrow>
      fold (\<lambda>_ c. Option.bind c (\<lambda>n. usize_add n 1)) xs (Some c) = Some (c + length xs)" for xs :: "(nat \<times> nat) list" and c
    by (induction xs arbitrary: c) (simp_all add: usize_add_def)
  from this [of 0] show ?thesis
    using for_each_block_length [of s e] assms unfolding block_count_def by simp
qed

lemma overlaps_any_exact:
  assumes "\<And>a. a \<in> set as \<Longrightarrow> arena_end a = Some (base a + 2 ^ order a)" "s < e"
  shows "overlaps_any as s e = Some ({s..<e} \<inter> managed as \<noteq> {})"
  using assms(1)
proof (induction as)
  case (Cons a as)
  have "(s < base a + 2 ^ order a \<and> base a < e) \<longleftrightarrow> {s..<e} \<inter> arena_range a \<noteq> {}"
  proof
    assume "s < base a + 2 ^ order a \<and> base a < e"
    then have "max s (base a) \<in> {s..<e} \<inter> arena_range a"
      using assms(2) by auto
    then show "{s..<e} \<inter> arena_range a \<noteq> {}"
      by blast
  qed (auto simp: disjoint_iff)
  moreover have "{s..<e} \<inter> managed (a # as) \<noteq> {} \<longleftrightarrow> {s..<e} \<inter> arena_range a \<noteq> {} \<or> {s..<e} \<inter> managed as \<noteq> {}"
    unfolding managed_def by (simp add: Int_Un_distrib)
  moreover have "arena_end a = Some (base a + 2 ^ order a)" "overlaps_any as s e = Some ({s..<e} \<inter> managed as \<noteq> {})"
    using Cons by simp_all
  ultimately show ?case
    by (simp del: Int_atLeastLessThan)
qed (simp add: managed_def)

text \<open>Admitting one arena.\<close>

definition grown :: "frame_pool \<Rightarrow> frame_pool \<Rightarrow> nat \<Rightarrow> nat \<Rightarrow> bool" where
  "grown p q s e \<longleftrightarrow> managed (admitted q) = managed (admitted p) \<union> {s..<e} \<and> free_set q = free_set p \<and>
     free_frames q = free_frames p \<and> length (arenas q) = length (arenas p) \<and> length (metadata q) = length (metadata p) \<and>
     metadata_used q = metadata_used p + 2 * (e - s)"

lemma add_arena_exact:
  assumes "pool_trees p" "2 ^ n dvd b" "b + 2 ^ n < usize_bound" "block b n \<inter> managed (admitted p) = {}"
    "metadata_used p + 2 * 2 ^ n \<le> length (metadata p)" "arena_count p < length (arenas p)"
  obtains q where "add_arena p (b, n) = Some q" "pool_trees q" "grown p q b (b + 2 ^ n)" "arena_count q = arena_count p + 1"
    "admitted q = admitted p @ [\<lparr>base = b, metadata_start = metadata_used p, order = n\<rparr>]"
proof -
  have "2 ^ n < (2::nat) ^ 64"
    using assms(3) by linarith
  then have n: "n < 64"
    using power_less_imp_less_exp [of "2::nat" n 64] by simp
  have len: "length (metadata p) < usize_bound"
    using assms(1) unfolding pool_trees_def by blast
  define a where "a = \<lparr>base = b, metadata_start = metadata_used p, order = n\<rparr>"
  define md where "md = take (metadata_used p) (metadata p) @ replicate (2 * 2 ^ n) UNAVAILABLE @
    drop (metadata_used p + 2 * 2 ^ n) (metadata p)"
  define q where "q = p\<lparr>metadata := md, metadata_used := metadata_used p + 2 * 2 ^ n,
    arenas := (arenas p)[arena_count p := a], arena_count := arena_count p + 1\<rparr>"
  have "as_u8 n = n" "metadata_len a = Some (2 * 2 ^ n)"
    using n assms(5) len unfolding as_u8_def metadata_len_def arena_frames_def order_size_def metadata_bytes_def a_def
    by (simp_all add: usize_mul_def Let_def mult.commute)
  then have add: "add_arena p (b, n) = Some q"
    using assms(5,6) len unfolding add_arena_def q_def md_def a_def by (simp add: usize_add_def Let_def)
  have adm: "admitted q = admitted p @ [a]"
    using assms(6) unfolding admitted_def q_def by (simp add: take_Suc_conv_app_nth)
  have sel: "metadata q = md" "metadata_used q = metadata_used p + 2 * 2 ^ n" "length md = length (metadata p)"
    "length (arenas q) = length (arenas p)" "arena_count q = arena_count p + 1" "free_frames q = free_frames p"
    using assms(5) unfolding q_def md_def by simp_all
  have below: "tree q c v = tree p c v" if "metadata_start c + 2 ^ Suc (order c) \<le> metadata_used p" "v < 2 ^ Suc (order c)" for c v
    using that assms(5) unfolding tree_def sel(1) md_def by (simp add: nth_append)
  have old: "arena_ok q c" "arena_free q c = arena_free p c" if "c \<in> set (admitted p)" for c
  proof -
    have c: "arena_ok p c"
      by (rule pool_arena [OF assms(1) that])
    then have "tree q c w = tree p c w" if "w \<in> sub (order c) 1" for w
      using below sub_root [OF that] unfolding arena_ok_def by blast
    then show "arena_free q c = arena_free p c" "arena_ok q c"
      using tinv_cong [of "order c" 1 "tree q c" "tree p c"] tfree_cong [of "order c" 1 "tree q c" "tree p c"] c sel
      unfolding arena_ok_def windowed_def by auto
  qed
  have "Suc 0 < 2 * 2 ^ n"
    by (rule less_le_trans [of _ "2 * 1"]) simp_all
  then have "tree q a 1 = UNAVAILABLE"
    using assms(5) unfolding tree_def sel(1) md_def a_def by (simp add: nth_append)
  then have new: "arena_ok q a" "arena_free q a = {}"
    using assms(2,3,5) n sel tinv_leaf [of "tree q a" 1] unfolding arena_ok_def windowed_def a_def by simp_all
  have "apart c a" if "c \<in> set (admitted p)" for c
  proof -
    have "arena_range c \<inter> block b n = {}"
      using assms(4) that unfolding managed_def by blast
    then show ?thesis
      using pool_arena [OF assms(1) that] unfolding apart_def arena_ok_def by (simp add: a_def del: Int_atLeastLessThan)
  qed
  then have "pool_trees q"
    using assms(1,5,6) old(1) new(1) sel unfolding pool_trees_def adm by (auto simp: sorted_wrt_append)
  moreover have "grown p q b (b + 2 ^ n)"
    using old(2) new(2) sel unfolding grown_def managed_def free_set_def adm by (simp add: a_def Un_commute)
  ultimately show ?thesis
    using that add adm sel(5) unfolding a_def by simp
qed

text \<open>Admitting all blocks of a region.\<close>

lemma add_arenas_exact:
  assumes "pool_trees p" "s \<le> e" "e < usize_bound" "{s..<e} \<inter> managed (admitted p) = {}"
    "metadata_used p + 2 * (e - s) \<le> length (metadata p)"
    "arena_count p + length (for_each_block s e) \<le> length (arenas p)"
  shows "\<exists>q. each_block add_arena (for_each_block s e) p = Some q \<and> pool_trees q \<and> grown p q s e \<and>
    arena_count q = arena_count p + length (for_each_block s e)"
  using assms
proof (induction "e - s" arbitrary: s p rule: less_induct)
  case less
  show ?case
  proof (cases "s < e")
    case True
    obtain n where n: "for_each_block s e = (s, n) # for_each_block (s + 2 ^ n) e" "2 ^ n dvd s" "s + 2 ^ n \<le> e"
      using for_each_block_rec [OF True] .
    have pos: "0 < (2::nat) ^ n"
      by simp
    have cover: "{s..<e} = block s n \<union> {s + 2 ^ n..<e}"
      using n(3) by auto
    have small: "s + 2 ^ n < usize_bound" "metadata_used p + 2 * 2 ^ n \<le> length (metadata p)" "arena_count p < length (arenas p)"
      using n(3) less(4,6,7) unfolding n(1) by simp_all
    have "block s n \<inter> managed (admitted p) = {}"
      using less(5) unfolding cover by blast
    from add_arena_exact [OF less(2) n(2) small(1) this small(2,3)]
    obtain q where q: "add_arena p (s, n) = Some q" "pool_trees q" "grown p q s (s + 2 ^ n)" "arena_count q = arena_count p + 1"
      by metis
    have fresh: "{s + 2 ^ n..<e} \<inter> managed (admitted q) = {}"
      using q(3) less(5) unfolding grown_def cover by auto
    have room: "metadata_used q + 2 * (e - (s + 2 ^ n)) \<le> length (metadata q)"
      "arena_count q + length (for_each_block (s + 2 ^ n) e) \<le> length (arenas q)"
      using q(3,4) less(6,7) n(3) unfolding grown_def n(1) by auto
    have shorter: "e - (s + 2 ^ n) < e - s"
      using True pos by linarith
    obtain r where r: "each_block add_arena (for_each_block (s + 2 ^ n) e) q = Some r" "pool_trees r" "grown q r (s + 2 ^ n) e"
      "arena_count r = arena_count q + length (for_each_block (s + 2 ^ n) e)"
      using less(1) [OF shorter q(2) n(3) less(4) fresh room] by blast
    have "grown p r s e"
      using q(3) r(3) n(3) unfolding grown_def cover by auto
    then show ?thesis
      using q(1,4) r(1,2,4) unfolding n(1) by simp
  next
    case False
    then have "for_each_block s e = []"
      by (simp add: for_each_block.simps [of s e])
    then show ?thesis
      using less(2,3) False by (auto simp: grown_def)
  qed
qed

text \<open>The outcome of \<open>add_managed_region\<close>, in the order the code tests.\<close>

definition region_error :: "frame_pool \<Rightarrow> nat \<Rightarrow> nat \<Rightarrow> add_region_error option" where
  "region_error p s e =
     (if e \<le> s then Some InvalidRange
      else if {s..<e} \<inter> managed (admitted p) \<noteq> {} then Some Overlap
      else if arena_count p + length (for_each_block s e) > length (arenas p) then Some ArenaLimit
      else if metadata_used p + 2 * (e - s) > length (metadata p) then Some MetadataExhausted
      else None)"

lemma add_managed_region_exact:
  assumes "pool_inv p" "e < usize_bound"
  shows "(\<exists>x. region_error p s e = Some x \<and> add_managed_region p s e = Some (Err x, p)) \<or>
    (region_error p s e = None \<and> (\<exists>q. add_managed_region p s e = Some (Ok (), q) \<and> pool_inv q \<and> grown p q s e \<and>
      arena_count q = arena_count p + length (for_each_block s e)))"
proof (cases "s < e")
  case True
  have p: "pool_trees p"
    using assms(1) unfolding pool_inv_def by blast
  have ov: "overlaps_any (admitted p) s e = Some ({s..<e} \<inter> managed (admitted p) \<noteq> {})"
    by (rule overlaps_any_exact [OF _ True]) (rule pool_arena_end [OF p])
  note cnt = block_count_exact [OF assms(2), of s]
  have caps: "length (metadata p) < usize_bound" "length (arenas p) \<le> MAX_ARENAS" "metadata_used p \<le> length (metadata p)"
    using p unfolding pool_trees_def by blast+
  have md: "Option.bind (metadata_bytes (e - s)) (usize_add (metadata_used p)) =
      (if metadata_used p + 2 * (e - s) < usize_bound then Some (metadata_used p + 2 * (e - s)) else None)"
    unfolding metadata_bytes_def by (simp add: usize_mul_def usize_add_def mult.commute)
  have eq: "add_managed_region p s e =
      (if {s..<e} \<inter> managed (admitted p) \<noteq> {} then Some (Err Overlap, p)
       else if arena_count p + length (for_each_block s e) > length (arenas p) then Some (Err ArenaLimit, p)
       else if metadata_used p + 2 * (e - s) > length (metadata p) then Some (Err MetadataExhausted, p)
       else map_option (\<lambda>p'. (Ok (), p')) (each_block add_arena (for_each_block s e) p))"
    using True caps unfolding add_managed_region_def ov cnt md MAX_ARENAS_def
    by (simp add: usize_add_def split: option.split del: Int_atLeastLessThan)
  show ?thesis
  proof (cases "region_error p s e")
    case None
    then have none: "{s..<e} \<inter> managed (admitted p) = {}" "arena_count p + length (for_each_block s e) \<le> length (arenas p)"
      "metadata_used p + 2 * (e - s) \<le> length (metadata p)"
      unfolding region_error_def by (auto split: if_splits simp del: Int_atLeastLessThan)
    obtain q where q: "each_block add_arena (for_each_block s e) p = Some q" "pool_trees q" "grown p q s e"
      "arena_count q = arena_count p + length (for_each_block s e)"
      using add_arenas_exact [OF p less_imp_le [OF True] assms(2) none(1,3,2)] by blast
    have "pool_inv q"
      using assms(1) q(2,3) unfolding pool_inv_def grown_def by simp
    then show ?thesis
      using None q none unfolding eq by (simp del: Int_atLeastLessThan)
  next
    case (Some x)
    then show ?thesis
      using True unfolding eq region_error_def by (simp split: if_splits del: Int_atLeastLessThan)
  qed
next
  case False
  then show ?thesis
    unfolding add_managed_region_def region_error_def by simp
qed

end
