(* ===== verification/Frame_Inventory.thy ===== *)
theory Frame_Inventory
  imports Frame_Pool_System
begin

text \<open>
  The frame pool as its callers see it: an inventory of frames from which extents are granted and to which they return. The contract
  is a locale, the pool interprets it, and the properties of the pool follow.
\<close>

section \<open>The contract\<close>

text \<open>
  \<open>grants s b n t\<close>: some allocation in state \<open>s\<close> hands out the extent \<open>[b, b + n)\<close> and leaves \<open>t\<close>. \<open>returns\<close> takes an extent back.
\<close>

locale frame_inventory =
  fixes ok :: "'s \<Rightarrow> bool"
    and managed_of :: "'s \<Rightarrow> nat set"
    and free_of :: "'s \<Rightarrow> nat set"
    and grants :: "'s \<Rightarrow> nat \<Rightarrow> nat \<Rightarrow> 's \<Rightarrow> bool"
    and returns :: "'s \<Rightarrow> nat \<Rightarrow> nat \<Rightarrow> 's option"
  assumes grant_free: "ok s \<Longrightarrow> grants s b n t \<Longrightarrow>
      ok t \<and> 0 < n \<and> {b..<b + n} \<subseteq> free_of s \<and> free_of t = free_of s - {b..<b + n} \<and> managed_of t = managed_of s"
    and return_taken: "ok s \<Longrightarrow> 0 < n \<Longrightarrow> {b..<b + n} \<subseteq> managed_of s - free_of s \<Longrightarrow>
      \<exists>t. returns s b n = Some t \<and> ok t \<and> free_of t = free_of s \<union> {b..<b + n} \<and> managed_of t = managed_of s"
    and free_managed: "ok s \<Longrightarrow> free_of s \<subseteq> managed_of s"
begin

definition owned :: "(nat \<times> nat) list \<Rightarrow> nat set" where
  "owned xs = (\<Union>(b, n) \<in> set xs. {b..<b + n})"

text \<open>The extents held are non-empty, pairwise disjoint and apart from the free frames, and nothing managed is lost.\<close>

definition holds :: "nat set \<Rightarrow> 's \<times> (nat \<times> nat) list \<Rightarrow> bool" where
  "holds rest x \<longleftrightarrow> ok (fst x) \<and> (\<forall>(b, n) \<in> set (snd x). 0 < n) \<and>
     sorted_wrt (\<lambda>(b, n) (c, m). {b..<b + n} \<inter> {c..<c + m} = {}) (snd x) \<and>
     owned (snd x) \<inter> (free_of (fst x) \<union> rest) = {} \<and>
     free_of (fst x) \<inter> rest = {} \<and> managed_of (fst x) = free_of (fst x) \<union> owned (snd x) \<union> rest"

lemma holds_grant:
  assumes "holds rest (s, xs)" "grants s b n t"
  shows "holds rest (t, (b, n) # xs)"
proof -
  have t: "ok t" "0 < n" "{b..<b + n} \<subseteq> free_of s" "free_of t = free_of s - {b..<b + n}" "managed_of t = managed_of s"
    using grant_free [OF _ assms(2)] assms(1) unfolding holds_def by auto
  have "{b..<b + n} \<inter> {c..<c + m} = {}" if "(c, m) \<in> set xs" for c m
    using t(3) that assms(1) unfolding holds_def owned_def by fastforce
  then have "sorted_wrt (\<lambda>(b, n) (c, m). {b..<b + n} \<inter> {c..<c + m} = {}) ((b, n) # xs)"
    using assms(1) unfolding holds_def by auto
  moreover have "owned ((b, n) # xs) = {b..<b + n} \<union> owned xs"
    unfolding owned_def by auto
  ultimately show ?thesis
    using assms(1) t unfolding holds_def fst_conv snd_conv by auto
qed

lemma owned_remove:
  assumes "sorted_wrt (\<lambda>(b, n) (c, m). {b..<b + n} \<inter> {c..<c + m} = {}) xs" "(b, n) \<in> set xs" "0 < n"
  shows "owned (remove1 (b, n) xs) = owned xs - {b..<b + n}"
  using assms(1,2)
proof (induction xs)
  case (Cons x xs)
  obtain c m where x: "x = (c, m)"
    by (cases x)
  have away: "{c..<c + m} \<inter> owned xs = {}"
    using Cons.prems(1) unfolding x owned_def by auto
  show ?case
  proof (cases "x = (b, n)")
    case True
    then show ?thesis
      using away unfolding x owned_def by auto
  next
    case False
    then have "(b, n) \<in> set xs"
      using Cons.prems(2) by simp
    then have "{b..<b + n} \<subseteq> owned xs"
      unfolding owned_def by auto
    then have "{c..<c + m} \<inter> {b..<b + n} = {}"
      using away by blast
    moreover have "owned (remove1 (b, n) xs) = owned xs - {b..<b + n}"
      using Cons \<open>(b, n) \<in> set xs\<close> by simp
    moreover have "owned (y # ys) = {fst y..<fst y + snd y} \<union> owned ys" for y ys
      unfolding owned_def by (cases y) simp
    ultimately show ?thesis
      using False by (auto simp: x)
  qed
qed simp

lemma holds_return:
  assumes "holds rest (s, xs)" "(b, n) \<in> set xs"
  shows "\<exists>t. returns s b n = Some t \<and> holds rest (t, remove1 (b, n) xs)"
proof -
  have oks: "ok s" and n: "0 < n" and sub: "{b..<b + n} \<subseteq> owned xs"
    and sw: "sorted_wrt (\<lambda>(b, n) (c, m). {b..<b + n} \<inter> {c..<c + m} = {}) xs"
    using assms unfolding holds_def owned_def by auto
  have "{b..<b + n} \<subseteq> managed_of s - free_of s"
    using sub assms(1) unfolding holds_def by auto
  then obtain t where t: "returns s b n = Some t" "ok t" "free_of t = free_of s \<union> {b..<b + n}" "managed_of t = managed_of s"
    using return_taken [OF oks n] by blast
  have "sorted_wrt (\<lambda>(b, n) (c, m). {b..<b + n} \<inter> {c..<c + m} = {}) (remove1 (b, n) xs)"
    using sw by (induction xs) (auto dest: subsetD [OF set_remove1_subset])
  moreover note owned_remove [OF sw assms(2) n]
  moreover have "set (remove1 (b, n) xs) \<subseteq> set xs"
    by (rule set_remove1_subset)
  ultimately have "holds rest (t, remove1 (b, n) xs)"
    using assms(1) t(2-4) sub unfolding holds_def fst_conv snd_conv by auto
  then show ?thesis
    using t(1) by blast
qed

end

section \<open>The pool is an inventory\<close>

inductive granted :: "frame_pool \<Rightarrow> nat \<Rightarrow> nat \<Rightarrow> frame_pool \<Rightarrow> bool" where
  order: "alloc_order p k = Some (Some b, q) \<Longrightarrow> granted p b (2 ^ k) q"
| largest: "alloc_largest p max_count = Some (Some (b, n), q) \<Longrightarrow> granted p b n q"
| exact: "alloc_at p b n = Some (Ok (), q) \<Longrightarrow> granted p b n q"

abbreviation pool_managed :: "frame_pool \<Rightarrow> nat set" where
  "pool_managed p \<equiv> managed (admitted p)"

lemma alloc_at_OkD:
  assumes "pool_inv p" "alloc_at p b n = Some (Ok (), q)"
  shows "pool_inv q" "0 < n" "{b..<b + n} \<subseteq> free_set p" "free_set q = free_set p - {b..<b + n}" "admitted q = admitted p"
proof -
  have n: "0 < n \<and> {b..<b + n} \<subseteq> free_set p"
  proof (rule ccontr)
    assume "\<not> (0 < n \<and> {b..<b + n} \<subseteq> free_set p)"
    then show False
      using alloc_at_refused [OF assms(1)] assms(2) by simp
  qed
  then obtain r where "alloc_at p b n = Some (Ok (), r)" "pool_inv r"
    "admitted r = admitted p" "free_set r = free_set p - {b..<b + n}"
    using alloc_at_free [OF assms(1)] by metis
  then show "pool_inv q" "0 < n" "{b..<b + n} \<subseteq> free_set p" "free_set q = free_set p - {b..<b + n}" "admitted q = admitted p"
    using assms(2) n by simp_all
qed

lemma granted_free:
  assumes "pool_inv p" "granted p b n q"
  shows "pool_inv q \<and> 0 < n \<and> {b..<b + n} \<subseteq> free_set p \<and> free_set q = free_set p - {b..<b + n} \<and>
    pool_managed q = pool_managed p"
  using assms(2)
proof cases
  case (order k)
  then have "\<exists>a \<in> set (admitted p). has_block p a k"
    using alloc_order_none [OF assms(1), of k] by auto
  then obtain c r where "alloc_order p k = Some (Some c, r)" "block c k \<subseteq> free_set p" "pool_inv r"
    "admitted r = admitted p" "free_set r = free_set p - block c k"
    using alloc_order_found [OF assms(1)] by metis
  then show ?thesis
    using order by auto
next
  case (largest max_count)
  then have "\<not> (max_count = 0 \<or> free_set p = {})"
    using alloc_largest_none [OF assms(1), of max_count] by (intro notI) simp
  then have "0 < max_count" "free_set p \<noteq> {}"
    by simp_all
  then obtain c k r where "alloc_largest p max_count = Some (Some (c, 2 ^ k), r)" "block c k \<subseteq> free_set p" "pool_inv r"
    "admitted r = admitted p" "free_set r = free_set p - block c k"
    using alloc_largest_found [OF assms(1)] by metis
  then show ?thesis
    using largest by auto
next
  case exact
  then show ?thesis
    using alloc_at_OkD [OF assms(1) exact] by simp
qed

interpretation fp: frame_inventory pool_inv pool_managed free_set granted dealloc
proof
  show "pool_inv p \<Longrightarrow> granted p b n q \<Longrightarrow>
      pool_inv q \<and> 0 < n \<and> {b..<b + n} \<subseteq> free_set p \<and> free_set q = free_set p - {b..<b + n} \<and> pool_managed q = pool_managed p"
    for p b n q
    by (rule granted_free)
  show "\<exists>q. dealloc p b n = Some q \<and> pool_inv q \<and> free_set q = free_set p \<union> {b..<b + n} \<and> pool_managed q = pool_managed p"
    if "pool_inv p" "0 < n" "{b..<b + n} \<subseteq> pool_managed p - free_set p" for p b n
    using dealloc_taken [OF that] by metis
  show "free_set p \<subseteq> pool_managed p" for p
    by (rule free_set_managed)
qed

text \<open>The pool with the extents its callers hold: allocations and returns in any order.\<close>

inductive pool_step :: "frame_pool \<times> (nat \<times> nat) list \<Rightarrow> frame_pool \<times> (nat \<times> nat) list \<Rightarrow> bool" where
  grant: "granted p b n q \<Longrightarrow> pool_step (p, held) (q, (b, n) # held)"
| give_back: "(b, n) \<in> set held \<Longrightarrow> dealloc p b n = Some q \<Longrightarrow> pool_step (p, held) (q, remove1 (b, n) held)"

definition pool_started :: "nat set \<Rightarrow> frame_pool \<times> (nat \<times> nat) list \<Rightarrow> bool" where
  "pool_started reserved x \<longleftrightarrow> pool_inv (fst x) \<and> snd x = [] \<and> reserved = pool_managed (fst x) - free_set (fst x)"

interpretation owners: inv_system "pool_started reserved" pool_step "fp.holds reserved" for reserved
proof
  show "pool_started reserved x \<Longrightarrow> fp.holds reserved x" for x
    using free_set_managed [of "fst x"] unfolding pool_started_def fp.holds_def fp.owned_def by auto
  show "fp.holds reserved y" if "fp.holds reserved x" "pool_step x y" for x y
    using that(2)
  proof cases
    case (grant p b n q held)
    then show ?thesis
      using fp.holds_grant that(1) by simp
  next
    case (give_back b n held p q)
    then show ?thesis
      using fp.holds_return [of reserved p held b n] that(1) by auto
  qed
qed

lemma dealloc_SomeD:
  assumes "pool_inv p" "dealloc p b n = Some q"
  shows "pool_inv q" "pool_managed q = pool_managed p"
proof -
  have "0 < n \<and> {b..<b + n} \<subseteq> pool_managed p - free_set p"
  proof (rule ccontr)
    assume "\<not> (0 < n \<and> {b..<b + n} \<subseteq> pool_managed p - free_set p)"
    then show False
      using dealloc_refused [OF assms(1)] assms(2) by simp
  qed
  then obtain r where "dealloc p b n = Some r" "pool_inv r" "admitted r = admitted p"
    using dealloc_taken [OF assms(1)] by metis
  then show "pool_inv q" "pool_managed q = pool_managed p"
    using assms(2) by simp_all
qed

lemma pool_steps_managed: "pool_step\<^sup>*\<^sup>* (p, xs) (q, held) \<Longrightarrow> pool_inv p \<Longrightarrow> pool_managed q = pool_managed p"
proof -
  have "pool_step\<^sup>*\<^sup>* x y \<Longrightarrow> pool_inv (fst x) \<Longrightarrow> pool_inv (fst y) \<and> pool_managed (fst y) = pool_managed (fst x)" for x y
  proof (induction rule: rtranclp_induct)
    case (step y z)
    then have "pool_inv (fst y)" "pool_managed (fst y) = pool_managed (fst x)"
      by blast+
    moreover from step(2) have "pool_inv (fst z) \<and> pool_managed (fst z) = pool_managed (fst y)"
    proof cases
      case (grant p b n q held)
      then show ?thesis
        using granted_free [of p b n q] \<open>pool_inv (fst y)\<close> by simp
    next
      case (give_back b n held p q)
      then show ?thesis
        using dealloc_SomeD [of p b n q] \<open>pool_inv (fst y)\<close> by simp
    qed
    ultimately show ?case
      by simp
  qed simp
  then show "pool_step\<^sup>*\<^sup>* (p, xs) (q, held) \<Longrightarrow> pool_inv p \<Longrightarrow> pool_managed q = pool_managed p"
    by fastforce
qed

section \<open>Properties\<close>

text \<open>Rounds of the block loop: aligned as far as the start allows, it only descends.\<close>

lemma blocks_descend:
  assumes "2 ^ k dvd s" "e - s < 2 ^ k" "e < usize_bound"
  shows "length (for_each_block s e) \<le> k"
  using assms(1,2)
proof (induction k arbitrary: s rule: less_induct)
  case (less k)
  show ?case
  proof (cases "s < e")
    case True
    define f where "f = floor_order (e - s)"
    have f: "2 ^ f \<le> e - s" "e - s < 2 ^ Suc f"
      using floor_order_le [of "e - s"] True unfolding f_def by simp_all
    then have "2 ^ f < (2::nat) ^ k"
      using less(3) by linarith
    then have fk: "f < k"
      by simp
    then have dv: "2 ^ f dvd s"
      using less(2) by (meson dvd_trans le_imp_power_dvd less_imp_le)
    have "block_order s e = f"
      using block_order_max [OF True dv _ assms(3)] f(1) True unfolding f_def block_order_def by simp
    then have eq: "for_each_block s e = (s, f) # for_each_block (s + 2 ^ f) e"
      using True by (simp add: for_each_block.simps [of s e])
    have "length (for_each_block (s + 2 ^ f) e) \<le> f"
      using less(1) [OF fk, of "s + 2 ^ f"] dv f by simp
    then show ?thesis
      using fk unfolding eq by simp
  next
    case False
    then show ?thesis
      by (simp add: for_each_block.simps [of s e])
  qed
qed

lemma blocks_ascend:
  assumes "2 ^ j dvd s" "j \<le> 64" "e < usize_bound"
  shows "length (for_each_block s e) \<le> (64 - j) + 64"
  using assms(1,2)
proof (induction "64 - j" arbitrary: s j rule: less_induct)
  case less
  show ?case
  proof (cases "s < e")
    case True
    define k where "k = block_order s e"
    note fits = block_order_fits [OF True, folded k_def]
    have eq: "for_each_block s e = (s, k) # for_each_block (s + 2 ^ k) e"
      using True unfolding k_def by (simp add: for_each_block.simps [of s e])
    have "2 ^ k < (2::nat) ^ 64"
      using fits(2) assms(3) by linarith
    then have k: "k < 64"
      using power_less_imp_less_exp [of "2::nat" k 64] by simp
    show ?thesis
    proof (cases "e - s < 2 ^ Suc k")
      case True
      then have "length (for_each_block (s + 2 ^ k) e) \<le> k"
        using fits by (intro blocks_descend [OF _ _ assms(3)]) auto
      then show ?thesis
        using k unfolding eq by simp
    next
      case False
      then have far: "s + 2 ^ Suc k \<le> e"
        using fits(2) by auto
      then have "\<not> 2 ^ Suc k dvd s"
        using block_order_max [OF True _ _ assms(3), of "Suc k"] unfolding k_def by auto
      then have "j \<le> k"
        using less(2) by (meson dvd_trans le_imp_power_dvd not_less_eq_eq)
      obtain q where q: "s = 2 ^ k * q"
        using fits(1) by blast
      then have "odd q"
        using \<open>\<not> 2 ^ Suc k dvd s\<close> by (auto simp: mult.commute)
      then have "2 ^ k * 2 dvd 2 ^ k * (q + 1)"
        by (intro mult_dvd_mono) simp_all
      then have "2 ^ Suc k dvd s + 2 ^ k"
        unfolding q by (simp add: mult.commute add.commute)
      then have "length (for_each_block (s + 2 ^ k) e) \<le> (64 - Suc k) + 64"
        using less(1) [of "Suc k" "s + 2 ^ k"] k \<open>j \<le> k\<close> by simp
      then show ?thesis
        using k \<open>j \<le> k\<close> unfolding eq by simp
    qed
  next
    case False
    then show ?thesis
      by (simp add: for_each_block.simps [of s e])
  qed
qed

text \<open>
  Claim C29. The loop that cuts a range of frames into aligned blocks ends after at most 128 rounds, twice the width of an address:
  this is the bound the arena table is sized by.
\<close>

theorem region_block_bound:
  "e < usize_bound \<Longrightarrow> length (for_each_block s e) \<le> 128"
  using blocks_ascend [of 0 s e] by simp

theorem region_block_bound_witness:
  "for_each_block 3 9 = [(3, 0), (4, 2), (8, 0)] \<and> length (for_each_block 3 9) \<le> 128"
  using region_block_bound [of 9 3]
  by (simp add: for_each_block.simps block_order_def floor_order.simps trailing_zeros.simps)

text \<open>
  Cutting a range into blocks is canonical: the blocks lie in the range, are aligned to their size and together are the
  range, and every aligned block of frames inside the range lies within one of them.
\<close>

theorem region_blocks_canonical:
  assumes "e < usize_bound"
  shows "(\<Union>(b, n) \<in> set (for_each_block s e). {b..<b + 2 ^ n}) = {s..<e} \<and>
    (\<forall>(b, n) \<in> set (for_each_block s e). 2 ^ n dvd b) \<and>
    (\<forall>b n. 2 ^ n dvd b \<and> s \<le> b \<and> b + 2 ^ n \<le> e \<longrightarrow>
      (\<exists>(c, m) \<in> set (for_each_block s e). c \<le> b \<and> b + 2 ^ n \<le> c + 2 ^ m))"
proof (intro conjI set_eqI iffI)
  fix x
  assume "x \<in> {s..<e}"
  then show "x \<in> (\<Union>(b, n) \<in> set (for_each_block s e). {b..<b + 2 ^ n})"
    using for_each_block_contains [of 0 x s e] assms by fastforce
qed (use for_each_block_blocks [of _ _ s e] for_each_block_contains [of _ _ s e] assms in fastforce)+

text \<open>A small pool: one arena of four frames from frame 4, all free.\<close>

definition demo_pool :: frame_pool where
  "demo_pool = \<lparr>metadata = [255, 2, 255, 255, 255, 255, 255, 255, 255, 255, 255], metadata_used = 8,
     arenas = [\<lparr>base = 4, metadata_start = 0, order = 2\<rparr>, EMPTY_ARENA], arena_count = 1, free_frames = 4\<rparr>"

lemma demo_pool_facts: "pool_inv demo_pool" "free_set demo_pool = {4..<8}" "pool_managed demo_pool = {4..<8}"
proof -
  have a: "admitted demo_pool = [\<lparr>base = 4, metadata_start = 0, order = 2\<rparr>]"
    by (simp add: demo_pool_def admitted_def)
  have t: "tree demo_pool \<lparr>base = 4, metadata_start = 0, order = 2\<rparr> 1 = 2"
    by (simp add: demo_pool_def tree_def)
  show fr: "free_set demo_pool = {4..<8}"
    using tfree_whole [of "tree demo_pool \<lparr>base = 4, metadata_start = 0, order = 2\<rparr>" 1 2 4] t
    unfolding free_set_def a by (simp add: UNAVAILABLE_def)
  show "pool_managed demo_pool = {4..<8}"
    unfolding a managed_def by simp
  have "arena_ok demo_pool \<lparr>base = 4, metadata_start = 0, order = 2\<rparr>"
    using tinv_leaf [of "tree demo_pool \<lparr>base = 4, metadata_start = 0, order = 2\<rparr>" 1 2] t
    unfolding arena_ok_def windowed_def by (simp add: demo_pool_def)
  then show "pool_inv demo_pool"
    unfolding pool_inv_def pool_trees_def fr a by (simp add: demo_pool_def MAX_ARENAS_def)
qed

text \<open>
  Claim C25. \<open>alloc_order\<close> never fails an assertion. It returns an aligned block of free frames and takes exactly these frames out
  of the inventory, or leaves the pool as it is; the latter only when no arena has an aligned free block of this order.
\<close>

theorem alloc_order_exact:
  assumes "pool_inv p"
  shows "(\<exists>b q. alloc_order p n = Some (Some b, q) \<and> 2 ^ n dvd b \<and> {b..<b + 2 ^ n} \<subseteq> free_set p \<and>
      pool_inv q \<and> free_set q = free_set p - {b..<b + 2 ^ n} \<and> admitted q = admitted p) \<or>
    (alloc_order p n = Some (None, p) \<and>
      \<not> (\<exists>a b. a \<in> set (admitted p) \<and> 2 ^ n dvd b \<and> {b..<b + 2 ^ n} \<subseteq> {base a..<base a + 2 ^ order a} \<and>
          {b..<b + 2 ^ n} \<subseteq> free_set p))"
proof (cases "\<exists>a \<in> set (admitted p). has_block p a n")
  case True
  then obtain b q where "alloc_order p n = Some (Some b, q)" "2 ^ n dvd b" "{b..<b + 2 ^ n} \<subseteq> free_set p" "pool_inv q"
    "free_set q = free_set p - {b..<b + 2 ^ n}" "admitted q = admitted p"
    using alloc_order_found [OF assms] by metis
  then show ?thesis
    by blast
next
  case False
  then show ?thesis
    using alloc_order_none [OF assms, of n] unfolding has_block_def by blast
qed

theorem alloc_order_exact_witness:
  "\<exists>b q. alloc_order demo_pool 1 = Some (Some b, q) \<and> even b \<and> free_set q = {4..<8} - {b..<b + 2}"
proof -
  have "even (4::nat)" "{4..<4 + 2 ^ 1} \<subseteq> {4::nat..<4 + 2 ^ 2}" "{4..<4 + 2 ^ 1} \<subseteq> {4::nat..<8}"
    by auto
  then show ?thesis
    using alloc_order_exact [OF demo_pool_facts(1), of 1] unfolding demo_pool_facts(2)
    by (fastforce simp: demo_pool_def admitted_def)
qed



text \<open>
  \<open>alloc_at\<close> succeeds exactly when the range is not empty and all its frames are free, and then takes exactly these;
  any other request leaves the pool unchanged.
\<close>

theorem alloc_at_exact:
  assumes "pool_inv p"
  shows "if 0 < n \<and> {b..<b + n} \<subseteq> free_set p
    then \<exists>q. alloc_at p b n = Some (Ok (), q) \<and> pool_inv q \<and> free_set q = free_set p - {b..<b + n} \<and> admitted q = admitted p
    else alloc_at p b n = Some (Err Unavailable, p)"
  using alloc_at_free [OF assms, of n b] alloc_at_refused [OF assms, of n b] by (metis (no_types))

text \<open>
  Claim C27. Returning a range that was taken puts the inventory back: \<open>dealloc\<close> after a successful \<open>alloc_at\<close> does not fail an
  assertion, and the free frames and their count are the ones before.
\<close>

theorem alloc_dealloc_roundtrip:
  assumes "pool_inv p" "alloc_at p b n = Some (Ok (), q)"
  shows "\<exists>r. dealloc q b n = Some r \<and> pool_inv r \<and> free_set r = free_set p \<and> free_frames r = free_frames p \<and> admitted r = admitted p"
proof -
  have q: "pool_inv q" "0 < n" "{b..<b + n} \<subseteq> free_set p" "free_set q = free_set p - {b..<b + n}" "admitted q = admitted p"
    by (rule alloc_at_OkD [OF assms])+
  then have "{b..<b + n} \<subseteq> managed (admitted q) - free_set q"
    using free_set_managed [of p] by auto
  then obtain r where r: "dealloc q b n = Some r" "pool_inv r" "admitted r = admitted q" "free_set r = free_set q \<union> {b..<b + n}"
    using dealloc_taken [OF q(1,2)] by metis
  then have "free_set r = free_set p"
    using q(3,4) by auto
  then show ?thesis
    using r q(5) assms(1) unfolding pool_inv_def by simp
qed

theorem alloc_dealloc_roundtrip_witness:
  "\<exists>q r. alloc_at demo_pool 5 2 = Some (Ok (), q) \<and> dealloc q 5 2 = Some r \<and> free_set r = {4..<8}"
proof -
  obtain q where "alloc_at demo_pool 5 2 = Some (Ok (), q)"
    using alloc_at_free [OF demo_pool_facts(1), of 2 5] unfolding demo_pool_facts(2) by auto
  then show ?thesis
    using alloc_dealloc_roundtrip [OF demo_pool_facts(1)] unfolding demo_pool_facts(2) by blast
qed

text \<open>
  Claim C24. No frame has two owners. After any sequence of allocations, by order, by size or at an address, and of returns of what
  is held, the extents held are pairwise disjoint, none of their frames is free or reserved, and every one of them can be returned.
\<close>

theorem frames_never_shared:
  assumes "pool_inv p" "pool_step\<^sup>*\<^sup>* (p, []) (q, held)"
  shows "sorted_wrt (\<lambda>(b, n) (c, m). {b..<b + n} \<inter> {c..<c + m} = {}) held \<and>
    (\<forall>b n. (b, n) \<in> set held \<longrightarrow> {b..<b + n} \<subseteq> free_set p - free_set q \<and> dealloc q b n \<noteq> None)"
proof -
  define rest where "rest = pool_managed p - free_set p"
  have "pool_started rest (p, [])"
    using assms(1) unfolding pool_started_def rest_def by simp
  then have h: "fp.holds rest (q, held)"
    using owners.inv_reachable assms(2) by blast
  have adm: "pool_managed q = pool_managed p"
    using pool_steps_managed [OF assms(2,1)] .
  have apart: "fp.owned held \<inter> (free_set q \<union> rest) = {}" "fp.owned held \<subseteq> pool_managed p"
    using h adm unfolding fp.holds_def fst_conv snd_conv by blast+
  have "{b..<b + n} \<subseteq> free_set p - free_set q \<and> dealloc q b n \<noteq> None" if "(b, n) \<in> set held" for b n
  proof -
    have "{b..<b + n} \<subseteq> fp.owned held"
      using that unfolding fp.owned_def by auto
    then have "{b..<b + n} \<subseteq> free_set p - free_set q"
      using apart unfolding rest_def by blast
    then show ?thesis
      using fp.holds_return [OF h that] by auto
  qed
  then show ?thesis
    using h unfolding fp.holds_def by auto
qed

theorem frames_never_shared_witness:
  "\<exists>q b n. pool_step\<^sup>*\<^sup>* (demo_pool, []) (q, [(b, n)]) \<and> {b..<b + n} \<subseteq> {4..<8} - free_set q \<and> dealloc q b n \<noteq> None"
proof -
  obtain q where "alloc_at demo_pool 5 2 = Some (Ok (), q)"
    using alloc_at_free [OF demo_pool_facts(1), of 2 5] unfolding demo_pool_facts(2) by auto
  then have "pool_step\<^sup>*\<^sup>* (demo_pool, []) (q, [(5, 2)])"
    by (blast intro: granted.exact pool_step.grant)
  then show ?thesis
    using frames_never_shared [OF demo_pool_facts(1)] unfolding demo_pool_facts(2) by fastforce
qed

text \<open>
  Claim C28. \<open>add_region\<close> refuses an empty range, one that overlaps a managed range, and one for which arenas or metadata do not
  suffice, in this order and without changing the pool; otherwise exactly the frames of the range become managed and free.
\<close>

theorem add_region_exact:
  assumes "pool_inv p" "e < usize_bound"
  shows "case region_error p s e of
      Some x \<Rightarrow> add_region p s e = Some (Err x, p)
    | None \<Rightarrow> \<exists>q. add_region p s e = Some (Ok (), q) \<and> pool_inv q \<and> pool_managed q = pool_managed p \<union> {s..<e} \<and>
        free_set q = free_set p \<union> {s..<e} \<and> free_frames q = free_frames p + (e - s)"
proof (cases "region_error p s e")
  case None
  then obtain q where q: "add_managed_region p s e = Some (Ok (), q)" "pool_inv q" "grown p q s e"
    using add_managed_region_exact [OF assms, of s] by auto
  have e: "s < e" "{s..<e} \<inter> pool_managed p = {}"
    using None unfolding region_error_def by (auto split: if_splits simp del: Int_atLeastLessThan)
  then have "{s..<e} \<subseteq> managed (admitted q) - free_set q" "{s..<e} \<inter> free_set p = {}"
    using q(3) free_set_managed [of p] unfolding grown_def by auto
  then obtain r where r: "release_range q s e = Some (Ok (), r)" "pool_inv r" "admitted r = admitted q"
    "free_set r = free_set q \<union> {s..<e}"
    using release_range_taken [OF q(2) e(1)] by metis
  have "free_frames r = free_frames p + (e - s)"
    using r(2,4) q(3) assms(1) \<open>{s..<e} \<inter> free_set p = {}\<close> card_Un_disjoint [of "free_set p" "{s..<e}"]
    unfolding pool_inv_def grown_def by (simp add: Int_commute)
  then show ?thesis
    using None q r unfolding add_region_def grown_def by simp
next
  case (Some x)
  then show ?thesis
    using add_managed_region_exact [OF assms, of s] unfolding add_region_def by auto
qed

theorem add_region_exact_witness:
  "add_region demo_pool 6 9 = Some (Err Overlap, demo_pool) \<and>
   add_region demo_pool 8 11 = Some (Err ArenaLimit, demo_pool) \<and>
   (\<exists>q. add_region demo_pool 8 9 = Some (Ok (), q) \<and> free_set q = {4..<9} \<and> free_frames q = 5)"
proof -
  have "region_error demo_pool 6 9 = Some Overlap"
    unfolding region_error_def demo_pool_facts by simp
  moreover have "region_error demo_pool 8 11 = Some ArenaLimit" "region_error demo_pool 8 9 = None"
    unfolding region_error_def demo_pool_facts
    by (simp_all add: demo_pool_def for_each_block.simps block_order_def floor_order.simps trailing_zeros.simps)
  moreover have "{4..<8} \<union> {8..<9} = {4..<9::nat}" "free_frames demo_pool = 4"
    by (auto simp: demo_pool_def)
  ultimately show ?thesis
    using add_region_exact [OF demo_pool_facts(1), of 9 6] add_region_exact [OF demo_pool_facts(1), of 11 8]
      add_region_exact [OF demo_pool_facts(1), of 9 8] unfolding demo_pool_facts(2) by auto
qed

end
