(* ===== verification/Memory_Supply.thy ===== *)
theory Memory_Supply
  imports Prelude
begin

text \<open>
  The boot-time planner of \<open>os/memory_supply\<close>: from the managed, permanent and boot-held physical ranges it sets apart the frame
  pool's metadata, the kernel heap chunks and the recovery tickets, and leaves the rest as user inventory. Addresses and sizes are
  natural numbers with the checks of the code written out. A \<open>RangeBuffer\<close> is the list of its first \<open>len\<close> entries, with its
  capacity as a parameter; the workspace buffers are cleared before they are filled, so \<open>plan\<close> builds them as local values.
  The unstable sort is the stable one here: entries with equal starts overlap, so they are rejected or merged in any order.
\<close>

section \<open>Ranges and requirements\<close>

record range =
  start :: nat
  range_end :: nat

definition EMPTY_range :: range where
  "EMPTY_range = \<lparr>start = 0, range_end = 0\<rparr>"

definition Range_new :: "nat \<Rightarrow> nat \<Rightarrow> range option" where
  "Range_new s e = (if s < e then Some \<lparr>start = s, range_end = e\<rparr> else None)"

definition range_len :: "range \<Rightarrow> nat" where
  "range_len r = range_end r - start r"

definition range_is_empty :: "range \<Rightarrow> bool" where
  "range_is_empty r \<longleftrightarrow> start r \<ge> range_end r"

record requirements =
  page_size :: nat
  metadata_bytes_req :: nat
  heap_chunk_size :: nat
  heap_chunk_count :: nat
  recovery_ticket_size :: nat
  recovery_ticket_count :: nat

datatype plan_error =
  InvalidRequirements
| InvalidRange
| MemoryOverlap
| CapacityExhausted
| ArithmeticOverflow
| InsufficientMetadata
| InsufficientHeap
| InsufficientRecovery
| ClassificationMismatch

section \<open>The system supply\<close>

record system_supply =
  supply_metadata :: range
  heap_ranges :: "range list"
  heap :: "range option list"
  heap_next :: nat
  heap_count :: nat
  recovery_ranges :: "range list"
  recovery :: "range option list"
  recovery_next :: nat
  recovery_count :: nat

text \<open>\<open>take_heap_chunk\<close>; the outer option is its index and its \<open>expect\<close>.\<close>

definition take_heap_chunk :: "system_supply \<Rightarrow> (range option \<times> system_supply) option" where
  "take_heap_chunk s =
     (if heap_next s = heap_count s then Some (None, s)
      else do {
        slot \<leftarrow> at (heap s) (heap_next s);
        ticket \<leftarrow> slot;
        Some (Some ticket, s\<lparr>heap := (heap s)[heap_next s := None], heap_next := heap_next s + 1\<rparr>)
      })"

definition take_recovery_ticket :: "system_supply \<Rightarrow> (range option \<times> system_supply) option" where
  "take_recovery_ticket s =
     (if recovery_next s = recovery_count s then Some (None, s)
      else do {
        slot \<leftarrow> at (recovery s) (recovery_next s);
        ticket \<leftarrow> slot;
        Some (Some ticket, s\<lparr>recovery := (recovery s)[recovery_next s := None], recovery_next := recovery_next s + 1\<rparr>)
      })"

definition remaining_heap_chunks :: "system_supply \<Rightarrow> nat option" where
  "remaining_heap_chunks s = usize_sub (heap_count s) (heap_next s)"

definition remaining_recovery_tickets :: "system_supply \<Rightarrow> nat option" where
  "remaining_recovery_tickets s = usize_sub (recovery_count s) (recovery_next s)"

text \<open>The geometry snapshots \<open>heap_ranges()\<close> and \<open>recovery_ranges()\<close>.\<close>

definition heap_snapshot :: "system_supply \<Rightarrow> range list" where
  "heap_snapshot s = take (heap_count s) (heap_ranges s)"

definition recovery_snapshot :: "system_supply \<Rightarrow> range list" where
  "recovery_snapshot s = take (recovery_count s) (recovery_ranges s)"

record inventory_plan =
  permanent :: "range list"
  boot_held :: "range list"
  user_free :: "range list"
  managed_bytes :: nat
  permanent_bytes :: nat
  boot_held_bytes :: nat
  system_bytes :: nat
  user_free_bytes :: nat

record plan =
  inventory :: inventory_plan
  system :: system_supply

section \<open>Range buffers\<close>

definition push :: "nat \<Rightarrow> range list \<Rightarrow> range \<Rightarrow> (range list, plan_error) result" where
  "push cap xs r = (if length xs < cap then Ok (xs @ [r]) else Err CapacityExhausted)"

definition sort_ranges :: "range list \<Rightarrow> range list" where
  "sort_ranges xs = sort_key start xs"

text \<open>
  The merging pass of \<open>normalize\<close>: the compacted output is kept reversed, so that its last entry, the one a range may be
  merged into, comes first.
\<close>

fun merge_pass :: "range list \<Rightarrow> range list \<Rightarrow> range list" where
  "merge_pass out [] = rev out"
| "merge_pass [] (r # rs) = merge_pass [r] rs"
| "merge_pass (l # out) (r # rs) =
     (if start r \<le> range_end l then merge_pass (l\<lparr>range_end := max (range_end l) (range_end r)\<rparr> # out) rs
      else merge_pass (r # l # out) rs)"

definition normalize :: "range list \<Rightarrow> range list" where
  "normalize xs = merge_pass [] (sort_ranges xs)"

fun bytes_from :: "nat \<Rightarrow> range list \<Rightarrow> (nat, plan_error) result" where
  "bytes_from acc [] = Ok acc"
| "bytes_from acc (r # rs) =
     and_then (ok_or (usize_add acc (range_len r)) ArithmeticOverflow) (\<lambda>t. bytes_from t rs)"

definition bytes :: "range list \<Rightarrow> (nat, plan_error) result" where
  "bytes xs = bytes_from 0 xs"

section \<open>Steps of the plan\<close>

definition is_power_of_two :: "nat \<Rightarrow> bool" where
  "is_power_of_two n \<longleftrightarrow> n > 0 \<and> n AND (n - 1) = 0"

definition validate_requirements :: "nat \<Rightarrow> nat \<Rightarrow> requirements \<Rightarrow> (unit, plan_error) result" where
  "validate_requirements HEAP RECOVERY rq =
     (if \<not> is_power_of_two (page_size rq)
        \<or> metadata_bytes_req rq = 0
        \<or> heap_chunk_count rq > HEAP
        \<or> recovery_ticket_count rq > RECOVERY
        \<or> (heap_chunk_count rq > 0
            \<and> (\<not> is_power_of_two (heap_chunk_size rq) \<or> heap_chunk_size rq < page_size rq))
        \<or> (recovery_ticket_count rq > 0
            \<and> (recovery_ticket_size rq = 0 \<or> \<not> page_size rq dvd recovery_ticket_size rq))
      then Err InvalidRequirements else Ok ())"

definition validate_range :: "range \<Rightarrow> nat \<Rightarrow> (unit, plan_error) result" where
  "validate_range r page =
     (if start r \<ge> range_end r \<or> \<not> page dvd start r \<or> \<not> page dvd range_end r then Err InvalidRange else Ok ())"

fun push_valid :: "nat \<Rightarrow> nat \<Rightarrow> range list \<Rightarrow> range list \<Rightarrow> (range list, plan_error) result" where
  "push_valid cap page out [] = Ok out"
| "push_valid cap page out (r # rs) =
     and_then (validate_range r page) (\<lambda>_. and_then (push cap out r) (\<lambda>out'. push_valid cap page out' rs))"

fun windows_overlap :: "range list \<Rightarrow> bool" where
  "windows_overlap (a # b # rs) \<longleftrightarrow> range_end a > start b \<or> windows_overlap (b # rs)"
| "windows_overlap _ \<longleftrightarrow> False"

definition normalize_memories_into :: "nat \<Rightarrow> range list \<Rightarrow> nat \<Rightarrow> (range list, plan_error) result" where
  "normalize_memories_into cap input page =
     and_then (push_valid cap page [] input) (\<lambda>out.
       let sorted_out = sort_ranges out in
       if windows_overlap sorted_out then Err MemoryOverlap else Ok sorted_out)"

text \<open>The inner loop of \<open>clip_and_normalize_into\<close>, over the memories.\<close>

fun clip_one :: "nat \<Rightarrow> range \<Rightarrow> range list \<Rightarrow> range list \<Rightarrow> (range list, plan_error) result" where
  "clip_one cap r out [] = Ok out"
| "clip_one cap r out (m # ms) =
     (let s = max (start r) (start m); e = min (range_end r) (range_end m) in
      if s < e then and_then (push cap out \<lparr>start = s, range_end = e\<rparr>) (\<lambda>out'. clip_one cap r out' ms)
      else clip_one cap r out ms)"

fun clip_all :: "nat \<Rightarrow> nat \<Rightarrow> range list \<Rightarrow> range list \<Rightarrow> range list \<Rightarrow> (range list, plan_error) result" where
  "clip_all cap page memories out [] = Ok out"
| "clip_all cap page memories out (r # rs) =
     and_then (validate_range r page) (\<lambda>_.
       and_then (clip_one cap r out memories) (\<lambda>out'. clip_all cap page memories out' rs))"

definition clip_and_normalize_into ::
  "nat \<Rightarrow> range list \<Rightarrow> range list \<Rightarrow> nat \<Rightarrow> (range list, plan_error) result" where
  "clip_and_normalize_into cap input memories page =
     and_then (clip_all cap page memories [] input) (\<lambda>out. Ok (normalize out))"

fun append_into :: "nat \<Rightarrow> range list \<Rightarrow> range list \<Rightarrow> (range list, plan_error) result" where
  "append_into cap target [] = Ok target"
| "append_into cap target (r # rs) = and_then (push cap target r) (\<lambda>t. append_into cap t rs)"

definition copy_into :: "nat \<Rightarrow> range list \<Rightarrow> (range list, plan_error) result" where
  "copy_into cap source = append_into cap [] source"

text \<open>The inner loop of \<open>subtract_into\<close>: the holes still to visit, with the cursor.\<close>

fun subtract_one :: "nat \<Rightarrow> range \<Rightarrow> nat \<Rightarrow> range list \<Rightarrow> range list \<Rightarrow> (range list, plan_error) result" where
  "subtract_one cap r cursor out [] =
     (if cursor < range_end r then push cap out \<lparr>start = cursor, range_end = range_end r\<rparr> else Ok out)"
| "subtract_one cap r cursor out (hole # holes) =
     (if range_end hole \<le> cursor \<or> start hole \<ge> range_end r then subtract_one cap r cursor out holes
      else
        let hole_start = max (start hole) cursor in
        and_then (if cursor < hole_start then push cap out \<lparr>start = cursor, range_end = hole_start\<rparr> else Ok out)
          (\<lambda>out'. let cursor' = min (range_end hole) (range_end r) in
             if cursor' = range_end r then Ok out' else subtract_one cap r cursor' out' holes))"

fun subtract_all :: "nat \<Rightarrow> range list \<Rightarrow> range list \<Rightarrow> range list \<Rightarrow> (range list, plan_error) result" where
  "subtract_all cap reserved out [] = Ok out"
| "subtract_all cap reserved out (r # rs) =
     and_then (subtract_one cap r (start r) out reserved) (\<lambda>out'. subtract_all cap reserved out' rs)"

definition subtract_into :: "nat \<Rightarrow> range list \<Rightarrow> range list \<Rightarrow> (range list, plan_error) result" where
  "subtract_into cap source reserved = subtract_all cap reserved [] source"

definition align_up :: "nat \<Rightarrow> nat \<Rightarrow> (nat, plan_error) result" where
  "align_up v alignment =
     (case usize_add v (alignment - 1) of
        None \<Rightarrow> Err ArithmeticOverflow
      | Some e \<Rightarrow> Ok (unat ((word_of_nat e :: u64) AND NOT (word_of_nat (alignment - 1)))))"

definition fit :: "nat \<Rightarrow> nat \<Rightarrow> nat \<Rightarrow> nat \<Rightarrow> (range option, plan_error) result" where
  "fit s e len alignment =
     (if s \<ge> e then Ok None
      else and_then (align_up s alignment) (\<lambda>aligned.
        case usize_add aligned len of
          None \<Rightarrow> Err ArithmeticOverflow
        | Some candidate_end \<Rightarrow>
            Ok (if candidate_end \<le> e then Some \<lparr>start = aligned, range_end = candidate_end\<rparr> else None)))"

text \<open>The inner loop of \<open>place_one\<close> over the unavailable ranges, for one memory.\<close>

fun place_in :: "range \<Rightarrow> nat \<Rightarrow> nat \<Rightarrow> nat \<Rightarrow> range list \<Rightarrow> (range option, plan_error) result" where
  "place_in memory len alignment cursor [] = fit cursor (range_end memory) len alignment"
| "place_in memory len alignment cursor (hole # holes) =
     (if range_end hole \<le> cursor \<or> start hole \<ge> range_end memory then place_in memory len alignment cursor holes
      else and_then (fit cursor (min (start hole) (range_end memory)) len alignment) (\<lambda>found.
        case found of
          Some r \<Rightarrow> Ok (Some r)
        | None \<Rightarrow>
            let cursor' = min (range_end hole) (range_end memory) in
            if cursor' = range_end memory then fit cursor' (range_end memory) len alignment
            else place_in memory len alignment cursor' holes))"

fun place_one :: "range list \<Rightarrow> range list \<Rightarrow> nat \<Rightarrow> nat \<Rightarrow> (range option, plan_error) result" where
  "place_one [] unavailable len alignment = Ok None"
| "place_one (memory # memories) unavailable len alignment =
     and_then (place_in memory len alignment (start memory) unavailable) (\<lambda>found.
       case found of Some r \<Rightarrow> Ok (Some r) | None \<Rightarrow> place_one memories unavailable len alignment)"

text \<open>
  The loops that place the heap chunks and the recovery tickets: \<open>n\<close> rounds from index \<open>i\<close>, writing each range into its array.
\<close>

fun place_many ::
  "nat \<Rightarrow> range list \<Rightarrow> nat \<Rightarrow> nat \<Rightarrow> plan_error \<Rightarrow> nat \<Rightarrow> nat \<Rightarrow> range list \<Rightarrow> range list \<Rightarrow>
     (range list \<times> range list, plan_error) result" where
  "place_many cap memories len alignment missing i 0 unavailable slots = Ok (unavailable, slots)"
| "place_many cap memories len alignment missing i (Suc n) unavailable slots =
     and_then (place_one memories unavailable len alignment) (\<lambda>found.
       and_then (ok_or found missing) (\<lambda>r.
         and_then (push cap unavailable r) (\<lambda>u.
           place_many cap memories len alignment missing (i + 1) n (normalize u) (slots[i := r]))))"

section \<open>The plan\<close>

record planner =
  ranges_cap :: nat
  planner_heap :: "range list"
  planner_recovery :: "range list"

definition Planner_new :: "nat \<Rightarrow> nat \<Rightarrow> nat \<Rightarrow> planner" where
  "Planner_new RANGES HEAP RECOVERY =
     \<lparr>ranges_cap = RANGES, planner_heap = replicate HEAP EMPTY_range, planner_recovery = replicate RECOVERY EMPTY_range\<rparr>"

text \<open>The classification into permanent, boot-held and unavailable ranges, the first part of \<open>plan\<close>.\<close>

definition classify ::
  "nat \<Rightarrow> range list \<Rightarrow> range list \<Rightarrow> range list \<Rightarrow> nat \<Rightarrow>
     (range list \<times> range list \<times> range list \<times> range list, plan_error) result" where
  "classify cap managed perm boot page =
     and_then (normalize_memories_into cap managed page) (\<lambda>memories.
     and_then (clip_and_normalize_into cap perm memories page) (\<lambda>pm.
     and_then (clip_and_normalize_into cap boot memories page) (\<lambda>raw_boot.
     and_then (subtract_into cap raw_boot pm) (\<lambda>bh.
     and_then (copy_into cap pm) (\<lambda>u1.
     and_then (append_into cap u1 bh) (\<lambda>u2.
       Ok (memories, pm, bh, normalize u2)))))))"

text \<open>The placement of the system ranges, the second part.\<close>

definition place_system ::
  "planner \<Rightarrow> range list \<Rightarrow> range list \<Rightarrow> requirements \<Rightarrow>
     (nat \<times> range \<times> range list \<times> range list \<times> range list, plan_error) result" where
  "place_system pl memories unavailable rq =
     (let cap = ranges_cap pl in
      and_then (align_up (metadata_bytes_req rq) (page_size rq)) (\<lambda>metadata_len.
      and_then (place_one memories unavailable metadata_len (page_size rq)) (\<lambda>found.
      and_then (ok_or found InsufficientMetadata) (\<lambda>metadata_range.
      and_then (push cap unavailable metadata_range) (\<lambda>u1.
      and_then (place_many cap memories (heap_chunk_size rq) (heap_chunk_size rq) InsufficientHeap
          0 (heap_chunk_count rq) (normalize u1) (planner_heap pl)) (\<lambda>(u2, hs).
      and_then (place_many cap memories (recovery_ticket_size rq) (page_size rq) InsufficientRecovery
          0 (recovery_ticket_count rq) u2 (planner_recovery pl)) (\<lambda>(u3, rs).
        Ok (metadata_len, metadata_range, u3, hs, rs))))))))"

text \<open>The accounts, and the tickets of a successful plan.\<close>

definition system_total :: "nat \<Rightarrow> requirements \<Rightarrow> (nat, plan_error) result" where
  "system_total metadata_len rq =
     and_then (ok_or (usize_mul (heap_chunk_size rq) (heap_chunk_count rq)) ArithmeticOverflow) (\<lambda>hb.
       ok_or (do {
         b \<leftarrow> usize_add metadata_len hb;
         rb \<leftarrow> usize_mul (recovery_ticket_size rq) (recovery_ticket_count rq);
         usize_add b rb
       }) ArithmeticOverflow)"

definition tickets :: "nat \<Rightarrow> range list \<Rightarrow> range option list" where
  "tickets n slots = map (\<lambda>i. if i < n then Some (slots ! i) else None) [0..<length slots]"

definition plan_ranges ::
  "planner \<Rightarrow> range list \<Rightarrow> range list \<Rightarrow> range list \<Rightarrow> requirements \<Rightarrow> (plan, plan_error) result" where
  "plan_ranges pl managed perm boot rq =
     (let cap = ranges_cap pl in
      and_then (validate_requirements (length (planner_heap pl)) (length (planner_recovery pl)) rq) (\<lambda>_.
      and_then (classify cap managed perm boot (page_size rq)) (\<lambda>(memories, pm, bh, unavailable).
      and_then (place_system pl memories unavailable rq) (\<lambda>(metadata_len, metadata_range, u, hs, rs).
      and_then (subtract_into cap memories u) (\<lambda>uf.
      and_then (bytes memories) (\<lambda>mb.
      and_then (bytes pm) (\<lambda>pb.
      and_then (bytes bh) (\<lambda>bb.
      and_then (system_total metadata_len rq) (\<lambda>sb.
      and_then (bytes uf) (\<lambda>ub.
      and_then (ok_or (do { x \<leftarrow> usize_add pb bb; y \<leftarrow> usize_add x sb; usize_add y ub }) ArithmeticOverflow) (\<lambda>classified.
        if classified \<noteq> mb then Err ClassificationMismatch
        else Ok \<lparr>
          inventory = \<lparr>permanent = pm, boot_held = bh, user_free = uf, managed_bytes = mb, permanent_bytes = pb,
            boot_held_bytes = bb, system_bytes = sb, user_free_bytes = ub\<rparr>,
          system = \<lparr>supply_metadata = metadata_range,
            heap_ranges = hs, heap = tickets (heap_chunk_count rq) hs, heap_next = 0, heap_count = heap_chunk_count rq,
            recovery_ranges = rs, recovery = tickets (recovery_ticket_count rq) rs, recovery_next = 0,
            recovery_count = recovery_ticket_count rq\<rparr>\<rparr>)))))))))))"

end
