(* ===== verification/Memory_Supply_Ranges.thy ===== *)
theory Memory_Supply_Ranges
  imports Memory_Supply
begin

text \<open>
  The steps of the supply planner as operations on sets of addresses: what normalising, clipping, subtracting and placing ranges
  leaves covered, and that the results stay page aligned and in order.
\<close>

section \<open>Addresses and orders\<close>

definition pts :: "range \<Rightarrow> nat set" where
  "pts r = {start r..<range_end r}"

definition cover :: "range list \<Rightarrow> nat set" where
  "cover xs = \<Union> (pts ` set xs)"

definition paged :: "nat \<Rightarrow> range list \<Rightarrow> bool" where
  "paged page xs \<longleftrightarrow> (\<forall>r \<in> set xs. start r < range_end r \<and> page dvd start r \<and> page dvd range_end r)"

definition ordered :: "range list \<Rightarrow> bool" where
  "ordered xs \<longleftrightarrow> sorted_wrt (\<lambda>a b. range_end a \<le> start b) xs"

lemma cover_simps [simp]: "cover [] = {}" "cover (r # rs) = pts r \<union> cover rs" "cover (xs @ ys) = cover xs \<union> cover ys"
  "cover (rev xs) = cover xs"
  by (auto simp: cover_def)

lemma paged_simps [simp]: "paged page []" "paged page (xs @ ys) \<longleftrightarrow> paged page xs \<and> paged page ys"
  "paged page (rev xs) = paged page xs"
  by (auto simp: paged_def)

lemma paged_Cons: "paged page (r # rs) \<longleftrightarrow> start r < range_end r \<and> page dvd start r \<and> page dvd range_end r \<and> paged page rs"
  by (auto simp: paged_def)

lemma ordered_simps: "ordered []" "ordered (r # rs) \<longleftrightarrow> (\<forall>s \<in> set rs. range_end r \<le> start s) \<and> ordered rs"
  "ordered (xs @ ys) \<longleftrightarrow> ordered xs \<and> ordered ys \<and> (\<forall>a \<in> set xs. \<forall>b \<in> set ys. range_end a \<le> start b)"
  by (auto simp: ordered_def sorted_wrt_append)

lemma cover_finite [simp]: "finite (cover xs)"
  by (simp add: cover_def pts_def)

lemma ordered_card: "paged page xs \<Longrightarrow> ordered xs \<Longrightarrow> card (cover xs) = sum_list (map range_len xs)"
proof (induction xs)
  case (Cons r rs)
  have "pts r \<inter> cover rs = {}"
    using Cons.prems(2) by (fastforce simp: ordered_simps cover_def pts_def)
  then have "card (cover (r # rs)) = card (pts r) + card (cover rs)"
    by (simp add: card_Un_disjoint pts_def)
  then show ?case
    using Cons by (simp add: paged_Cons ordered_simps pts_def range_len_def)
qed simp

section \<open>Normalising\<close>

text \<open>The output so far, last entry first: apart, and starting no later than what is to come.\<close>

definition merging :: "nat \<Rightarrow> range list \<Rightarrow> range list \<Rightarrow> bool" where
  "merging page out rs \<longleftrightarrow> paged page out \<and> paged page rs \<and> sorted_wrt (\<lambda>a b. range_end b < start a) out \<and>
     sorted (map start rs) \<and> (case out of [] \<Rightarrow> True | l # _ \<Rightarrow> \<forall>r \<in> set rs. start l \<le> start r)"

lemma merge_pass_cover:
  assumes "merging page out rs"
  shows "paged page (merge_pass out rs) \<and> ordered (merge_pass out rs) \<and> cover (merge_pass out rs) = cover out \<union> cover rs"
  using assms
proof (induction out rs rule: merge_pass.induct)
  case (1 out)
  then have "sorted_wrt (\<lambda>a b. range_end a < start b) (rev out)"
    unfolding merging_def by (simp add: sorted_wrt_rev)
  then have "ordered (rev out)"
    unfolding ordered_def by (rule sorted_wrt_mono_rel [rotated]) simp
  then show ?case
    using 1 unfolding merging_def by simp
next
  case (2 r rs)
  have "merging page [r] rs"
    using 2(2) unfolding merging_def by (auto simp: paged_Cons)
  then show ?case
    using 2(1) by simp
next
  case (3 l out r rs)
  show ?case
  proof (cases "start r \<le> range_end l")
    case True
    define m where "m = l\<lparr>range_end := max (range_end l) (range_end r)\<rparr>"
    have "merging page (m # out) rs"
      using 3(3) unfolding merging_def m_def by (auto simp: paged_Cons max_def)
    moreover have "pts m = pts l \<union> pts r"
      using 3(3) True unfolding merging_def m_def by (auto simp: pts_def)
    ultimately show ?thesis
      using 3(1) True unfolding m_def by auto
  next
    case False
    have "merging page (r # l # out) rs"
      using 3(3) False unfolding merging_def by (auto simp: paged_Cons)
    then show ?thesis
      using 3(2) False by auto
  qed
qed

lemma normalize_cover:
  assumes "paged page xs"
  shows "paged page (normalize xs)" "ordered (normalize xs)" "cover (normalize xs) = cover xs"
proof -
  have "merging page [] (sort_ranges xs)"
    using assms unfolding merging_def sort_ranges_def by (simp add: paged_def)
  moreover have "cover (sort_ranges xs) = cover xs"
    by (simp add: cover_def sort_ranges_def)
  ultimately show "paged page (normalize xs)" "ordered (normalize xs)" "cover (normalize xs) = cover xs"
    using merge_pass_cover [of page "[]" "sort_ranges xs"] unfolding normalize_def by simp_all
qed

section \<open>Collecting\<close>

lemma push_Ok [simp]: "push cap xs r = Ok ys \<longleftrightarrow> length xs < cap \<and> ys = xs @ [r]"
  by (auto simp: push_def)

lemma append_into_Ok: "append_into cap out rs = Ok ys \<Longrightarrow> ys = out @ rs"
  by (induction rs arbitrary: out) fastforce+

lemma validate_range_Ok [simp]: "validate_range r page = Ok u \<longleftrightarrow> paged page [r]"
  by (auto simp: validate_range_def paged_def)

lemma push_valid_Ok: "push_valid cap page out rs = Ok ys \<Longrightarrow> ys = out @ rs \<and> paged page rs"
proof (induction rs arbitrary: out)
  case (Cons r rs)
  then have "paged page [r]" "push_valid cap page (out @ [r]) rs = Ok ys"
    by auto
  then show ?case
    using Cons.IH [of "out @ [r]"] by (simp add: paged_Cons)
qed simp

lemma windows_ordered: "sorted (map start xs) \<Longrightarrow> paged page xs \<Longrightarrow> \<not> windows_overlap xs \<Longrightarrow> ordered xs"
proof (induction xs rule: windows_overlap.induct)
  case (1 a b rs)
  then have "ordered (b # rs)" "range_end a \<le> start b"
    by (auto simp: paged_Cons)
  then show ?case
    using 1(2) by (auto simp: ordered_simps)
qed (auto simp: ordered_simps)

lemma normalize_memories_cover:
  assumes "normalize_memories_into cap input page = Ok ms"
  shows "paged page ms" "ordered ms" "cover ms = cover input" "ms = sort_ranges input" "paged page input"
proof -
  have v: "paged page input" "ms = sort_ranges input" "\<not> windows_overlap ms"
    using assms push_valid_Ok [of cap page "[]" input] unfolding normalize_memories_into_def
    by (auto simp: Let_def split: if_splits)
  then show "paged page ms" "cover ms = cover input" "ms = sort_ranges input" "paged page input"
    by (simp_all add: sort_ranges_def paged_def cover_def)
  then show "ordered ms"
    using windows_ordered [of ms page] v by (simp add: sort_ranges_def)
qed

lemma clip_one_cover:
  assumes "clip_one cap r out ms = Ok ys" "paged page [r]" "paged page ms"
  shows "\<exists>new. ys = out @ new \<and> paged page new \<and> cover new = pts r \<inter> cover ms"
  using assms(1,3)
proof (induction ms arbitrary: out)
  case (Cons m ms)
  define s where "s = max (start r) (start m)"
  define e where "e = min (range_end r) (range_end m)"
  have pt: "pts r \<inter> pts m = {s..<e}"
    unfolding pts_def s_def e_def by auto
  have al: "page dvd s" "page dvd e"
    using assms(2) Cons.prems(2) unfolding s_def e_def by (auto simp: paged_Cons max_def min_def)
  show ?case
  proof (cases "s < e")
    case True
    then have "clip_one cap r (out @ [\<lparr>start = s, range_end = e\<rparr>]) ms = Ok ys"
      using Cons.prems(1) unfolding s_def e_def by (auto simp: Let_def)
    then obtain new where "ys = (out @ [\<lparr>start = s, range_end = e\<rparr>]) @ new" "paged page new" "cover new = pts r \<inter> cover ms"
      using Cons.IH Cons.prems(2) unfolding paged_Cons by blast
    then show ?thesis
      using True al pt by (intro exI [of _ "\<lparr>start = s, range_end = e\<rparr> # new"]) (auto simp: paged_Cons Int_Un_distrib pts_def)
  next
    case False
    then have "clip_one cap r out ms = Ok ys"
      using Cons.prems(1) unfolding s_def e_def by (auto simp: Let_def)
    then show ?thesis
      using Cons.IH Cons.prems(2) False pt by (auto simp: paged_Cons Int_Un_distrib)
  qed
qed simp

lemma clip_all_cover:
  assumes "clip_all cap page ms out rs = Ok ys" "paged page ms"
  shows "\<exists>new. ys = out @ new \<and> paged page new \<and> cover new = cover rs \<inter> cover ms"
  using assms(1)
proof (induction rs arbitrary: out)
  case (Cons r rs)
  then obtain out' where o: "paged page [r]" "clip_one cap r out ms = Ok out'" "clip_all cap page ms out' rs = Ok ys"
    by auto
  obtain n1 where "out' = out @ n1" "paged page n1" "cover n1 = pts r \<inter> cover ms"
    using clip_one_cover [OF o(2,1) assms(2)] by blast
  moreover obtain n2 where "ys = out' @ n2" "paged page n2" "cover n2 = cover rs \<inter> cover ms"
    using Cons.IH [OF o(3)] by blast
  ultimately show ?case
    by (intro exI [of _ "n1 @ n2"]) auto
qed simp

lemma clip_and_normalize_cover:
  assumes "clip_and_normalize_into cap input ms page = Ok ys" "paged page ms"
  shows "paged page ys" "ordered ys" "cover ys = cover input \<inter> cover ms"
proof -
  obtain out where o: "clip_all cap page ms [] input = Ok out" "ys = normalize out"
    using assms(1) unfolding clip_and_normalize_into_def by auto
  have "paged page out" "cover out = cover input \<inter> cover ms"
    using clip_all_cover [OF o(1) assms(2)] by auto
  then show "paged page ys" "ordered ys" "cover ys = cover input \<inter> cover ms"
    using normalize_cover [of page out] o(2) by auto
qed

section \<open>Subtracting\<close>

text \<open>Pieces of one range, from an address on.\<close>

definition pieces :: "nat \<Rightarrow> nat \<Rightarrow> nat \<Rightarrow> range list \<Rightarrow> bool" where
  "pieces page lo hi new \<longleftrightarrow> paged page new \<and> ordered new \<and> (\<forall>r \<in> set new. lo \<le> start r \<and> range_end r \<le> hi)"

lemma pieces_Cons:
  assumes "pieces page m hi new" "lo < m" "m \<le> m'" "page dvd lo" "page dvd m" "m \<le> hi"
  shows "pieces page lo hi (\<lparr>start = lo, range_end = m\<rparr> # new)"
  using assms unfolding pieces_def by (fastforce simp: paged_Cons ordered_simps)

lemma pieces_mono: "pieces page m hi new \<Longrightarrow> lo \<le> m \<Longrightarrow> pieces page lo hi new"
  unfolding pieces_def by fastforce

lemma later_holes:
  assumes "ordered (hole # holes)" "paged page (hole # holes)" "x \<in> cover holes"
  shows "range_end hole \<le> x"
  using assms by (fastforce simp: ordered_simps cover_def pts_def)

lemma subtract_one_cover:
  assumes "subtract_one cap r cursor out holes = Ok ys" "ordered holes" "paged page holes"
    "cursor < range_end r" "page dvd cursor" "page dvd range_end r"
  shows "\<exists>new. ys = out @ new \<and> pieces page cursor (range_end r) new \<and> cover new = {cursor..<range_end r} - cover holes"
  using assms
proof (induction holes arbitrary: cursor out)
  case Nil
  then show ?case
    by (intro exI [of _ "if cursor < range_end r then [\<lparr>start = cursor, range_end = range_end r\<rparr>] else []"])
      (auto simp: pieces_def paged_Cons ordered_simps pts_def split: if_splits)
next
  case (Cons hole holes)
  have holes: "ordered holes" "paged page holes" and hole: "start hole < range_end hole" "page dvd start hole" "page dvd range_end hole"
    using Cons.prems(2,3) by (auto simp: ordered_simps paged_Cons)
  show ?case
  proof (cases "range_end hole \<le> cursor \<or> start hole \<ge> range_end r")
    case True
    then have "subtract_one cap r cursor out holes = Ok ys"
      using Cons.prems(1) by simp
    then obtain new where "ys = out @ new" "pieces page cursor (range_end r) new" "cover new = {cursor..<range_end r} - cover holes"
      using Cons.IH holes Cons.prems(4-6) by blast
    moreover have "pts hole \<inter> {cursor..<range_end r} = {}"
      using True by (auto simp: pts_def)
    ultimately show ?thesis
      by (intro exI [of _ new]) auto
  next
    case False
    define m where "m = max (start hole) cursor"
    define out1 where "out1 = (if cursor < m then out @ [\<lparr>start = cursor, range_end = m\<rparr>] else out)"
    define c where "c = min (range_end hole) (range_end r)"
    have m: "cursor \<le> m" "m < c" "page dvd m" "c \<le> range_end r" "page dvd c"
      using False hole Cons.prems(4-6) unfolding m_def c_def by (auto simp: max_def min_def)
    have step: "(if c = range_end r then Ok out1 else subtract_one cap r c out1 holes) = Ok ys"
      using Cons.prems(1) False unfolding out1_def m_def c_def by (auto simp: Let_def split: if_splits)
    have front: "{cursor..<range_end r} - cover (hole # holes) = {cursor..<m} \<union> ({c..<range_end r} - cover holes)"
    proof -
      have "x < range_end hole \<Longrightarrow> x \<notin> cover holes" for x
        using later_holes [OF Cons.prems(2,3)] by fastforce
      then show ?thesis
        using False hole(1) unfolding m_def c_def by (auto simp: pts_def)
    qed
    obtain new where new: "ys = out1 @ new" "pieces page c (range_end r) new" "cover new = {c..<range_end r} - cover holes"
    proof (cases "c = range_end r")
      case True
      then show ?thesis
        using step that [of "[]"] by (simp add: pieces_def ordered_simps)
    next
      case False
      then show ?thesis
        using step Cons.IH [OF _ holes _ m(5) Cons.prems(6), of out1] m(4) that by auto
    qed
    have p: "pieces page m (range_end r) new"
      using pieces_mono [OF new(2)] m(2) by simp
    show ?thesis
    proof (cases "cursor < m")
      case True
      then have "pieces page cursor (range_end r) (\<lparr>start = cursor, range_end = m\<rparr> # new)"
        using pieces_Cons [OF p] m Cons.prems(5) by auto
      then show ?thesis
        using True new front unfolding out1_def
        by (intro exI [of _ "\<lparr>start = cursor, range_end = m\<rparr> # new"]) (simp add: pts_def)
    next
      case False
      then have "m = cursor"
        using m(1) by simp
      then show ?thesis
        using new front p unfolding out1_def by (intro exI [of _ new]) simp
    qed
  qed
qed

lemma subtract_all_cover:
  assumes "subtract_all cap holes out rs = Ok ys" "ordered holes" "paged page holes" "ordered rs" "paged page rs"
  shows "\<exists>new. ys = out @ new \<and> paged page new \<and> ordered new \<and> cover new = cover rs - cover holes \<and>
    (\<forall>n \<in> set new. \<exists>r \<in> set rs. start r \<le> start n \<and> range_end n \<le> range_end r)"
  using assms(1,4,5)
proof (induction rs arbitrary: out)
  case (Cons r rs)
  have r: "start r < range_end r" "page dvd start r" "page dvd range_end r"
    using Cons.prems(3) by (auto simp: paged_Cons)
  obtain out' where o: "subtract_one cap r (start r) out holes = Ok out'" "subtract_all cap holes out' rs = Ok ys"
    using Cons.prems(1) by auto
  obtain n1 where n1: "out' = out @ n1" "pieces page (start r) (range_end r) n1" "cover n1 = {start r..<range_end r} - cover holes"
    using subtract_one_cover [OF o(1) assms(2,3)] r by auto
  obtain n2 where n2: "ys = out' @ n2" "paged page n2" "ordered n2" "cover n2 = cover rs - cover holes"
    "\<forall>n \<in> set n2. \<exists>r \<in> set rs. start r \<le> start n \<and> range_end n \<le> range_end r"
    using Cons.IH [OF o(2)] Cons.prems(2,3) by (auto simp: ordered_simps paged_Cons)
  have "range_end a \<le> start b" if "a \<in> set n1" "b \<in> set n2" for a b
  proof -
    obtain q where "q \<in> set rs" "start q \<le> start b"
      using n2(5) \<open>b \<in> set n2\<close> by blast
    moreover have "range_end r \<le> start q" "range_end a \<le> range_end r"
      using \<open>q \<in> set rs\<close> Cons.prems(2) n1(2) \<open>a \<in> set n1\<close> unfolding pieces_def by (auto simp: ordered_simps)
    ultimately show ?thesis
      by linarith
  qed
  then have "ordered (n1 @ n2)"
    using n1(2) n2(3) unfolding pieces_def by (auto simp: ordered_simps)
  moreover have "\<forall>n \<in> set (n1 @ n2). \<exists>q \<in> set (r # rs). start q \<le> start n \<and> range_end n \<le> range_end q"
    using n1(2) n2(5) unfolding pieces_def by auto
  moreover have "cover (n1 @ n2) = cover (r # rs) - cover holes"
    using n1(3) n2(4) by (auto simp: pts_def)
  ultimately show ?case
    using n1 n2(1,2) unfolding pieces_def by (intro exI [of _ "n1 @ n2"]) simp
qed (simp add: ordered_simps)

lemma subtract_into_cover:
  assumes "subtract_into cap rs holes = Ok ys" "ordered holes" "paged page holes" "ordered rs" "paged page rs"
  shows "paged page ys" "ordered ys" "cover ys = cover rs - cover holes"
  using subtract_all_cover [OF assms(1) [unfolded subtract_into_def] assms(2-)] by auto

section \<open>Aligning\<close>

lemma power_of_two_exp: "is_power_of_two n \<Longrightarrow> \<exists>k. n = 2 ^ k"
proof (induction n rule: less_induct)
  case (less n)
  show ?case
  proof (cases "even n")
    case True
    then obtain m where m: "n = 2 * m"
      by blast
    then have pos: "m > 0"
      using less.prems unfolding is_power_of_two_def by simp
    have "n AND (n - 1) = 2 * (m AND (m - 1))"
    proof -
      have "n - 1 = 2 * (m - 1) + 1"
        using m pos by simp
      then show ?thesis
        unfolding m by (simp add: and_nat_rec [of "2 * m"])
    qed
    then have "is_power_of_two m"
      using less.prems pos unfolding is_power_of_two_def by simp
    then obtain k where "m = 2 ^ k"
      using less.IH [of m] m pos by auto
    then have "n = 2 ^ Suc k"
      using m by simp
    then show ?thesis
      by blast
  next
    case False
    then obtain m where m: "n = 2 * m + 1"
      by (elim oddE)
    then have "n AND (n - 1) = 2 * m"
      by (simp add: and_nat_rec [of "Suc (2 * m)"])
    then have "n = 2 ^ 0"
      using less.prems m unfolding is_power_of_two_def by simp
    then show ?thesis
      by blast
  qed
qed

lemma clear_low_bits: "unat ((word_of_nat e :: u64) AND NOT (mask k)) = e div 2 ^ k * 2 ^ k" if "e < 2 ^ 64"
proof -
  have eq: "(word_of_nat e :: u64) AND NOT (mask k) = word_of_nat (e div 2 ^ k * 2 ^ k)"
  proof (rule bit_word_eqI)
    fix n
    assume "n < LENGTH(64)"
    moreover have "e div 2 ^ k * 2 ^ k = push_bit k (drop_bit k e)"
      by (simp add: push_bit_eq_mult drop_bit_eq_div)
    ultimately show "bit ((word_of_nat e :: u64) AND NOT (mask k)) n = bit (word_of_nat (e div 2 ^ k * 2 ^ k) :: u64) n"
      by (auto simp: bit_simps)
  qed
  have "e div 2 ^ k * 2 ^ k < 2 ^ 64"
    using that div_times_less_eq_dividend [of e "2 ^ k"] by linarith
  then show ?thesis
    unfolding eq unsigned_of_nat by (simp add: take_bit_nat_eq_self_iff)
qed

lemma align_up_exact:
  assumes "align_up v al = Ok a" "is_power_of_two al"
  shows "al dvd a" "v \<le> a" "al dvd b \<Longrightarrow> v \<le> b \<Longrightarrow> a \<le> b"
proof -
  obtain k where k: "al = 2 ^ k"
    using power_of_two_exp [OF assms(2)] by blast
  have e: "v + (al - 1) < 2 ^ 64" "a = unat ((word_of_nat (v + (al - 1)) :: u64) AND NOT (word_of_nat (al - 1)))"
    using assms(1) unfolding align_up_def by (auto split: option.splits)
  have "word_of_nat (al - 1) = (mask k :: u64)"
    unfolding k mask_eq_exp_minus_1 by (simp add: of_nat_diff)
  then have a: "a = (v + (al - 1)) div al * al"
    using clear_low_bits [OF e(1), of k] e(2) unfolding k by simp
  have pos: "0 < al"
    unfolding k by simp
  show "al dvd a"
    unfolding a by simp
  have "a + (v + (al - 1)) mod al = v + (al - 1)" "(v + (al - 1)) mod al < al"
    unfolding a using pos by simp_all
  then show "v \<le> a"
    by linarith
  show "a \<le> b" if "al dvd b" "v \<le> b"
  proof -
    obtain q where q: "b = al * q"
      using \<open>al dvd b\<close> by blast
    have "v + (al - 1) < al * (q + 1)"
      using \<open>v \<le> b\<close> pos unfolding q by simp
    then have "(v + (al - 1)) div al < q + 1"
      using pos by (simp add: div_less_iff_less_mult mult.commute)
    then have "(v + (al - 1)) div al * al \<le> q * al"
      by (intro mult_le_mono1) simp
    then show ?thesis
      unfolding a q by (simp only: mult.commute)
  qed
qed

section \<open>Placing\<close>

text \<open>A range of the given length and alignment within a set of addresses.\<close>

definition fits :: "nat \<Rightarrow> nat \<Rightarrow> nat set \<Rightarrow> nat \<Rightarrow> bool" where
  "fits len al A a \<longleftrightarrow> al dvd a \<and> {a..<a + len} \<subseteq> A"

lemma fit_exact:
  assumes "fit s e len al = Ok f" "is_power_of_two al" "0 < len"
  shows "case f of Some r \<Rightarrow> fits len al {s..<e} (start r) \<and> range_end r = start r + len
    | None \<Rightarrow> \<not> (\<exists>a. fits len al {s..<e} a)"
proof (cases "s < e")
  case True
  then obtain a where a: "align_up s al = Ok a" "f = (if a + len \<le> e then Some \<lparr>start = a, range_end = a + len\<rparr> else None)"
    using assms(1) unfolding fit_def by (auto split: option.splits)
  note al = align_up_exact [OF a(1) assms(2)]
  show ?thesis
  proof (cases "a + len \<le> e")
    case True
    then show ?thesis
      using a(2) al(1,2) unfolding fits_def by auto
  next
    case False
    have "\<not> fits len al {s..<e} b" for b
    proof
      assume b: "fits len al {s..<e} b"
      then have "s \<le> b" "b + len \<le> e"
        using assms(3) unfolding fits_def by auto
      then show False
        using al(3) [of b] b False unfolding fits_def by auto
    qed
    then show ?thesis
      using a(2) False by simp
  qed
next
  case False
  then show ?thesis
    using assms(1,3) unfolding fit_def fits_def by auto
qed

text \<open>What fits around a hole fits before or behind it.\<close>

lemma fits_around:
  assumes "fits len al ({s..<e} - cover (hole # holes)) a" "0 < len" "start hole < range_end hole"
  shows "fits len al {s..<start hole} a \<or> fits len al ({range_end hole..<e} - cover holes) a"
proof -
  have in': "{a..<a + len} \<subseteq> {s..<e}" "{a..<a + len} \<inter> pts hole = {}" "{a..<a + len} \<inter> cover holes = {}" "al dvd a"
    using assms(1) unfolding fits_def cover_simps by blast+
  then have "a + len \<le> start hole \<or> range_end hole \<le> a"
    using assms(2,3) unfolding pts_def by (simp add: max_def min_def split: if_splits)
  moreover have "s \<le> a" "a + len \<le> e"
    using in'(1) assms(2) by simp_all
  ultimately show ?thesis
    using in'(3,4) unfolding fits_def by (elim disjE) (auto simp: disjoint_iff)
qed

lemma place_in_exact:
  assumes "place_in m len al cursor holes = Ok f" "is_power_of_two al" "0 < len" "ordered holes" "paged page holes"
  shows "case f of Some r \<Rightarrow> fits len al ({cursor..<range_end m} - cover holes) (start r) \<and> range_end r = start r + len
    | None \<Rightarrow> \<not> (\<exists>a. fits len al ({cursor..<range_end m} - cover holes) a)"
  using assms(1,4,5)
proof (induction holes arbitrary: cursor)
  case Nil
  then show ?case
    using fit_exact [OF _ assms(2,3)] unfolding place_in.simps cover_simps Diff_empty by blast
next
  case (Cons hole holes)
  have holes: "ordered holes" "paged page holes" and hole: "start hole < range_end hole"
    using Cons.prems(2,3) by (auto simp: ordered_simps paged_Cons)
  have later: "range_end hole \<le> x" if "x \<in> cover holes" for x
    by (rule later_holes [OF Cons.prems(2,3) that])
  show ?case
  proof (cases "range_end hole \<le> cursor \<or> start hole \<ge> range_end m")
    case True
    then have same: "{cursor..<range_end m} - cover (hole # holes) = {cursor..<range_end m} - cover holes"
      by (auto simp: pts_def)
    have "place_in m len al cursor holes = Ok f"
      using Cons.prems(1) True by simp
    then show ?thesis
      unfolding same by (rule Cons.IH [OF _ holes])
  next
    case False
    define c where "c = min (range_end hole) (range_end m)"
    have split: "{cursor..<start hole} \<union> ({c..<range_end m} - cover holes) = {cursor..<range_end m} - cover (hole # holes)"
      using False hole later unfolding c_def by (fastforce simp: pts_def)
    have "min (start hole) (range_end m) = start hole"
      using False by simp
    then obtain g where g: "fit cursor (start hole) len al = Ok g"
      "(case g of Some r \<Rightarrow> Ok (Some r) | None \<Rightarrow>
         if c = range_end m then fit c (range_end m) len al else place_in m len al c holes) = Ok f"
      using Cons.prems(1) False unfolding c_def by (auto simp: Let_def)
    note fg = fit_exact [OF g(1) assms(2,3)]
    show ?thesis
    proof (cases g)
      case (Some r)
      then show ?thesis
        using g(2) fg unfolding split [symmetric] fits_def by auto
    next
      case None
      have rest: "case f of Some r \<Rightarrow> fits len al ({c..<range_end m} - cover holes) (start r) \<and> range_end r = start r + len
          | None \<Rightarrow> \<not> (\<exists>a. fits len al ({c..<range_end m} - cover holes) a)"
      proof (cases "c = range_end m")
        case True
        then show ?thesis
          using g(2) None assms(3) by (auto simp: fit_def fits_def)
      next
        case False
        then show ?thesis
          using g(2) None Cons.IH [OF _ holes, of c] by simp
      qed
      show ?thesis
      proof (cases f)
        case (Some r)
        then show ?thesis
          using rest unfolding split [symmetric] fits_def by auto
      next
        case None': None
        have "{c..<range_end m} = {range_end hole..<range_end m}"
          unfolding c_def by auto
        then show ?thesis
          using fits_around [OF _ assms(3) hole, of al cursor "range_end m" holes] fg None rest None' by auto
      qed
    qed
  qed
qed

text \<open>A free place of one memory.\<close>

definition spot :: "nat \<Rightarrow> nat \<Rightarrow> range list \<Rightarrow> range list \<Rightarrow> nat \<Rightarrow> bool" where
  "spot len al ms holes a \<longleftrightarrow> (\<exists>m \<in> set ms. fits len al (pts m - cover holes) a)"

lemma place_one_exact:
  assumes "place_one ms holes len al = Ok f" "is_power_of_two al" "0 < len" "ordered holes" "paged page holes"
  shows "case f of Some r \<Rightarrow> spot len al ms holes (start r) \<and> range_end r = start r + len
    | None \<Rightarrow> \<not> (\<exists>a. spot len al ms holes a)"
  using assms(1)
proof (induction ms)
  case Nil
  then show ?case by (simp add: spot_def)
next
  case (Cons m ms)
  obtain g where g: "place_in m len al (start m) holes = Ok g"
    "(case g of Some r \<Rightarrow> Ok (Some r) | None \<Rightarrow> place_one ms holes len al) = Ok f"
    using Cons.prems by auto
  note pg = place_in_exact [OF g(1) assms(2-5)]
  show ?case
  proof (cases g)
    case None
    then show ?thesis
      using g(2) pg Cons.IH by (cases f) (auto simp: spot_def pts_def)
  next
    case (Some r)
    then show ?thesis
      using g(2) pg by (auto simp: spot_def pts_def)
  qed
qed

text \<open>A placed range, and what placing it does to the unavailable ranges.\<close>

lemma place_step:
  assumes "place_one ms u len al = Ok (Some r)" "is_power_of_two al" "0 < len" "ordered u" "paged page u"
    "page dvd al" "page dvd len"
  shows "paged page [r]" "al dvd start r" "range_len r = len" "pts r \<subseteq> cover ms" "pts r \<inter> cover u = {}"
    "ordered (normalize (u @ [r]))" "paged page (normalize (u @ [r]))" "cover (normalize (u @ [r])) = cover u \<union> pts r"
proof -
  have r: "spot len al ms u (start r)" "range_end r = start r + len"
    using place_one_exact [OF assms(1-5)] by auto
  then obtain m where m: "m \<in> set ms" "al dvd start r" "pts r \<subseteq> pts m - cover u"
    unfolding spot_def fits_def pts_def by auto
  then show "al dvd start r" "range_len r = len" "pts r \<subseteq> cover ms" "pts r \<inter> cover u = {}"
    using r(2) unfolding cover_def range_len_def by auto
  show p: "paged page [r]"
    using m(2) r(2) assms(3,6,7) by (auto simp: paged_Cons intro: dvd_trans dvd_add)
  show "ordered (normalize (u @ [r]))" "paged page (normalize (u @ [r]))" "cover (normalize (u @ [r])) = cover u \<union> pts r"
    using normalize_cover [of page "u @ [r]"] assms(5) p by auto
qed

text \<open>Ranges placed one after the other.\<close>

definition placed :: "nat \<Rightarrow> nat \<Rightarrow> nat \<Rightarrow> range list \<Rightarrow> range list \<Rightarrow> range list \<Rightarrow> bool" where
  "placed page len al ms u rs \<longleftrightarrow> paged page rs \<and> (\<forall>r \<in> set rs. al dvd start r \<and> range_len r = len) \<and>
     cover rs \<subseteq> cover ms \<and> cover rs \<inter> cover u = {} \<and> sorted_wrt (\<lambda>a b. pts a \<inter> pts b = {}) rs"

lemma place_many_exact:
  assumes "place_many cap ms len al missing i n u slots = Ok (u', slots')" "i + n \<le> length slots"
    "is_power_of_two al" "0 < len" "page dvd al" "page dvd len" "ordered u" "paged page u"
  shows "\<exists>rs. length rs = n \<and> slots' = take i slots @ rs @ drop (i + n) slots \<and> placed page len al ms u rs \<and>
    ordered u' \<and> paged page u' \<and> cover u' = cover u \<union> cover rs"
  using assms(1,2,7,8)
proof (induction n arbitrary: i u slots)
  case 0
  then show ?case
    by (auto simp: placed_def)
next
  case (Suc n)
  obtain r where r: "place_one ms u len al = Ok (Some r)"
    "place_many cap ms len al missing (i + 1) n (normalize (u @ [r])) (slots[i := r]) = Ok (u', slots')"
    using Suc.prems(1) by auto
  note st = place_step [OF r(1) assms(3,4) Suc.prems(3,4) assms(5,6)]
  obtain rs where rs: "length rs = n" "slots' = take (i + 1) (slots[i := r]) @ rs @ drop (i + 1 + n) (slots[i := r])"
    "placed page len al ms (normalize (u @ [r])) rs" "ordered u'" "paged page u'" "cover u' = cover (normalize (u @ [r])) \<union> cover rs"
    using Suc.IH [OF r(2) _ st(6,7)] Suc.prems(2) by auto
  have "slots' = take i slots @ (r # rs) @ drop (i + Suc n) slots"
    using rs(2) Suc.prems(2) by (simp add: take_Suc_conv_app_nth)
  moreover have "placed page len al ms u (r # rs)"
  proof -
    have "cover rs \<inter> pts r = {}" "cover rs \<inter> cover u = {}"
      using rs(3) st(8) unfolding placed_def by auto
    then have "\<forall>b \<in> set rs. pts r \<inter> pts b = {}"
      unfolding cover_def by auto
    then show ?thesis
      using rs(3) st(1-5) \<open>cover rs \<inter> cover u = {}\<close> unfolding placed_def by (auto simp: paged_Cons)
  qed
  ultimately show ?case
    using rs(1,4-6) st(8) by (intro exI [of _ "r # rs"]) auto
qed

lemma placed_card:
  "placed page len al ms u rs \<Longrightarrow> card (cover rs) = len * length rs"
proof (induction rs)
  case (Cons r rs)
  have "pts r \<inter> cover rs = {}"
    using Cons.prems unfolding placed_def cover_def by auto
  then have "card (cover (r # rs)) = card (pts r) + card (cover rs)"
    by (simp add: card_Un_disjoint pts_def)
  moreover have "placed page len al ms u rs" "card (pts r) = len"
    using Cons.prems unfolding placed_def by (auto simp: paged_Cons pts_def range_len_def)
  ultimately show ?case
    using Cons.IH by simp
qed simp

section \<open>Counting\<close>

lemma bytes_from_Ok: "bytes_from acc xs = Ok n \<Longrightarrow> n = acc + sum_list (map range_len xs)"
  by (induction xs arbitrary: acc) fastforce+

lemma bytes_card: "bytes xs = Ok n \<Longrightarrow> paged page xs \<Longrightarrow> ordered xs \<Longrightarrow> n = card (cover xs)"
  using bytes_from_Ok [of 0 xs n] ordered_card [of page xs] unfolding bytes_def by simp

end
