(* ===== verification/Memory_Supply_Props.thy ===== *)
theory Memory_Supply_Props
  imports Memory_Supply_Ranges
begin

text \<open>
  The plan as a whole: a successful plan classifies every managed byte exactly once, and its tickets are handed out once each.
\<close>

section \<open>The parts of a plan\<close>

lemma classify_cover:
  assumes "classify cap managed perm boot page = Ok (ms, pm, bh, u)"
  shows "ms = sort_ranges managed" "paged page ms" "ordered ms" "paged page pm" "ordered pm" "paged page bh" "ordered bh" "paged page u" "ordered u"
    "cover ms = cover managed" "cover pm = cover perm \<inter> cover managed" "cover bh = cover boot \<inter> cover managed - cover perm"
    "cover u = cover pm \<union> cover bh"
proof -
  obtain rb u1 u2 where s: "normalize_memories_into cap managed page = Ok ms" "clip_and_normalize_into cap perm ms page = Ok pm"
    "clip_and_normalize_into cap boot ms page = Ok rb" "subtract_into cap rb pm = Ok bh" "copy_into cap pm = Ok u1"
    "append_into cap u1 bh = Ok u2" "u = normalize u2"
    using assms unfolding classify_def by auto
  show m: "ms = sort_ranges managed" "paged page ms" "ordered ms" "cover ms = cover managed"
    using normalize_memories_cover [OF s(1)] by blast+
  show p: "paged page pm" "ordered pm" "cover pm = cover perm \<inter> cover managed"
    using clip_and_normalize_cover [OF s(2) m(2)] m(4) by auto
  have r: "paged page rb" "ordered rb" "cover rb = cover boot \<inter> cover managed"
    using clip_and_normalize_cover [OF s(3) m(2)] m(4) by auto
  show b: "paged page bh" "ordered bh" "cover bh = cover boot \<inter> cover managed - cover perm"
    using subtract_into_cover [OF s(4) p(2,1) r(2,1)] p(3) r(3) by auto
  have "u2 = pm @ bh"
    using append_into_Ok [OF s(6)] append_into_Ok [of cap "[]" pm u1] s(5) unfolding copy_into_def by simp
  then show "paged page u" "ordered u" "cover u = cover pm \<union> cover bh"
    using normalize_cover [of page u2] p(1) b(1) s(7) by auto
qed

definition requirements_ok :: "planner \<Rightarrow> requirements \<Rightarrow> bool" where
  "requirements_ok pl rq \<longleftrightarrow> is_power_of_two (page_size rq) \<and> 0 < metadata_bytes_req rq \<and>
     heap_chunk_count rq \<le> length (planner_heap pl) \<and> recovery_ticket_count rq \<le> length (planner_recovery pl) \<and>
     (0 < heap_chunk_count rq \<longrightarrow> is_power_of_two (heap_chunk_size rq) \<and> page_size rq \<le> heap_chunk_size rq) \<and>
     (0 < recovery_ticket_count rq \<longrightarrow> 0 < recovery_ticket_size rq \<and> page_size rq dvd recovery_ticket_size rq)"

lemma validate_requirements_Ok:
  "validate_requirements (length (planner_heap pl)) (length (planner_recovery pl)) rq = Ok x \<longleftrightarrow> requirements_ok pl rq"
  unfolding validate_requirements_def requirements_ok_def by (auto split: if_splits)

lemma power_of_two_dvd: "is_power_of_two a \<Longrightarrow> is_power_of_two b \<Longrightarrow> a \<le> b \<Longrightarrow> a dvd b"
  using power_of_two_exp [of a] power_of_two_exp [of b] by (auto simp: le_imp_power_dvd)

text \<open>The ranges placed by one of the two loops, none when nothing is asked for.\<close>

lemma place_many_placed:
  assumes "place_many cap ms len al missing 0 n u slots = Ok (u', slots')" "n \<le> length slots" "ordered u" "paged page u"
    "0 < n \<Longrightarrow> is_power_of_two al \<and> 0 < len \<and> page dvd al \<and> page dvd len"
  shows "placed page len al ms u (take n slots') \<and> length slots' = length slots \<and> ordered u' \<and> paged page u' \<and>
    cover u' = cover u \<union> cover (take n slots')"
proof (cases "n = 0")
  case True
  then have "u' = u" "slots' = slots"
    using assms(1) by simp_all
  then show ?thesis
    using True assms(3,4) by (simp add: placed_def)
next
  case False
  then obtain rs where rs: "length rs = n" "slots' = rs @ drop n slots" "placed page len al ms u rs" "ordered u'" "paged page u'"
    "cover u' = cover u \<union> cover rs"
    using place_many_exact [OF assms(1), of page] assms(2-5) by auto
  then have "take n slots' = rs" "length slots' = length slots"
    using assms(2) by auto
  then show ?thesis
    using rs by simp
qed

lemma place_system_cover:
  assumes "place_system pl ms u rq = Ok (ml, mr, u', hs, rs)" "requirements_ok pl rq" "ordered u" "paged (page_size rq) u"
  defines "H \<equiv> take (heap_chunk_count rq) hs" and "R \<equiv> take (recovery_ticket_count rq) rs"
  shows "paged (page_size rq) [mr]" "range_len mr = ml" "metadata_bytes_req rq \<le> ml"
    "pts mr \<subseteq> cover ms" "pts mr \<inter> cover u = {}"
    "placed (page_size rq) (heap_chunk_size rq) (heap_chunk_size rq) ms (u @ [mr]) H"
    "placed (page_size rq) (recovery_ticket_size rq) (page_size rq) ms (u @ mr # H) R"
    "ordered u'" "paged (page_size rq) u'" "cover u' = cover u \<union> pts mr \<union> cover H \<union> cover R"
    "length H = heap_chunk_count rq" "length R = recovery_ticket_count rq"
    "length hs = length (planner_heap pl)" "length rs = length (planner_recovery pl)"
proof -
  obtain u2 where s: "align_up (metadata_bytes_req rq) (page_size rq) = Ok ml" "place_one ms u ml (page_size rq) = Ok (Some mr)"
    "place_many (ranges_cap pl) ms (heap_chunk_size rq) (heap_chunk_size rq) InsufficientHeap 0 (heap_chunk_count rq)
       (normalize (u @ [mr])) (planner_heap pl) = Ok (u2, hs)"
    "place_many (ranges_cap pl) ms (recovery_ticket_size rq) (page_size rq) InsufficientRecovery 0 (recovery_ticket_count rq)
       u2 (planner_recovery pl) = Ok (u', rs)"
    using assms(1) unfolding place_system_def by (auto simp: Let_def)
  have page: "is_power_of_two (page_size rq)"
    using assms(2) unfolding requirements_ok_def by blast
  note ml = align_up_exact [OF s(1) page]
  have "0 < ml"
    using ml(2) assms(2) unfolding requirements_ok_def by linarith
  note st = place_step [OF s(2) page this assms(3,4) dvd_refl ml(1)]
  show "paged (page_size rq) [mr]" "range_len mr = ml" "metadata_bytes_req rq \<le> ml" "pts mr \<subseteq> cover ms" "pts mr \<inter> cover u = {}"
    using st ml(2) by blast+
  have heap: "0 < heap_chunk_count rq \<Longrightarrow> is_power_of_two (heap_chunk_size rq) \<and> 0 < heap_chunk_size rq \<and>
      page_size rq dvd heap_chunk_size rq \<and> page_size rq dvd heap_chunk_size rq"
  proof -
    assume "0 < heap_chunk_count rq"
    then have "is_power_of_two (heap_chunk_size rq)" "page_size rq \<le> heap_chunk_size rq"
      using assms(2) unfolding requirements_ok_def by blast+
    then show ?thesis
      using power_of_two_dvd [OF page] is_power_of_two_def [of "heap_chunk_size rq"] by blast
  qed
  have rec: "0 < recovery_ticket_count rq \<Longrightarrow> is_power_of_two (page_size rq) \<and> 0 < recovery_ticket_size rq \<and>
      page_size rq dvd page_size rq \<and> page_size rq dvd recovery_ticket_size rq"
    using assms(2) unfolding requirements_ok_def by simp
  have len: "heap_chunk_count rq \<le> length (planner_heap pl)" "recovery_ticket_count rq \<le> length (planner_recovery pl)"
    using assms(2) unfolding requirements_ok_def by blast+
  from place_many_placed [OF s(3) len(1) st(6,7) heap]
  have h: "placed (page_size rq) (heap_chunk_size rq) (heap_chunk_size rq) ms (normalize (u @ [mr])) H" "length hs = length (planner_heap pl)"
    "ordered u2" "paged (page_size rq) u2" "cover u2 = cover (normalize (u @ [mr])) \<union> cover H"
    unfolding H_def by blast+
  from place_many_placed [OF s(4) len(2) h(3,4) rec]
  have r: "placed (page_size rq) (recovery_ticket_size rq) (page_size rq) ms u2 R" "length rs = length (planner_recovery pl)"
    "ordered u'" "paged (page_size rq) u'" "cover u' = cover u2 \<union> cover R"
    unfolding R_def by blast+
  show "placed (page_size rq) (heap_chunk_size rq) (heap_chunk_size rq) ms (u @ [mr]) H"
    "placed (page_size rq) (recovery_ticket_size rq) (page_size rq) ms (u @ mr # H) R"
    using h(1,5) r(1) st(8) unfolding placed_def by (simp_all add: Un_assoc)
  show "ordered u'" "paged (page_size rq) u'" "length hs = length (planner_heap pl)" "length rs = length (planner_recovery pl)"
    by (fact r(3) r(4) h(2) r(2))+
  show "cover u' = cover u \<union> pts mr \<union> cover H \<union> cover R"
    using r(5) h(5) st(8) by simp
  show "length H = heap_chunk_count rq" "length R = recovery_ticket_count rq"
    using len h(2) r(2) unfolding H_def R_def by simp_all
qed

section \<open>The classification\<close>

definition partitions :: "nat set \<Rightarrow> nat set list \<Rightarrow> bool" where
  "partitions A xs \<longleftrightarrow> A = \<Union> (set xs) \<and> sorted_wrt (\<lambda>a b. a \<inter> b = {}) xs"

lemma partitions_card: "partitions A xs \<Longrightarrow> \<forall>x \<in> set xs. finite x \<Longrightarrow> card A = sum_list (map card xs)"
proof (induction xs arbitrary: A)
  case (Cons x xs)
  have "x \<inter> \<Union> (set xs) = {}" "A = x \<union> \<Union> (set xs)" "partitions (\<Union> (set xs)) xs"
    using Cons.prems(1) unfolding partitions_def by auto
  then show ?case
    using Cons card_Un_disjoint [of x "\<Union> (set xs)"] by auto
qed (simp add: partitions_def)

lemma plan_partition:
  assumes "classify cap managed perm boot (page_size rq) = Ok (ms, pm, bh, u)" "requirements_ok pl rq"
    "place_system pl ms u rq = Ok (ml, mr, u', hs, rs)" "subtract_into cap ms u' = Ok uf"
  defines "H \<equiv> take (heap_chunk_count rq) hs" and "R \<equiv> take (recovery_ticket_count rq) rs"
  shows "partitions (cover managed) [cover pm, cover bh, pts mr, cover H, cover R, cover uf]"
    "paged (page_size rq) uf" "ordered uf"
proof -
  note c = classify_cover [OF assms(1)]
  note p = place_system_cover [OF assms(3,2) c(9,8), folded H_def R_def]
  show f: "paged (page_size rq) uf" "ordered uf"
    using subtract_into_cover [OF assms(4) p(8,9) c(3,2)] by blast+
  have fc: "cover uf = cover managed - (cover pm \<union> cover bh \<union> pts mr \<union> cover H \<union> cover R)"
    using subtract_into_cover(3) [OF assms(4) p(8,9) c(3,2)] unfolding p(10) c(10,13) .
  have in': "cover pm \<subseteq> cover managed" "cover bh \<subseteq> cover managed" "pts mr \<subseteq> cover managed" "cover H \<subseteq> cover managed" "cover R \<subseteq> cover managed"
    using c(11,12) p(4,6,7) unfolding c(10) placed_def by blast+
  have "cover pm \<inter> cover bh = {}" "pts mr \<inter> (cover pm \<union> cover bh) = {}"
    using c(11,12) p(5) unfolding c(13) by blast+
  moreover have "cover H \<inter> (cover pm \<union> cover bh \<union> pts mr) = {}" "cover R \<inter> (cover pm \<union> cover bh \<union> pts mr \<union> cover H) = {}"
    using p(6,7) unfolding placed_def c(13) cover_simps by blast+
  ultimately show "partitions (cover managed) [cover pm, cover bh, pts mr, cover H, cover R, cover uf]"
    unfolding partitions_def using fc in' by (simp add: sorted_wrt.simps) blast
qed

lemma system_total_Ok:
  "system_total ml rq = Ok sb \<Longrightarrow> sb = ml + heap_chunk_size rq * heap_chunk_count rq + recovery_ticket_size rq * recovery_ticket_count rq"
  unfolding system_total_def by (auto simp: bind_eq_Some_conv)

lemma plan_sums:
  assumes "classify cap managed perm boot (page_size rq) = Ok (ms, pm, bh, u)" "requirements_ok pl rq"
    "place_system pl ms u rq = Ok (ml, mr, u', hs, rs)" "subtract_into cap ms u' = Ok uf"
    "bytes ms = Ok mb" "bytes pm = Ok pb" "bytes bh = Ok bb" "system_total ml rq = Ok sb" "bytes uf = Ok ub"
  shows "mb = card (cover managed)" "pb = card (cover pm)" "bb = card (cover bh)" "ub = card (cover uf)" "mb = pb + bb + sb + ub"
proof -
  note c = classify_cover [OF assms(1)]
  note p = place_system_cover [OF assms(3,2) c(9,8)]
  note q = plan_partition [OF assms(1-4)]
  show mb: "mb = card (cover managed)" and pb: "pb = card (cover pm)" and bb: "bb = card (cover bh)" and ub: "ub = card (cover uf)"
    using bytes_card [OF assms(5) c(2,3)] bytes_card [OF assms(6) c(4,5)] bytes_card [OF assms(7) c(6,7)]
      bytes_card [OF assms(9) q(2,3)] c(10) by simp_all
  have "sb = card (pts mr) + card (cover (take (heap_chunk_count rq) hs)) + card (cover (take (recovery_ticket_count rq) rs))"
    using system_total_Ok [OF assms(8)] placed_card [OF p(6)] placed_card [OF p(7)] p(2,11,12)
    by (simp add: pts_def range_len_def)
  then show "mb = pb + bb + sb + ub"
    using partitions_card [OF q(1)] mb pb bb ub by (simp add: pts_def)
qed

lemma plan_Ok_parts:
  assumes "plan_ranges pl managed perm boot rq = Ok p"
  obtains ms u ml u' where "requirements_ok pl rq"
    "classify (ranges_cap pl) managed perm boot (page_size rq) = Ok (ms, permanent (inventory p), boot_held (inventory p), u)"
    "place_system pl ms u rq = Ok (ml, supply_metadata (system p), u', heap_ranges (system p), recovery_ranges (system p))"
    "subtract_into (ranges_cap pl) ms u' = Ok (user_free (inventory p))"
    "bytes ms = Ok (managed_bytes (inventory p))" "bytes (permanent (inventory p)) = Ok (permanent_bytes (inventory p))"
    "bytes (boot_held (inventory p)) = Ok (boot_held_bytes (inventory p))" "system_total ml rq = Ok (system_bytes (inventory p))"
    "bytes (user_free (inventory p)) = Ok (user_free_bytes (inventory p))"
    "heap_count (system p) = heap_chunk_count rq" "recovery_count (system p) = recovery_ticket_count rq"
    "heap (system p) = tickets (heap_chunk_count rq) (heap_ranges (system p))" "heap_next (system p) = 0"
    "recovery (system p) = tickets (recovery_ticket_count rq) (recovery_ranges (system p))" "recovery_next (system p) = 0"
  using assms unfolding plan_ranges_def Let_def
  by (auto simp: validate_requirements_Ok split: if_splits prod.splits)

section \<open>Errors\<close>

text \<open>No step before the last one reports a mismatch.\<close>

lemma no_mismatch_steps:
  "push cap xs r \<noteq> Err ClassificationMismatch" "validate_range r page \<noteq> Err ClassificationMismatch"
  "align_up v al \<noteq> Err ClassificationMismatch" "fit s e len al \<noteq> Err ClassificationMismatch"
  by (auto simp: push_def validate_range_def align_up_def fit_def split: option.splits)

lemma no_mismatch_loops:
  "push_valid cap page out rs \<noteq> Err ClassificationMismatch" "append_into cap out rs \<noteq> Err ClassificationMismatch"
  "clip_one cap r out rs \<noteq> Err ClassificationMismatch" "bytes_from acc rs \<noteq> Err ClassificationMismatch"
  by (induction rs arbitrary: out acc) (auto simp: no_mismatch_steps Let_def)

lemma no_mismatch_clip: "clip_all cap page ms out rs \<noteq> Err ClassificationMismatch"
  by (induction rs arbitrary: out) (auto simp: no_mismatch_steps no_mismatch_loops)

lemma no_mismatch_cut: "subtract_one cap r c out hs \<noteq> Err ClassificationMismatch"
  by (induction hs arbitrary: c out) (auto simp: no_mismatch_steps Let_def split: if_splits)

lemma no_mismatch_subtract: "subtract_all cap hs out rs \<noteq> Err ClassificationMismatch"
  by (induction rs arbitrary: out) (auto simp: no_mismatch_cut)

lemma no_mismatch_place_in: "place_in m len al c hs \<noteq> Err ClassificationMismatch"
  by (induction hs arbitrary: c) (auto simp: no_mismatch_steps Let_def split: option.splits)

lemma no_mismatch_place: "place_one ms u len al \<noteq> Err ClassificationMismatch"
  by (induction ms) (auto simp: no_mismatch_place_in split: option.splits)

lemma no_mismatch_many:
  "missing \<noteq> ClassificationMismatch \<Longrightarrow> place_many cap ms len al missing i n u slots \<noteq> Err ClassificationMismatch"
  by (induction n arbitrary: i u slots) (auto simp: no_mismatch_place no_mismatch_steps)

lemma no_mismatch:
  "validate_requirements h r rq \<noteq> Err ClassificationMismatch" "classify cap managed perm boot page \<noteq> Err ClassificationMismatch"
  "place_system pl ms u rq \<noteq> Err ClassificationMismatch" "subtract_into cap rs hs \<noteq> Err ClassificationMismatch"
  "bytes rs \<noteq> Err ClassificationMismatch" "system_total ml rq \<noteq> Err ClassificationMismatch"
  by (auto simp: validate_requirements_def classify_def place_system_def subtract_into_def bytes_def system_total_def
      normalize_memories_into_def clip_and_normalize_into_def copy_into_def Let_def no_mismatch_steps no_mismatch_loops
      no_mismatch_clip no_mismatch_subtract no_mismatch_place no_mismatch_many split: if_splits prod.splits)

section \<open>Tickets\<close>

text \<open>The tickets not yet consumed, in order.\<close>

definition heap_left :: "system_supply \<Rightarrow> range list" where
  "heap_left s = drop (heap_next s) (heap_snapshot s)"

definition supply_ok :: "system_supply \<Rightarrow> bool" where
  "supply_ok s \<longleftrightarrow> heap_next s \<le> heap_count s \<and> heap_count s \<le> length (heap s) \<and> length (heap_ranges s) = length (heap s) \<and>
     (\<forall>i. heap_next s \<le> i \<longrightarrow> i < heap_count s \<longrightarrow> heap s ! i = Some (heap_ranges s ! i))"

lemma take_heap_chunk_next:
  assumes "supply_ok s"
  shows "\<exists>t. take_heap_chunk s = Some (case heap_left s of [] \<Rightarrow> None | r # _ \<Rightarrow> Some r, t) \<and> supply_ok t \<and>
    heap_left t = tl (heap_left s) \<and> heap_snapshot t = heap_snapshot s"
proof (cases "heap_next s = heap_count s")
  case True
  then have "heap_left s = []"
    unfolding heap_left_def heap_snapshot_def by simp
  then show ?thesis
    using True assms unfolding take_heap_chunk_def by simp
next
  case False
  define t where "t = s\<lparr>heap := (heap s)[heap_next s := None], heap_next := heap_next s + 1\<rparr>"
  have lt: "heap_next s < heap_count s" "heap_next s < length (heap s)" "heap s ! heap_next s = Some (heap_ranges s ! heap_next s)"
    using False assms unfolding supply_ok_def by auto
  have left: "heap_left s = heap_ranges s ! heap_next s # drop (heap_next s + 1) (heap_snapshot s)"
    using lt assms unfolding heap_left_def heap_snapshot_def supply_ok_def by (simp add: Cons_nth_drop_Suc [symmetric])
  have "take_heap_chunk s = Some (Some (heap_ranges s ! heap_next s), t)"
    using False lt unfolding take_heap_chunk_def t_def at_def by simp
  moreover have "supply_ok t"
    using assms lt unfolding supply_ok_def t_def by simp
  moreover have "heap_left t = drop (heap_next s + 1) (heap_snapshot s)" "heap_snapshot t = heap_snapshot s"
    unfolding heap_left_def heap_snapshot_def t_def by simp_all
  ultimately show ?thesis
    using left by (intro exI [of _ t]) simp
qed

text \<open>Taking chunks until none is left.\<close>

fun drain_heap :: "nat \<Rightarrow> system_supply \<Rightarrow> (range list \<times> system_supply) option" where
  "drain_heap 0 s = Some ([], s)"
| "drain_heap (Suc n) s =
     do {
       (c, t) \<leftarrow> take_heap_chunk s;
       (case c of
          None \<Rightarrow> Some ([], t)
        | Some r \<Rightarrow> do { (rs, u) \<leftarrow> drain_heap n t; Some (r # rs, u) })
     }"

lemma drain_heap_exact:
  "supply_ok s \<Longrightarrow> \<exists>t. drain_heap n s = Some (take n (heap_left s), t) \<and> supply_ok t \<and> heap_left t = drop n (heap_left s)"
proof (induction n arbitrary: s)
  case (Suc n)
  obtain t where t: "take_heap_chunk s = Some (case heap_left s of [] \<Rightarrow> None | r # _ \<Rightarrow> Some r, t)" "supply_ok t"
    "heap_left t = tl (heap_left s)"
    using take_heap_chunk_next [OF Suc.prems] by blast
  obtain u where "drain_heap n t = Some (take n (heap_left t), u)" "supply_ok u" "heap_left u = drop n (heap_left t)"
    using Suc.IH [OF t(2)] by blast
  then show ?case
    using t by (cases "heap_left s") auto
qed simp

lemma plan_supply_ok:
  assumes "plan_ranges pl managed perm boot rq = Ok p"
  shows "supply_ok (system p)" "heap_left (system p) = heap_snapshot (system p)"
proof -
  obtain ms u ml u' where q: "requirements_ok pl rq"
    "classify (ranges_cap pl) managed perm boot (page_size rq) = Ok (ms, permanent (inventory p), boot_held (inventory p), u)"
    "place_system pl ms u rq = Ok (ml, supply_metadata (system p), u', heap_ranges (system p), recovery_ranges (system p))"
    "heap_count (system p) = heap_chunk_count rq" "heap (system p) = tickets (heap_chunk_count rq) (heap_ranges (system p))"
    "heap_next (system p) = 0"
    using plan_Ok_parts [OF assms] by metis
  note c = classify_cover [OF q(2)]
  have "length (heap_ranges (system p)) = length (planner_heap pl)"
    by (rule place_system_cover(13) [OF q(3,1) c(9,8)])
  then show "supply_ok (system p)" "heap_left (system p) = heap_snapshot (system p)"
    using q(1,4-6) unfolding supply_ok_def heap_left_def requirements_ok_def tickets_def by auto
qed

lemma plan_classes:
  assumes "plan_ranges pl managed perm boot rq = Ok p"
  shows "partitions (cover managed) [cover (permanent (inventory p)), cover (boot_held (inventory p)),
      pts (supply_metadata (system p)), cover (heap_snapshot (system p)), cover (recovery_snapshot (system p)),
      cover (user_free (inventory p))]"
    "cover (permanent (inventory p)) = cover perm \<inter> cover managed"
    "cover (boot_held (inventory p)) = cover boot \<inter> cover managed - cover perm"
    "managed_bytes (inventory p) = card (cover managed)"
    "permanent_bytes (inventory p) = card (cover (permanent (inventory p)))"
    "boot_held_bytes (inventory p) = card (cover (boot_held (inventory p)))"
    "user_free_bytes (inventory p) = card (cover (user_free (inventory p)))"
    "managed_bytes (inventory p) = permanent_bytes (inventory p) + boot_held_bytes (inventory p) + system_bytes (inventory p) +
      user_free_bytes (inventory p)"
proof -
  obtain ms u ml u' where q: "requirements_ok pl rq"
    "classify (ranges_cap pl) managed perm boot (page_size rq) = Ok (ms, permanent (inventory p), boot_held (inventory p), u)"
    "place_system pl ms u rq = Ok (ml, supply_metadata (system p), u', heap_ranges (system p), recovery_ranges (system p))"
    "subtract_into (ranges_cap pl) ms u' = Ok (user_free (inventory p))"
    "bytes ms = Ok (managed_bytes (inventory p))" "bytes (permanent (inventory p)) = Ok (permanent_bytes (inventory p))"
    "bytes (boot_held (inventory p)) = Ok (boot_held_bytes (inventory p))" "system_total ml rq = Ok (system_bytes (inventory p))"
    "bytes (user_free (inventory p)) = Ok (user_free_bytes (inventory p))"
    "heap_count (system p) = heap_chunk_count rq" "recovery_count (system p) = recovery_ticket_count rq"
    using plan_Ok_parts [OF assms] by metis
  note c = classify_cover [OF q(2)]
  show "partitions (cover managed) [cover (permanent (inventory p)), cover (boot_held (inventory p)),
      pts (supply_metadata (system p)), cover (heap_snapshot (system p)), cover (recovery_snapshot (system p)),
      cover (user_free (inventory p))]"
    "cover (permanent (inventory p)) = cover perm \<inter> cover managed"
    "cover (boot_held (inventory p)) = cover boot \<inter> cover managed - cover perm"
    "managed_bytes (inventory p) = card (cover managed)"
    "permanent_bytes (inventory p) = card (cover (permanent (inventory p)))"
    "boot_held_bytes (inventory p) = card (cover (boot_held (inventory p)))"
    "user_free_bytes (inventory p) = card (cover (user_free (inventory p)))"
    "managed_bytes (inventory p) = permanent_bytes (inventory p) + boot_held_bytes (inventory p) + system_bytes (inventory p) +
      user_free_bytes (inventory p)"
    using plan_partition(1) [OF q(2,1,3,4)] plan_sums [OF q(2,1,3-9)] c(11,12)
    unfolding heap_snapshot_def recovery_snapshot_def q(10,11) by simp_all
qed

lemma plan_sizes:
  assumes "plan_ranges pl managed perm boot rq = Ok p"
  shows "metadata_bytes_req rq \<le> range_len (supply_metadata (system p))"
    "length (heap_snapshot (system p)) = heap_chunk_count rq" "length (recovery_snapshot (system p)) = recovery_ticket_count rq"
    "(\<forall>r \<in> set (heap_snapshot (system p)). heap_chunk_size rq dvd start r \<and> range_len r = heap_chunk_size rq)"
    "(\<forall>r \<in> set (recovery_snapshot (system p)). range_len r = recovery_ticket_size rq)"
    "paged (page_size rq) (supply_metadata (system p) # heap_snapshot (system p) @ recovery_snapshot (system p) @ permanent (inventory p) @
      boot_held (inventory p) @ user_free (inventory p))"
proof -
  obtain ms u ml u' where q: "requirements_ok pl rq"
    "classify (ranges_cap pl) managed perm boot (page_size rq) = Ok (ms, permanent (inventory p), boot_held (inventory p), u)"
    "place_system pl ms u rq = Ok (ml, supply_metadata (system p), u', heap_ranges (system p), recovery_ranges (system p))"
    "subtract_into (ranges_cap pl) ms u' = Ok (user_free (inventory p))"
    "heap_count (system p) = heap_chunk_count rq" "recovery_count (system p) = recovery_ticket_count rq"
    using plan_Ok_parts [OF assms] by metis
  note c = classify_cover [OF q(2)]
  note s = place_system_cover [OF q(3,1) c(9,8)]
  show "metadata_bytes_req rq \<le> range_len (supply_metadata (system p))"
    "length (heap_snapshot (system p)) = heap_chunk_count rq" "length (recovery_snapshot (system p)) = recovery_ticket_count rq"
    "(\<forall>r \<in> set (heap_snapshot (system p)). heap_chunk_size rq dvd start r \<and> range_len r = heap_chunk_size rq)"
    "(\<forall>r \<in> set (recovery_snapshot (system p)). range_len r = recovery_ticket_size rq)"
    "paged (page_size rq) (supply_metadata (system p) # heap_snapshot (system p) @ recovery_snapshot (system p) @ permanent (inventory p) @
      boot_held (inventory p) @ user_free (inventory p))"
    using s(1,2,3,6,7,11,12) c(4,6) plan_partition(2) [OF q(2,1,3,4)]
    unfolding heap_snapshot_def recovery_snapshot_def q(5,6) placed_def by (simp_all add: paged_Cons)
qed

section \<open>Properties\<close>

text \<open>A small machine: two memories of 32 bytes, pages of 4.\<close>

definition demo_requirements :: requirements where
  "demo_requirements = \<lparr>page_size = 4, metadata_bytes_req = 5, heap_chunk_size = 16, heap_chunk_count = 1,
     recovery_ticket_size = 4, recovery_ticket_count = 1\<rparr>"

definition demo_plan :: "(plan, plan_error) result" where
  "demo_plan = plan_ranges (Planner_new 16 1 1) [\<lparr>start = 32, range_end = 64\<rparr>, \<lparr>start = 0, range_end = 32\<rparr>]
     [\<lparr>start = 0, range_end = 8\<rparr>] [\<lparr>start = 4, range_end = 12\<rparr>] demo_requirements"

lemmas plan_eval = plan_ranges_def Planner_new_def validate_requirements_def is_power_of_two_def classify_def
  normalize_memories_into_def validate_range_def push_def sort_ranges_def clip_and_normalize_into_def normalize_def subtract_into_def
  copy_into_def Let_def place_system_def align_up_def fit_def usize_add_def EMPTY_range_def bytes_def range_len_def system_total_def
  usize_mul_def demo_requirements_def demo_plan_def

lemma demo_plan_Ok:
  obtains p where "demo_plan = Ok p" "user_free (inventory p) = [\<lparr>start = 24, range_end = 32\<rparr>, \<lparr>start = 48, range_end = 64\<rparr>]"
    "supply_metadata (system p) = \<lparr>start = 12, range_end = 20\<rparr>" "heap_snapshot (system p) = [\<lparr>start = 32, range_end = 48\<rparr>]"
  by (simp add: plan_eval heap_snapshot_def)

text \<open>
  Claim C30. A successful plan puts every managed address into exactly one class: permanent, boot-held, metadata, heap, recovery or
  user-free. The permanent class is what the permanent ranges cover of the memory, the boot-held one what the boot ranges cover
  besides, and the byte counts are the sizes of the classes.
\<close>

theorem plan_classifies_exactly:
  assumes "plan_ranges pl managed perm boot rq = Ok p"
  shows "partitions (cover managed) [cover (permanent (inventory p)), cover (boot_held (inventory p)),
      pts (supply_metadata (system p)), cover (heap_snapshot (system p)), cover (recovery_snapshot (system p)),
      cover (user_free (inventory p))] \<and>
    cover (permanent (inventory p)) = cover perm \<inter> cover managed \<and>
    cover (boot_held (inventory p)) = cover boot \<inter> cover managed - cover perm \<and>
    managed_bytes (inventory p) = card (cover managed) \<and>
    permanent_bytes (inventory p) = card (cover (permanent (inventory p))) \<and>
    boot_held_bytes (inventory p) = card (cover (boot_held (inventory p))) \<and>
    user_free_bytes (inventory p) = card (cover (user_free (inventory p))) \<and>
    managed_bytes (inventory p) = permanent_bytes (inventory p) + boot_held_bytes (inventory p) + system_bytes (inventory p) +
      user_free_bytes (inventory p)"
  by (intro conjI) (rule plan_classes [OF assms])+

theorem plan_classifies_exactly_witness:
  "\<exists>p. demo_plan = Ok p \<and> cover (boot_held (inventory p)) = {8..<12} \<and> user_free_bytes (inventory p) = 24"
proof -
  obtain p where p: "demo_plan = Ok p" "user_free (inventory p) = [\<lparr>start = 24, range_end = 32\<rparr>, \<lparr>start = 48, range_end = 64\<rparr>]"
    by (rule demo_plan_Ok)
  have "card ({24..<32} \<union> {48..<64::nat}) = 24"
    by (subst card_Un_disjoint) auto
  moreover have "{4..<12} \<inter> ({32..<64} \<union> {0..<32}) - {0..<8} = {8..<12::nat}"
    by auto
  ultimately show ?thesis
    using plan_classifies_exactly [OF p(1) [unfolded demo_plan_def]] p
    by (intro exI [of _ p]) (simp add: pts_def del: Int_atLeastLessThan)
qed

text \<open>
  Claim C31. The final comparison of the accounts cannot fail: \<open>plan\<close> never returns \<open>ClassificationMismatch\<close>, whatever its input.
\<close>

theorem plan_never_mismatches: "plan_ranges pl managed perm boot rq \<noteq> Err ClassificationMismatch"
proof
  assume e: "plan_ranges pl managed perm boot rq = Err ClassificationMismatch"
  obtain ms pm bh u ml mr u' hs rs uf mb pb bb sb ub cl where q: "requirements_ok pl rq"
    "classify (ranges_cap pl) managed perm boot (page_size rq) = Ok (ms, pm, bh, u)"
    "place_system pl ms u rq = Ok (ml, mr, u', hs, rs)" "subtract_into (ranges_cap pl) ms u' = Ok uf"
    "bytes ms = Ok mb" "bytes pm = Ok pb" "bytes bh = Ok bb" "system_total ml rq = Ok sb" "bytes uf = Ok ub"
    "ok_or (do { x \<leftarrow> usize_add pb bb; y \<leftarrow> usize_add x sb; usize_add y ub }) ArithmeticOverflow = Ok cl" "cl \<noteq> mb"
    using e unfolding plan_ranges_def Let_def by (auto simp: validate_requirements_Ok no_mismatch split: if_splits prod.splits)
  then show False
    using plan_sums(5) [OF q(2,1,3-9)] by (auto simp: bind_eq_Some_conv)
qed

text \<open>
  Claim C32. A successful plan provides what was asked for: metadata of at least the requested size, the requested number of heap
  chunks and recovery tickets, each of its size and alignment, all inside the managed memory, and every range of the plan, the
  user-free ones included, starts and ends on a page.
\<close>

theorem plan_meets_requirements:
  assumes "plan_ranges pl managed perm boot rq = Ok p"
  shows "metadata_bytes_req rq \<le> range_len (supply_metadata (system p)) \<and>
    length (heap_snapshot (system p)) = heap_chunk_count rq \<and> length (recovery_snapshot (system p)) = recovery_ticket_count rq \<and>
    (\<forall>r \<in> set (heap_snapshot (system p)). heap_chunk_size rq dvd start r \<and> range_len r = heap_chunk_size rq) \<and>
    (\<forall>r \<in> set (recovery_snapshot (system p)). range_len r = recovery_ticket_size rq) \<and>
    paged (page_size rq) (supply_metadata (system p) # heap_snapshot (system p) @ recovery_snapshot (system p) @ permanent (inventory p) @
      boot_held (inventory p) @ user_free (inventory p))"
  by (intro conjI) (rule plan_sizes [OF assms])+

theorem plan_meets_requirements_witness:
  "\<exists>p. demo_plan = Ok p \<and> 5 \<le> range_len (supply_metadata (system p)) \<and> length (heap_snapshot (system p)) = 1"
proof -
  obtain p where "demo_plan = Ok p"
    by (rule demo_plan_Ok)
  then show ?thesis
    using plan_meets_requirements [of "Planner_new 16 1 1"] unfolding demo_plan_def by (fastforce simp: demo_requirements_def)
qed

text \<open>
  After a successful plan, taking heap chunks any number of times does not panic and hands out the planned chunks in order,
  each once, and then nothing.
\<close>

theorem heap_tickets_once:
  assumes "plan_ranges pl managed perm boot rq = Ok p"
  shows "\<exists>s. drain_heap n (system p) = Some (take n (heap_snapshot (system p)), s) \<and>
    heap_left s = drop n (heap_snapshot (system p))"
  using drain_heap_exact [OF plan_supply_ok(1) [OF assms], of n] plan_supply_ok(2) [OF assms] by auto

end
