(* ===== verification/Memory_Supply_Capacity.thy ===== *)
theory Memory_Supply_Capacity
  imports Memory_Supply_Props
begin

text \<open>
  How many ranges the buffers of the planner hold. Subtracting \<open>n\<close> disjoint holes from \<open>m\<close> disjoint ranges leaves at most \<open>m + n\<close>
  pieces, since every piece ends where a range ends or a hole starts, so the capacity that the kernel computes from the numbers
  of memories and reservations is never exhausted.
\<close>

section \<open>Results that fit\<close>

definition safe :: "('a \<Rightarrow> bool) \<Rightarrow> ('a, plan_error) result \<Rightarrow> bool" where
  "safe P res \<longleftrightarrow> (case res of Ok y \<Rightarrow> P y | Err e \<Rightarrow> e \<noteq> CapacityExhausted)"

lemma safe_simps [simp]: "safe P (Ok y) \<longleftrightarrow> P y" "safe P (Err e) \<longleftrightarrow> e \<noteq> CapacityExhausted"
  by (simp_all add: safe_def)

lemma safe_and_then: "safe P res \<Longrightarrow> (\<And>y. res = Ok y \<Longrightarrow> P y \<Longrightarrow> safe Q (f y)) \<Longrightarrow> safe Q (and_then res f)"
  by (cases res) auto

lemma safe_ok_or: "e \<noteq> CapacityExhausted \<Longrightarrow> safe (\<lambda>_. True) (ok_or x e)"
  by (cases x) auto

abbreviation within :: "nat \<Rightarrow> (range list, plan_error) result \<Rightarrow> bool" where
  "within n \<equiv> safe (\<lambda>ys. length ys \<le> n)"

lemma within_push_valid: "length out + length rs \<le> n \<Longrightarrow> n \<le> cap \<Longrightarrow> within n (push_valid cap page out rs)"
  by (induction rs arbitrary: out) (auto simp: validate_range_def push_def)

lemma within_clip_one: "length out + length ms \<le> n \<Longrightarrow> n \<le> cap \<Longrightarrow> within n (clip_one cap r out ms)"
  by (induction ms arbitrary: out) (auto simp: push_def Let_def)

lemma within_clip_all: "length out + length rs * length ms \<le> n \<Longrightarrow> n \<le> cap \<Longrightarrow> within n (clip_all cap page ms out rs)"
proof (induction rs arbitrary: out)
  case (Cons r rs)
  have "within (length out + length ms) (clip_one cap r out ms)"
    using Cons.prems by (intro within_clip_one) simp_all
  then have "within n (and_then (clip_one cap r out ms) (\<lambda>out'. clip_all cap page ms out' rs))"
    using Cons.prems by (intro safe_and_then Cons.IH) simp_all
  then show ?case
    by (auto simp: validate_range_def)
qed simp

lemma append_into_exact:
  "length out \<le> cap \<Longrightarrow> append_into cap out rs = (if length out + length rs \<le> cap then Ok (out @ rs) else Err CapacityExhausted)"
  by (induction rs arbitrary: out) (auto simp: push_def)

lemma merge_pass_length: "length (merge_pass out rs) \<le> length out + length rs"
  by (induction out rs rule: merge_pass.induct) auto

lemma normalize_length: "length (normalize xs) \<le> length xs"
  using merge_pass_length [of "[]" "sort_ranges xs"] by (simp add: normalize_def sort_ranges_def)

lemma within_clip: "length rs * length ms \<le> n \<Longrightarrow> n \<le> cap \<Longrightarrow> within n (clip_and_normalize_into cap rs ms page)"
  unfolding clip_and_normalize_into_def
  by (rule safe_and_then [OF within_clip_all [of "[]" rs ms n cap page]]) (auto intro: order_trans [OF normalize_length])

section \<open>The pieces of a subtraction\<close>

text \<open>\<open>subtract_one\<close> and \<open>subtract_all\<close> without a capacity.\<close>

fun cuts :: "range \<Rightarrow> nat \<Rightarrow> range list \<Rightarrow> range list" where
  "cuts r c [] = (if c < range_end r then [\<lparr>start = c, range_end = range_end r\<rparr>] else [])"
| "cuts r c (h # hs) =
     (if range_end h \<le> c \<or> start h \<ge> range_end r then cuts r c hs
      else (if c < start h then [\<lparr>start = c, range_end = start h\<rparr>] else []) @
        (if range_end r \<le> range_end h then [] else cuts r (range_end h) hs))"

definition all_cuts :: "range list \<Rightarrow> range list \<Rightarrow> range list" where
  "all_cuts hs rs = concat (map (\<lambda>r. cuts r (start r) hs) rs)"

lemma subtract_one_cuts: "length out \<le> cap \<Longrightarrow> subtract_one cap r c out hs = append_into cap out (cuts r c hs)"
proof (induction hs arbitrary: c out)
  case (Cons h hs)
  then show ?case
    by (cases "length out < cap") (auto simp: Let_def push_def max_def min_def append_into_exact)
qed (simp add: append_into_exact push_def)

lemma subtract_all_cuts: "length out \<le> cap \<Longrightarrow> subtract_all cap hs out rs = append_into cap out (all_cuts hs rs)"
  by (induction rs arbitrary: out) (auto simp: all_cuts_def subtract_one_cuts append_into_exact)

lemma cuts_ends: "x \<in> set (cuts r c hs) \<Longrightarrow> range_end x \<in> insert (range_end r) (start ` set hs)"
  by (induction hs arbitrary: c) (auto split: if_splits)

lemma all_cuts_ends: "range_end ` set (all_cuts hs rs) \<subseteq> range_end ` set rs \<union> start ` set hs"
  unfolding all_cuts_def using cuts_ends by fastforce

lemma ordered_ends_distinct: "ordered xs \<Longrightarrow> paged page xs \<Longrightarrow> distinct (map range_end xs)"
  by (induction xs) (fastforce simp: ordered_simps paged_Cons paged_def)+

lemma all_cuts_length:
  assumes "ordered hs" "paged page hs" "ordered rs" "paged page rs"
  shows "length (all_cuts hs rs) \<le> length rs + length hs"
proof -
  let ?xs = "all_cuts hs rs"
  have "subtract_into (length ?xs) rs hs = Ok ?xs"
    by (simp add: subtract_into_def subtract_all_cuts append_into_exact)
  from subtract_into_cover [OF this assms] have "distinct (map range_end ?xs)"
    using ordered_ends_distinct by blast
  then have "length ?xs = card (range_end ` set ?xs)"
    using distinct_card [of "map range_end ?xs"] by simp
  also have "\<dots> \<le> card (range_end ` set rs \<union> start ` set hs)"
    by (rule card_mono [OF _ all_cuts_ends]) simp
  also have "\<dots> \<le> card (range_end ` set rs) + card (start ` set hs)"
    by (rule card_Un_le)
  also have "\<dots> \<le> length rs + length hs"
    by (intro add_mono order_trans [OF card_image_le card_length]) simp_all
  finally show ?thesis .
qed

lemma within_subtract:
  assumes "ordered hs" "paged page hs" "ordered rs" "paged page rs" "length rs + length hs \<le> n" "n \<le> cap"
  shows "within n (subtract_into cap rs hs)"
  using all_cuts_length [OF assms(1-4)] assms(5,6) by (simp add: subtract_into_def subtract_all_cuts append_into_exact)

section \<open>The plan\<close>

lemma within_memories: "length mems \<le> cap \<Longrightarrow> within (length mems) (normalize_memories_into cap mems page)"
  unfolding normalize_memories_into_def
  by (rule safe_and_then [OF within_push_valid [of "[]" mems "length mems" cap page]]) (auto simp: Let_def sort_ranges_def)

text \<open>The sizes after the classification, for at most \<open>m\<close> memories, \<open>p\<close> permanent and \<open>b\<close> boot-held ranges.\<close>

definition counted :: "nat \<Rightarrow> nat \<Rightarrow> nat \<Rightarrow> range list \<Rightarrow> range list \<Rightarrow> range list \<Rightarrow> bool" where
  "counted m p b mems perm boot \<longleftrightarrow> length mems \<le> m \<and> length perm \<le> p \<and> length boot \<le> b"

lemma classify_safe:
  assumes "counted m p b mems perm boot" "m + 2 * m * p + m * b \<le> cap"
  shows "safe (\<lambda>(ms, pm, bh, u). length ms \<le> m \<and> length u \<le> 2 * m * p + m * b) (classify cap mems perm boot page)"
proof -
  have mm: "within m (normalize_memories_into cap mems page)"
    using within_memories [of mems cap page] assms unfolding counted_def by (auto simp: safe_def split: result.splits)
  have clip: "within (m * p) (clip_and_normalize_into cap perm ms page)" "within (m * b) (clip_and_normalize_into cap boot ms page)"
    if "length ms \<le> m" for ms
  proof -
    have "length perm * length ms \<le> m * p" "length boot * length ms \<le> m * b"
      using assms(1) that mult_le_mono [of "length ms" m "length perm" p] mult_le_mono [of "length ms" m "length boot" b]
      unfolding counted_def by (simp_all add: mult.commute [of _ "length ms"])
    then show "within (m * p) (clip_and_normalize_into cap perm ms page)" "within (m * b) (clip_and_normalize_into cap boot ms page)"
      using assms(2) by (auto intro!: within_clip)
  qed
  have sub: "within (m * p + m * b) (subtract_into cap rb pm)"
    if "normalize_memories_into cap mems page = Ok ms" "clip_and_normalize_into cap perm ms page = Ok pm" "length pm \<le> m * p"
      "clip_and_normalize_into cap boot ms page = Ok rb" "length rb \<le> m * b" for ms pm rb
  proof -
    note pg = normalize_memories_cover(1) [OF that(1)]
    note p = clip_and_normalize_cover [OF that(2) pg] and r = clip_and_normalize_cover [OF that(4) pg]
    show ?thesis
      using that(3,5) assms(2) by (intro within_subtract [OF p(2,1) r(2,1)]) simp_all
  qed
  have join: "safe (\<lambda>(ms, pm, bh, u). length ms \<le> m \<and> length u \<le> 2 * m * p + m * b)
      (and_then (copy_into cap pm) (\<lambda>u1. and_then (append_into cap u1 bh) (\<lambda>u2. Ok (ms, pm, bh, normalize u2))))"
    if "length ms \<le> m" "length pm \<le> m * p" "length bh \<le> m * p + m * b" for ms pm bh
    using that assms(2) order_trans [OF normalize_length [of "pm @ bh"]] by (simp add: copy_into_def append_into_exact)
  show ?thesis
    unfolding classify_def
    by (rule safe_and_then [OF mm], rule safe_and_then [OF clip(1)], assumption, rule safe_and_then [OF clip(2)], assumption,
        rule safe_and_then [OF sub], assumption+, rule join)
qed

lemma place_steps_safe:
  "safe (\<lambda>_. True) (align_up v al)" "safe (\<lambda>_. True) (fit s e len al)" "safe (\<lambda>_. True) (place_in m len al c hs)"
  "safe (\<lambda>_. True) (place_one ms u len al)"
proof -
  show au: "safe (\<lambda>_. True) (align_up v al)" for v
    by (simp add: align_up_def split: option.splits)
  show f: "safe (\<lambda>_. True) (fit s e len al)" for s e
    unfolding fit_def by (auto intro!: safe_and_then [OF au] split: option.splits)
  show pi: "safe (\<lambda>_. True) (place_in m len al c hs)" for m c hs
    by (induction hs arbitrary: c) (auto intro!: safe_and_then [OF f] f simp: Let_def split: option.splits)
  show "safe (\<lambda>_. True) (place_one ms u len al)"
    by (induction ms) (auto intro!: safe_and_then [OF pi] split: option.splits)
qed

lemma place_many_safe:
  assumes "missing \<noteq> CapacityExhausted" "length u + n \<le> cap"
  shows "safe (\<lambda>(u', _). length u' \<le> length u + n) (place_many cap ms len al missing i n u slots)"
  using assms(2)
proof (induction n arbitrary: i u slots)
  case (Suc n)
  have "safe (\<lambda>(u', _). length u' \<le> length u + Suc n) (place_many cap ms len al missing (i + 1) n (normalize (u @ [r])) (slots[i := r]))" for r
  proof -
    have "length (normalize (u @ [r])) \<le> length u + 1"
      using normalize_length [of "u @ [r]"] by simp
    then show ?thesis
      using Suc.IH [of "normalize (u @ [r])" "i + 1" "slots[i := r]"] Suc.prems by (auto simp: safe_def split: result.splits)
  qed
  then show ?case
    using Suc.prems by (auto intro!: safe_and_then [OF place_steps_safe(4)] safe_and_then [OF safe_ok_or [OF assms(1)]] simp: push_def)
qed simp

lemma place_system_safe:
  assumes "length u + 1 + heap_chunk_count rq + recovery_ticket_count rq \<le> ranges_cap pl"
  shows "safe (\<lambda>(_, _, u', _, _). length u' \<le> length u + 1 + heap_chunk_count rq + recovery_ticket_count rq) (place_system pl ms u rq)"
proof -
  let ?H = "heap_chunk_count rq" and ?R = "recovery_ticket_count rq"
  have rec: "safe (\<lambda>(_, _, u', _, _). length u' \<le> length u + 1 + ?H + ?R)
      (and_then (place_many (ranges_cap pl) ms (recovery_ticket_size rq) (page_size rq) InsufficientRecovery 0 ?R u2 (planner_recovery pl))
        (\<lambda>(u3, rs). Ok (ml, mr, u3, hs, rs)))" if "length u2 \<le> length u + 1 + ?H" for u2 hs ml mr
    using that assms
    by (intro safe_and_then [OF place_many_safe]) auto
  have heap: "safe (\<lambda>(_, _, u', _, _). length u' \<le> length u + 1 + ?H + ?R)
      (and_then (place_many (ranges_cap pl) ms (heap_chunk_size rq) (heap_chunk_size rq) InsufficientHeap 0 ?H (normalize (u @ [mr])) (planner_heap pl))
        (\<lambda>(u2, hs). and_then (place_many (ranges_cap pl) ms (recovery_ticket_size rq) (page_size rq) InsufficientRecovery 0 ?R u2
          (planner_recovery pl)) (\<lambda>(u3, rs). Ok (ml, mr, u3, hs, rs))))" for ml mr
    using assms normalize_length [of "u @ [mr]"]
    by (intro safe_and_then [OF place_many_safe]) (auto intro!: rec [simplified])
  show ?thesis
    unfolding place_system_def Let_def
    by (intro safe_and_then [OF place_steps_safe(1)] safe_and_then [OF place_steps_safe(4)] safe_and_then [OF safe_ok_or])
      (use assms heap in \<open>auto simp: push_def\<close>)
qed

lemma accounts_safe: "safe (\<lambda>_. True) (bytes xs)" "safe (\<lambda>_. True) (system_total ml rq)" "safe (\<lambda>_. True) (validate_requirements h r rq)"
proof -
  have "safe (\<lambda>_. True) (bytes_from acc xs)" for acc
    by (induction xs arbitrary: acc) (auto intro!: safe_and_then [OF safe_ok_or])
  then show "safe (\<lambda>_. True) (bytes xs)"
    by (simp add: bytes_def)
  show "safe (\<lambda>_. True) (system_total ml rq)" "safe (\<lambda>_. True) (validate_requirements h r rq)"
    unfolding system_total_def validate_requirements_def by (auto intro!: safe_and_then [OF safe_ok_or] safe_ok_or)
qed

lemma plan_capacity:
  assumes "counted m p b mems perm boot"
    "m + 2 * m * p + m * b + 1 + heap_chunk_count rq + recovery_ticket_count rq \<le> ranges_cap pl"
  shows "plan_ranges pl mems perm boot rq \<noteq> Err CapacityExhausted"
proof -
  let ?cap = "ranges_cap pl"
  have cl: "safe (\<lambda>(ms, pm, bh, u). length ms \<le> m \<and> length u \<le> 2 * m * p + m * b) (classify ?cap mems perm boot (page_size rq))"
    by (rule classify_safe [OF assms(1)]) (use assms(2) in simp)
  have pl: "safe (\<lambda>(_, _, u', _, _). length u' \<le> length u + 1 + heap_chunk_count rq + recovery_ticket_count rq) (place_system pl ms u rq)"
    if "length u \<le> 2 * m * p + m * b" for ms u
    by (rule place_system_safe) (use assms(2) that in simp)
  have sub: "within ?cap (subtract_into ?cap ms u')"
    if "requirements_ok pl rq" "classify ?cap mems perm boot (page_size rq) = Ok (ms, pm, bh, u)" "length ms \<le> m" "length u \<le> 2 * m * p + m * b"
      "place_system pl ms u rq = Ok (ml, mr, u', hs, rs)" "length u' \<le> length u + 1 + heap_chunk_count rq + recovery_ticket_count rq"
    for ms pm bh u ml mr u' hs rs
  proof -
    note c = classify_cover [OF that(2)]
    note s = place_system_cover [OF that(5,1) c(9,8)]
    show ?thesis
      using that(3,4,6) assms(2) by (intro within_subtract [OF s(8,9) c(3,2)]) simp_all
  qed
  have rest: "safe (\<lambda>_. True) (and_then (subtract_into ?cap ms u') f)"
    if "requirements_ok pl rq" "classify ?cap mems perm boot (page_size rq) = Ok (ms, pm, bh, u)" "length ms \<le> m" "length u \<le> 2 * m * p + m * b"
      "place_system pl ms u rq = Ok (ml, mr, u', hs, rs)" "length u' \<le> length u + 1 + heap_chunk_count rq + recovery_ticket_count rq"
      "\<And>uf. safe (\<lambda>_. True) (f uf)" for ms pm bh u ml mr u' hs rs and f :: "range list \<Rightarrow> (plan, plan_error) result"
    using safe_and_then [OF sub [OF that(1-6)]] that(7) by blast
  have "safe (\<lambda>_. True) (plan_ranges pl mems perm boot rq)"
    unfolding plan_ranges_def Let_def
    apply (rule safe_and_then [OF accounts_safe(3)])
    apply (rule safe_and_then [OF cl])
    apply (clarsimp simp: validate_requirements_Ok)
    apply (rule safe_and_then [OF pl], assumption)
    apply (clarsimp simp del: add_Suc_right)
    apply (rule rest, assumption+)
    apply simp
    apply (intro safe_and_then [OF accounts_safe(1)] safe_and_then [OF accounts_safe(2)] safe_and_then [OF safe_ok_or])
    apply auto
    done
  then show ?thesis
    by auto
qed

end
