(* ===== verification/Kernel_Frames.thy ===== *)
theory Kernel_Frames
  imports Frame_Inventory Memory_Supply_Capacity
begin

text \<open>
  The boot-time part of \<open>os/kernel/src/frame.rs\<close>: it collects the reservations, lets the planner classify the memory, and publishes
  the user-free ranges in the frame pool. The board description and the linker's constants are parameters. The clearing of memory,
  the logging and the withdrawal of the transition mappings touch other state and are left out. A failed assertion or \<open>expect\<close> is
  \<^const>\<open>None\<close>; the locks guard single accesses, so the statics are the fields of one record.
\<close>

section \<open>Constants and inputs\<close>

definition PAGE_SIZE :: nat where "PAGE_SIZE = 4096"

definition MAX_MEMORY_REGIONS :: nat where "MAX_MEMORY_REGIONS = 16"

definition MAX_PLATFORM_RESERVATIONS :: nat where "MAX_PLATFORM_RESERVATIONS = 32"

definition MAX_PERMANENT_RESERVATIONS :: nat where "MAX_PERMANENT_RESERVATIONS = MAX_PLATFORM_RESERVATIONS + 2"

definition MAX_BOOT_HOLDS :: nat where "MAX_BOOT_HOLDS = 3"

definition HEAP_CHUNK_SIZE :: nat where "HEAP_CHUNK_SIZE = 1048576"

definition HEAP_CHUNK_LIMIT :: nat where "HEAP_CHUNK_LIMIT = 16"

definition RECOVERY_TICKET_LIMIT :: nat where "RECOVERY_TICKET_LIMIT = 0"

definition MAX_CLASSIFIED_RANGES :: nat where
  "MAX_CLASSIFIED_RANGES = MAX_MEMORY_REGIONS + 2 * MAX_MEMORY_REGIONS * MAX_PERMANENT_RESERVATIONS +
     MAX_MEMORY_REGIONS * MAX_BOOT_HOLDS + 1 + HEAP_CHUNK_LIMIT + RECOVERY_TICKET_LIMIT"

text \<open>\<open>size_of::<ArenaMetadata>()\<close>: two words and a byte, with the layout of C.\<close>

definition ARENA_BYTES :: nat where "ARENA_BYTES = 24"

record memory_region =
  region_start :: nat
  region_len :: nat

definition region_end :: "memory_region \<Rightarrow> nat option" where
  "region_end r = usize_add (region_start r) (region_len r)"

record board_info =
  memories :: "memory_region list"
  platform_reservations :: "memory_region list"
  dtb_range :: memory_region
  boot_package :: "(nat \<times> nat) option"

text \<open>The addresses the linker materialises.\<close>

record image =
  bootstrap_start :: nat
  bootstrap_end :: nat
  sbi_start :: nat
  kernel_pa_end :: nat

record frames_state =
  POOL :: "frame_pool option"
  SYSTEM_SUPPLY :: "system_supply option"
  ROOT_POOL_SEED :: "nat option"

section \<open>Reservations\<close>

definition push_reservation :: "nat \<Rightarrow> (nat \<times> nat) list \<Rightarrow> nat \<Rightarrow> nat \<Rightarrow> (nat \<times> nat) list option" where
  "push_reservation cap rs s e =
     (if s < e \<and> PAGE_SIZE dvd s \<and> PAGE_SIZE dvd e \<and> length rs < cap then Some (rs @ [(s, e)]) else None)"

text \<open>The loop of \<open>normalize_reservations\<close>, with its output reversed.\<close>

fun merge_reservations :: "(nat \<times> nat) list \<Rightarrow> (nat \<times> nat) list \<Rightarrow> (nat \<times> nat) list option" where
  "merge_reservations out [] = Some (rev out)"
| "merge_reservations out ((s, e) # rs) =
     (if s < e \<and> PAGE_SIZE dvd s \<and> PAGE_SIZE dvd e
      then (case out of
          [] \<Rightarrow> merge_reservations [(s, e)] rs
        | (ls, le) # out' \<Rightarrow>
            if s \<le> le then merge_reservations ((ls, max le e) # out') rs
            else merge_reservations ((s, e) # out) rs)
      else None)"

definition normalize_reservations :: "(nat \<times> nat) list \<Rightarrow> (nat \<times> nat) list option" where
  "normalize_reservations rs = merge_reservations [] (sort_key fst rs)"

fun push_regions :: "nat \<Rightarrow> (nat \<times> nat) list \<Rightarrow> memory_region list \<Rightarrow> (nat \<times> nat) list option" where
  "push_regions cap out [] = Some out"
| "push_regions cap out (r # rs) =
     do {
       e \<leftarrow> region_end r;
       out' \<leftarrow> push_reservation cap out (region_start r) e;
       push_regions cap out' rs
     }"

definition build_permanent_reservations :: "board_info \<Rightarrow> image \<Rightarrow> (nat \<times> nat) list option" where
  "build_permanent_reservations board im =
     do {
       out \<leftarrow> push_regions MAX_PERMANENT_RESERVATIONS [] (platform_reservations board);
       if sbi_start im \<le> bootstrap_start im \<and> bootstrap_start im < bootstrap_end im \<and> bootstrap_end im \<le> kernel_pa_end im
       then do {
         out1 \<leftarrow> (if sbi_start im < bootstrap_start im
                 then push_reservation MAX_PERMANENT_RESERVATIONS out (sbi_start im) (bootstrap_start im) else Some out);
         out2 \<leftarrow> (if bootstrap_end im < kernel_pa_end im
                 then push_reservation MAX_PERMANENT_RESERVATIONS out1 (bootstrap_end im) (kernel_pa_end im) else Some out1);
         normalize_reservations out2
       }
       else None
     }"

definition overlaps :: "nat \<times> nat \<Rightarrow> nat \<times> nat \<Rightarrow> bool" where
  "overlaps l r \<longleftrightarrow> fst l < snd r \<and> fst r < snd l"

definition assert_no_overlap :: "nat \<times> nat \<Rightarrow> (nat \<times> nat) list \<Rightarrow> unit option" where
  "assert_no_overlap r rs = (if list_ex (\<lambda>x. overlaps x r) rs then None else Some ())"

definition frame_align_down :: "nat \<Rightarrow> nat \<Rightarrow> nat" where
  "frame_align_down v alignment = unat ((word_of_nat v :: u64) AND NOT (word_of_nat (alignment - 1)))"

definition frame_align_up :: "nat \<Rightarrow> nat \<Rightarrow> nat option" where
  "frame_align_up v alignment = map_option (\<lambda>e. frame_align_down e alignment) (usize_add v (alignment - 1))"

definition page_cover :: "nat \<Rightarrow> nat \<Rightarrow> (nat \<times> nat) option" where
  "page_cover s len =
     do {
       e \<leftarrow> usize_add s len;
       up \<leftarrow> frame_align_up e PAGE_SIZE;
       Some (frame_align_down s PAGE_SIZE, up)
     }"

text \<open>\<open>subtract\<close>: the pieces it hands to its callback.\<close>

fun subtract :: "nat \<Rightarrow> nat \<Rightarrow> (nat \<times> nat) list \<Rightarrow> (nat \<times> nat) list" where
  "subtract cursor e [] = (if cursor < e then [(cursor, e)] else [])"
| "subtract cursor e ((rs, re) # holes) =
     (if re \<le> cursor \<or> rs \<ge> e then subtract cursor e holes
      else
        let rs' = max rs cursor; cursor' = min re e in
        (if rs' > cursor then [(cursor, rs')] else []) @ (if cursor' \<ge> e then [] else subtract cursor' e holes))"

section \<open>Initialisation\<close>

definition validate_memories :: "range list \<Rightarrow> unit option" where
  "validate_memories ms =
     (if (\<forall>r \<in> set ms. PAGE_SIZE dvd start r \<and> PAGE_SIZE dvd range_end r) \<and> \<not> windows_overlap ms then Some () else None)"

fun supply_ranges :: "(nat \<times> nat) list \<Rightarrow> range list option" where
  "supply_ranges [] = Some []"
| "supply_ranges ((s, e) # rs) = do { r \<leftarrow> Range_new s e; out \<leftarrow> supply_ranges rs; Some (r # out) }"

fun region_ranges :: "memory_region list \<Rightarrow> range list option" where
  "region_ranges [] = Some []"
| "region_ranges (m # ms) =
     do { e \<leftarrow> region_end m; r \<leftarrow> Range_new (region_start m) e; out \<leftarrow> region_ranges ms; Some (r # out) }"

fun total_frames_from :: "nat \<Rightarrow> range list \<Rightarrow> nat option" where
  "total_frames_from acc [] = Some acc"
| "total_frames_from acc (r # rs) = do { t \<leftarrow> usize_add acc (range_len r div PAGE_SIZE); total_frames_from t rs }"

text \<open>The boot-held ranges: the device tree, the bootstrap image and the boot package.\<close>

definition boot_holds :: "board_info \<Rightarrow> image \<Rightarrow> (nat \<times> nat) list \<Rightarrow> (nat \<times> nat) list option" where
  "boot_holds board im permanents =
     do {
       dtb_end \<leftarrow> region_end (dtb_range board);
       let dtb = (region_start (dtb_range board), dtb_end);
       let bootstrap = (bootstrap_start im, bootstrap_end im);
       b1 \<leftarrow> push_reservation MAX_BOOT_HOLDS [] (fst dtb) (snd dtb);
       assert_no_overlap bootstrap permanents;
       if overlaps bootstrap dtb then None
       else do {
         b2 \<leftarrow> push_reservation MAX_BOOT_HOLDS b1 (fst bootstrap) (snd bootstrap);
         b3 \<leftarrow> (case boot_package board of
                None \<Rightarrow> Some b2
              | Some (address, len) \<Rightarrow>
                  do {
                    package \<leftarrow> page_cover address len;
                    assert_no_overlap package permanents;
                    assert_no_overlap package b2;
                    push_reservation MAX_BOOT_HOLDS b2 (fst package) (snd package)
                  });
         normalize_reservations b3
       }
     }"

text \<open>What \<open>init\<close> gathers before it plans: the sorted memories, the reservations and the sizes of the metadata.\<close>

record supply_inputs =
  in_managed :: "range list"
  in_permanent :: "range list"
  in_boot :: "range list"
  in_total :: nat
  in_tree_len :: nat
  in_metadata_len :: nat

definition gather :: "board_info \<Rightarrow> image \<Rightarrow> supply_inputs option" where
  "gather board im =
     do {
       raw \<leftarrow> region_ranges (memories board);
       let mems = sort_key start raw;
       validate_memories mems;
       frame_total \<leftarrow> total_frames_from 0 mems;
       tree_len \<leftarrow> metadata_bytes frame_total;
       arena_len \<leftarrow> usize_mul ARENA_BYTES MAX_ARENAS;
       md_len \<leftarrow> usize_add arena_len tree_len;
       permanents \<leftarrow> build_permanent_reservations board im;
       boots \<leftarrow> boot_holds board im permanents;
       perm \<leftarrow> supply_ranges permanents;
       boot \<leftarrow> supply_ranges boots;
       Some \<lparr>in_managed = mems, in_permanent = perm, in_boot = boot, in_total = frame_total,
         in_tree_len = tree_len, in_metadata_len = md_len\<rparr>
     }"

definition kernel_requirements :: "nat \<Rightarrow> requirements" where
  "kernel_requirements n = \<lparr>page_size = PAGE_SIZE, metadata_bytes_req = n,
     heap_chunk_size = HEAP_CHUNK_SIZE, heap_chunk_count = HEAP_CHUNK_LIMIT,
     recovery_ticket_size = PAGE_SIZE, recovery_ticket_count = RECOVERY_TICKET_LIMIT\<rparr>"

definition kernel_planner :: planner where
  "kernel_planner = Planner_new MAX_CLASSIFIED_RANGES HEAP_CHUNK_LIMIT RECOVERY_TICKET_LIMIT"

text \<open>\<open>FrameNumber::from_addr\<close>.\<close>

definition from_addr :: "nat \<Rightarrow> nat" where
  "from_addr addr = addr div PAGE_SIZE"

fun add_regions :: "range list \<Rightarrow> frame_pool \<Rightarrow> frame_pool option" where
  "add_regions [] p = Some p"
| "add_regions (r # rs) p =
     do {
       (res, q) \<leftarrow> add_managed_region p (from_addr (start r)) (from_addr (range_end r));
       (case res of Ok _ \<Rightarrow> add_regions rs q | Err _ \<Rightarrow> None)
     }"

fun release_ranges :: "range list \<Rightarrow> frame_pool \<Rightarrow> frame_pool option" where
  "release_ranges [] p = Some p"
| "release_ranges (r # rs) p =
     do {
       (res, q) \<leftarrow> release_range p (from_addr (start r)) (from_addr (range_end r));
       (case res of Ok _ \<Rightarrow> release_ranges rs q | Err _ \<Rightarrow> None)
     }"

text \<open>
  From the plan on: the pool over the two slices of the cleared metadata range, \<open>MAX_ARENAS\<close> arena records and the bytes of the
  trees, and the closing assertions.
\<close>

definition publish :: "supply_inputs \<Rightarrow> plan \<Rightarrow> frames_state \<Rightarrow> frames_state option" where
  "publish inp p st =
     do {
       empty \<leftarrow> FramePool_new (replicate (in_tree_len inp) 0) (replicate MAX_ARENAS EMPTY_ARENA);
       managed_pool \<leftarrow> add_regions (in_managed inp) empty;
       pool \<leftarrow> release_ranges (user_free (inventory p)) managed_pool;
       let free = free_frames pool;
       let permanent_frames = permanent_bytes (inventory p) div PAGE_SIZE;
       let boot_held_frames = boot_held_bytes (inventory p) div PAGE_SIZE;
       let system_frames = system_bytes (inventory p) div PAGE_SIZE;
       let metadata_frames = range_len (supply_metadata (system p)) div PAGE_SIZE;
       let heap_frames = HEAP_CHUNK_LIMIT * (HEAP_CHUNK_SIZE div PAGE_SIZE);
       if system_frames = metadata_frames + heap_frames + RECOVERY_TICKET_LIMIT
         \<and> in_total inp = permanent_frames + boot_held_frames + system_frames + free
         \<and> free = user_free_bytes (inventory p) div PAGE_SIZE
         \<and> ROOT_POOL_SEED st = None
       then do {
         seed \<leftarrow> usize_add free boot_held_frames;
         Some (st\<lparr>POOL := Some pool, SYSTEM_SUPPLY := Some (system p), ROOT_POOL_SEED := Some seed\<rparr>)
       }
       else None
     }"

definition frames_init :: "board_info \<Rightarrow> image \<Rightarrow> frames_state \<Rightarrow> frames_state option" where
  "frames_init board im st =
     do {
       inp \<leftarrow> gather board im;
       (case plan_ranges kernel_planner (in_managed inp) (in_permanent inp) (in_boot inp)
           (kernel_requirements (in_metadata_len inp)) of
          Err _ \<Rightarrow> None
        | Ok p \<Rightarrow> publish inp p st)
     }"

section \<open>After initialisation\<close>

definition take_root_pool_seed :: "frames_state \<Rightarrow> (nat \<times> frames_state) option" where
  "take_root_pool_seed st = map_option (\<lambda>n. (n, st\<lparr>ROOT_POOL_SEED := None\<rparr>)) (ROOT_POOL_SEED st)"

text \<open>\<open>free_range\<close>, with \<open>with_pool\<close>.\<close>

definition free_range :: "frames_state \<Rightarrow> nat \<Rightarrow> nat \<Rightarrow> frames_state option" where
  "free_range st s e =
     (if PAGE_SIZE dvd s \<and> PAGE_SIZE dvd e \<and> s < e
      then do {
        p \<leftarrow> POOL st;
        (res, q) \<leftarrow> release_range p (from_addr s) (from_addr e);
        (case res of Ok _ \<Rightarrow> Some (st\<lparr>POOL := Some q\<rparr>) | Err _ \<Rightarrow> None)
      }
      else None)"

fun free_pieces :: "(nat \<times> nat) list \<Rightarrow> frames_state \<Rightarrow> frames_state option" where
  "free_pieces [] st = Some st"
| "free_pieces ((s, e) # ps) st = do { st' \<leftarrow> free_range st s e; free_pieces ps st' }"

definition release_device_tree :: "board_info \<Rightarrow> image \<Rightarrow> frames_state \<Rightarrow> frames_state option" where
  "release_device_tree board im st =
     do {
       permanents \<leftarrow> build_permanent_reservations board im;
       e \<leftarrow> region_end (dtb_range board);
       free_pieces (subtract (region_start (dtb_range board)) e permanents) st
     }"

definition kernel_take_heap_chunk :: "frames_state \<Rightarrow> (range option \<times> frames_state) option" where
  "kernel_take_heap_chunk st =
     do {
       s \<leftarrow> SYSTEM_SUPPLY st;
       (r, s') \<leftarrow> take_heap_chunk s;
       Some (r, st\<lparr>SYSTEM_SUPPLY := Some s'\<rparr>)
     }"

end
