(* ===== verification/Kernel_Frames_Props.thy ===== *)
theory Kernel_Frames_Props
  imports Kernel_Frames
begin

text \<open>
  From byte ranges to frames: what publishing a plan in the frame pool leaves managed and free.
\<close>

section \<open>Frames of page-aligned ranges\<close>

definition frames_of :: "nat set \<Rightarrow> nat set" where
  "frames_of A = {f. f * PAGE_SIZE \<in> A}"

lemma frames_of_simps [simp]: "frames_of {} = {}" "frames_of (A \<union> B) = frames_of A \<union> frames_of B"
  "frames_of (A \<inter> B) = frames_of A \<inter> frames_of B" "frames_of (A - B) = frames_of A - frames_of B"
  by (auto simp: frames_of_def)

lemma page_pos [simp]: "0 < PAGE_SIZE" "Suc 0 \<le> PAGE_SIZE"
  by (simp_all add: PAGE_SIZE_def)

lemma frames_of_range:
  assumes "paged PAGE_SIZE [r]"
  shows "frames_of (pts r) = {from_addr (start r)..<from_addr (range_end r)}" "from_addr (start r) < from_addr (range_end r)"
    "from_addr (range_end r) - from_addr (start r) = range_len r div PAGE_SIZE" "from_addr (range_end r) \<le> range_end r"
proof -
  have "PAGE_SIZE dvd start r" "PAGE_SIZE dvd range_end r" and lt: "start r < range_end r"
    using assms by (auto simp: paged_Cons)
  then obtain a b where "start r = a * PAGE_SIZE" "range_end r = b * PAGE_SIZE"
    by (metis dvdE mult.commute)
  note ab = this lt
  show "frames_of (pts r) = {from_addr (start r)..<from_addr (range_end r)}" "from_addr (start r) < from_addr (range_end r)"
    using ab by (auto simp: frames_of_def pts_def from_addr_def)
  show "from_addr (range_end r) - from_addr (start r) = range_len r div PAGE_SIZE" "from_addr (range_end r) \<le> range_end r"
    using ab by (simp_all add: from_addr_def range_len_def flip: diff_mult_distrib)
qed

definition page_count :: "range list \<Rightarrow> nat" where
  "page_count xs = sum_list (map (\<lambda>r. range_len r div PAGE_SIZE) xs)"

lemma page_count_simps [simp]: "page_count [] = 0" "page_count (r # rs) = range_len r div PAGE_SIZE + page_count rs"
  by (simp_all add: page_count_def)

lemma paged_split: "paged page (r # rs) \<longleftrightarrow> paged page [r] \<and> paged page rs"
  by (auto simp: paged_def)

lemma ordered_away: "ordered (r # rs) \<Longrightarrow> pts r \<inter> cover rs = {}"
  by (fastforce simp: ordered_simps cover_def pts_def)

lemma page_count_card:
  assumes "paged PAGE_SIZE xs" "ordered xs"
  shows "card (frames_of (cover xs)) = page_count xs \<and> finite (frames_of (cover xs)) \<and> card (cover xs) = page_count xs * PAGE_SIZE"
  using assms
proof (induction xs)
  case (Cons r rs)
  have r: "paged PAGE_SIZE [r]" "paged PAGE_SIZE rs" "ordered rs"
    using Cons.prems by (auto simp: paged_split [of _ r rs] ordered_simps)
  note IH = Cons.IH [OF r(2,3)] and fr = frames_of_range [OF r(1)]
  have away: "frames_of (pts r) \<inter> frames_of (cover rs) = {}" "pts r \<inter> cover rs = {}"
    using ordered_away [OF Cons.prems(2)] frames_of_simps(3) [of "pts r" "cover rs"] by simp_all
  have "PAGE_SIZE dvd range_len r"
    using r(1) by (auto simp: paged_Cons range_len_def)
  then have "card (pts r) = range_len r div PAGE_SIZE * PAGE_SIZE"
    by (simp add: pts_def range_len_def)
  then show ?case
    using IH fr away by (simp add: card_Un_disjoint pts_def distrib_right)
qed simp

section \<open>The loops of the initialisation\<close>

lemma add_regions_exact:
  assumes "pool_inv p" "paged PAGE_SIZE rs" "ordered rs" "\<forall>r \<in> set rs. range_end r < usize_bound"
    "pool_managed p \<inter> frames_of (cover rs) = {}"
    "metadata_used p + 2 * page_count rs \<le> length (metadata p)"
    "arena_count p + 128 * length rs \<le> length (arenas p)"
  shows "\<exists>q. add_regions rs p = Some q \<and> pool_inv q \<and> pool_managed q = pool_managed p \<union> frames_of (cover rs) \<and>
    free_set q = free_set p"
  using assms
proof (induction rs arbitrary: p)
  case (Cons r rs)
  define s where "s = from_addr (start r)"
  define e where "e = from_addr (range_end r)"
  have r: "paged PAGE_SIZE [r]" "paged PAGE_SIZE rs" "ordered rs"
    using Cons.prems(2,3) by (auto simp: paged_split [of _ r rs] ordered_simps)
  note fr = frames_of_range [OF r(1), folded s_def e_def]
  have e: "e < usize_bound"
    using fr(4) Cons.prems(4) by (meson le_less_trans list.set_intros(1))
  have few: "length (for_each_block s e) \<le> 128"
    using blocks_ascend [of 0 s e] e by simp
  have "{s..<e} \<inter> pool_managed p = {}"
    using Cons.prems(5) fr(1) by auto
  then have none: "region_error p s e = None"
    using fr(2,3) few Cons.prems(6,7) unfolding region_error_def by (simp del: Int_atLeastLessThan)
  obtain q where q: "add_managed_region p s e = Some (Ok (), q)" "pool_inv q" "grown p q s e"
      "arena_count q = arena_count p + length (for_each_block s e)"
    using add_managed_region_exact [OF Cons.prems(1) e, of s] none by auto
  have mq: "pool_managed q = pool_managed p \<union> frames_of (pts r)"
    using q(3) fr(1) unfolding grown_def by simp
  have "frames_of (pts r) \<inter> frames_of (cover rs) = {}"
    using ordered_away [OF Cons.prems(3)] frames_of_simps(3) [of "pts r" "cover rs"] by simp
  then have "pool_managed q \<inter> frames_of (cover rs) = {}"
    using Cons.prems(5) unfolding mq by auto
  moreover have "metadata_used q + 2 * page_count rs \<le> length (metadata q)" "arena_count q + 128 * length rs \<le> length (arenas q)"
    using q(3,4) few fr(3) Cons.prems(6,7) unfolding grown_def by simp_all
  moreover have "\<forall>r \<in> set rs. range_end r < usize_bound"
    using Cons.prems(4) by (meson list.set_intros(2))
  ultimately obtain t where "add_regions rs q = Some t" "pool_inv t" "pool_managed t = pool_managed q \<union> frames_of (cover rs)"
    "free_set t = free_set q"
    using Cons.IH [OF q(2) r(2,3)] by blast
  then show ?case
    using q(1,3) mq unfolding grown_def s_def e_def by (auto simp: Un_assoc)
qed simp

lemma release_ranges_exact:
  assumes "pool_inv p" "paged PAGE_SIZE rs" "ordered rs" "frames_of (cover rs) \<subseteq> pool_managed p - free_set p"
  shows "\<exists>q. release_ranges rs p = Some q \<and> pool_inv q \<and> pool_managed q = pool_managed p \<and>
    free_set q = free_set p \<union> frames_of (cover rs)"
  using assms
proof (induction rs arbitrary: p)
  case (Cons r rs)
  define s where "s = from_addr (start r)"
  define e where "e = from_addr (range_end r)"
  have r: "paged PAGE_SIZE [r]" "paged PAGE_SIZE rs" "ordered rs"
    using Cons.prems(2,3) by (auto simp: paged_split [of _ r rs] ordered_simps)
  note fr = frames_of_range [OF r(1), folded s_def e_def]
  have "{s..<e} \<subseteq> pool_managed p - free_set p"
    using Cons.prems(4) fr(1) by auto
  then obtain q where q: "release_range p s e = Some (Ok (), q)" "pool_inv q" "admitted q = admitted p"
    "free_set q = free_set p \<union> {s..<e}"
    using release_range_taken [OF Cons.prems(1) fr(2)] by metis
  have "frames_of (pts r) \<inter> frames_of (cover rs) = {}"
    using ordered_away [OF Cons.prems(3)] frames_of_simps(3) [of "pts r" "cover rs"] by simp
  then have "frames_of (cover rs) \<subseteq> pool_managed q - free_set q"
    using Cons.prems(4) q(3,4) fr(1) by auto
  then obtain t where "release_ranges rs q = Some t" "pool_inv t" "pool_managed t = pool_managed q"
    "free_set t = free_set q \<union> frames_of (cover rs)"
    using Cons.IH [OF q(2) r(2,3)] by blast
  then show ?case
    using q fr(1) unfolding s_def e_def by (auto simp: Un_assoc)
qed simp

lemma new_pool:
  assumes "n < usize_bound"
  obtains p where "FramePool_new (replicate n 0) (replicate MAX_ARENAS EMPTY_ARENA) = Some p" "pool_inv p" "pool_managed p = {}"
    "free_set p = {}" "metadata_used p = 0" "length (metadata p) = n" "arena_count p = 0" "length (arenas p) = 2048"
proof -
  have a: "replicate MAX_ARENAS EMPTY_ARENA \<noteq> []" "length (replicate MAX_ARENAS EMPTY_ARENA) = MAX_ARENAS"
    by (simp_all add: MAX_ARENAS_def)
  define p where "p = \<lparr>metadata = replicate n UNAVAILABLE, metadata_used = 0,
        arenas = replicate MAX_ARENAS EMPTY_ARENA, arena_count = 0, free_frames = 0\<rparr>"
  have "FramePool_new (replicate n 0) (replicate MAX_ARENAS EMPTY_ARENA) = Some p"
    using a unfolding FramePool_new_def p_def by simp
  moreover have "admitted p = []"
    unfolding admitted_def p_def by simp
  ultimately show ?thesis
    using that [of p] assms unfolding pool_inv_def pool_trees_def free_set_def managed_def p_def by (simp add: MAX_ARENAS_def)
qed

section \<open>From the board to the pool\<close>

lemma region_ranges_Some:
  "region_ranges ms = Some rs \<Longrightarrow> length rs = length ms \<and> (\<forall>r \<in> set rs. start r < range_end r \<and> range_end r < usize_bound)"
proof (induction ms arbitrary: rs)
  case (Cons m ms)
  then show ?case
    by (fastforce simp: bind_eq_Some_conv region_end_def Range_new_def split: if_splits)
qed simp

lemma total_frames_Some: "total_frames_from acc rs = Some n \<Longrightarrow> n = acc + page_count rs"
  by (induction rs arbitrary: acc) (fastforce simp: bind_eq_Some_conv)+

lemma gather_parts:
  assumes "gather board im = Some inp"
  shows "paged PAGE_SIZE (in_managed inp)" "ordered (in_managed inp)" "length (in_managed inp) = length (memories board)"
    "\<forall>r \<in> set (in_managed inp). range_end r < usize_bound" "in_total inp = page_count (in_managed inp)"
    "in_tree_len inp = 2 * in_total inp" "in_tree_len inp < usize_bound"
proof -
  obtain raw where r: "region_ranges (memories board) = Some raw" "in_managed inp = sort_key start raw"
    "validate_memories (in_managed inp) = Some ()" "total_frames_from 0 (in_managed inp) = Some (in_total inp)"
    "metadata_bytes (in_total inp) = Some (in_tree_len inp)"
    using assms unfolding gather_def by (auto simp: bind_eq_Some_conv Let_def)
  note rr = region_ranges_Some [OF r(1)]
  show p: "paged PAGE_SIZE (in_managed inp)"
    using rr r(2,3) unfolding validate_memories_def paged_def by (auto split: if_splits)
  show "length (in_managed inp) = length (memories board)" "\<forall>r \<in> set (in_managed inp). range_end r < usize_bound"
    using rr r(2) by simp_all
  show "ordered (in_managed inp)"
    using windows_ordered [OF _ p] r(2,3) unfolding validate_memories_def by (auto split: if_splits)
  show "in_total inp = page_count (in_managed inp)"
    using total_frames_Some [OF r(4)] by simp
  show "in_tree_len inp = 2 * in_total inp" "in_tree_len inp < usize_bound"
    using r(5) unfolding metadata_bytes_def by auto
qed

lemma plan_system_bytes:
  assumes "plan_ranges pl mems perm boot rq = Ok p"
  shows "system_bytes (inventory p) = range_len (supply_metadata (system p)) + heap_chunk_size rq * heap_chunk_count rq +
      recovery_ticket_size rq * recovery_ticket_count rq"
    "ordered (permanent (inventory p))" "ordered (boot_held (inventory p))" "ordered (user_free (inventory p))"
proof -
  obtain ms u ml u' where q: "requirements_ok pl rq"
    "classify (ranges_cap pl) mems perm boot (page_size rq) = Ok (ms, permanent (inventory p), boot_held (inventory p), u)"
    "place_system pl ms u rq = Ok (ml, supply_metadata (system p), u', heap_ranges (system p), recovery_ranges (system p))"
    "subtract_into (ranges_cap pl) ms u' = Ok (user_free (inventory p))" "system_total ml rq = Ok (system_bytes (inventory p))"
    using plan_Ok_parts [OF assms] by metis
  note c = classify_cover [OF q(2)]
  show "system_bytes (inventory p) = range_len (supply_metadata (system p)) + heap_chunk_size rq * heap_chunk_count rq +
      recovery_ticket_size rq * recovery_ticket_count rq"
    using system_total_Ok [OF q(5)] place_system_cover(2) [OF q(3,1) c(9,8)] by simp
  show "ordered (permanent (inventory p))" "ordered (boot_held (inventory p))" "ordered (user_free (inventory p))"
    using c(5,7) plan_partition(3) [OF q(2,1,3,4)] by blast+
qed

text \<open>The closing accounts, in pages.\<close>

lemma plan_pages:
  assumes "plan_ranges kernel_planner mems perm boot (kernel_requirements n) = Ok p" "paged PAGE_SIZE mems" "ordered mems"
  shows "permanent_bytes (inventory p) = page_count (permanent (inventory p)) * PAGE_SIZE"
    "boot_held_bytes (inventory p) = page_count (boot_held (inventory p)) * PAGE_SIZE"
    "user_free_bytes (inventory p) = page_count (user_free (inventory p)) * PAGE_SIZE"
    "system_bytes (inventory p) div PAGE_SIZE =
       range_len (supply_metadata (system p)) div PAGE_SIZE + HEAP_CHUNK_LIMIT * (HEAP_CHUNK_SIZE div PAGE_SIZE) + RECOVERY_TICKET_LIMIT"
    "page_count mems = permanent_bytes (inventory p) div PAGE_SIZE + boot_held_bytes (inventory p) div PAGE_SIZE +
       system_bytes (inventory p) div PAGE_SIZE + page_count (user_free (inventory p))"
proof -
  have page: "page_size (kernel_requirements n) = PAGE_SIZE"
    by (simp add: kernel_requirements_def)
  note cl = plan_classes [OF assms(1)] and mr = plan_sizes [OF assms(1), unfolded page]
  note sb = plan_system_bytes [OF assms(1)]
  have pg: "paged PAGE_SIZE (permanent (inventory p))" "paged PAGE_SIZE (boot_held (inventory p))"
      "paged PAGE_SIZE (user_free (inventory p))" "paged PAGE_SIZE [supply_metadata (system p)]"
    using mr by (simp_all add: paged_Cons)
  show pb: "permanent_bytes (inventory p) = page_count (permanent (inventory p)) * PAGE_SIZE"
    and bb: "boot_held_bytes (inventory p) = page_count (boot_held (inventory p)) * PAGE_SIZE"
    and ub: "user_free_bytes (inventory p) = page_count (user_free (inventory p)) * PAGE_SIZE"
    using cl page_count_card [OF pg(1) sb(2)] page_count_card [OF pg(2) sb(3)] page_count_card [OF pg(3) sb(4)] by simp_all
  obtain k where k: "range_len (supply_metadata (system p)) = k * PAGE_SIZE"
    using pg(4) by (auto simp: paged_Cons range_len_def elim!: dvdE) (metis mult.commute diff_mult_distrib)
  have "system_bytes (inventory p) = (k + HEAP_CHUNK_LIMIT * (HEAP_CHUNK_SIZE div PAGE_SIZE) + RECOVERY_TICKET_LIMIT) * PAGE_SIZE"
    using sb(1) k by (simp add: kernel_requirements_def HEAP_CHUNK_LIMIT_def HEAP_CHUNK_SIZE_def RECOVERY_TICKET_LIMIT_def PAGE_SIZE_def)
  moreover have pos: "0 < PAGE_SIZE"
    by (simp add: PAGE_SIZE_def)
  ultimately have sd: "system_bytes (inventory p) div PAGE_SIZE =
      range_len (supply_metadata (system p)) div PAGE_SIZE + HEAP_CHUNK_LIMIT * (HEAP_CHUNK_SIZE div PAGE_SIZE) + RECOVERY_TICKET_LIMIT"
    and sm: "system_bytes (inventory p) = system_bytes (inventory p) div PAGE_SIZE * PAGE_SIZE"
    using k by simp_all
  show "system_bytes (inventory p) div PAGE_SIZE =
      range_len (supply_metadata (system p)) div PAGE_SIZE + HEAP_CHUNK_LIMIT * (HEAP_CHUNK_SIZE div PAGE_SIZE) + RECOVERY_TICKET_LIMIT"
    by (rule sd)
  have "page_count mems * PAGE_SIZE = page_count (permanent (inventory p)) * PAGE_SIZE + page_count (boot_held (inventory p)) * PAGE_SIZE +
      system_bytes (inventory p) div PAGE_SIZE * PAGE_SIZE + page_count (user_free (inventory p)) * PAGE_SIZE"
    using cl(4,8) page_count_card [OF assms(2,3)] pb bb ub sm by simp
  also have "\<dots> = (page_count (permanent (inventory p)) + page_count (boot_held (inventory p)) +
      system_bytes (inventory p) div PAGE_SIZE + page_count (user_free (inventory p))) * PAGE_SIZE"
    by (simp only: distrib_right)
  finally show "page_count mems = permanent_bytes (inventory p) div PAGE_SIZE + boot_held_bytes (inventory p) div PAGE_SIZE +
       system_bytes (inventory p) div PAGE_SIZE + page_count (user_free (inventory p))"
    using pb bb pos by (simp only: mult_cancel2) simp
qed

lemma plan_free_apart:
  assumes "plan_ranges pl mems perm boot rq = Ok p"
  shows "cover (user_free (inventory p)) \<inter> (cover perm \<union> cover boot \<union> pts (supply_metadata (system p)) \<union>
      cover (heap_snapshot (system p))) = {}"
proof -
  note cl = plan_classes(1-3) [OF assms]
  have "cover (user_free (inventory p)) \<subseteq> cover mems"
    "cover (user_free (inventory p)) \<inter> cover (permanent (inventory p)) = {}" "cover (user_free (inventory p)) \<inter> cover (boot_held (inventory p)) = {}"
    "cover (user_free (inventory p)) \<inter> (pts (supply_metadata (system p)) \<union> cover (heap_snapshot (system p))) = {}"
    using cl(1) unfolding partitions_def by auto
  then show ?thesis
    unfolding cl(2,3) by blast
qed

lemma publish_exact:
  assumes "gather board im = Some inp" "length (memories board) \<le> MAX_MEMORY_REGIONS" "ROOT_POOL_SEED st = None"
    "plan_ranges kernel_planner (in_managed inp) (in_permanent inp) (in_boot inp) (kernel_requirements (in_metadata_len inp)) = Ok p"
  obtains q where "pool_inv q" "pool_managed q = frames_of (cover (in_managed inp))"
    "free_set q = frames_of (cover (user_free (inventory p)))"
    "publish inp p st = Some (st\<lparr>POOL := Some q, SYSTEM_SUPPLY := Some (system p),
       ROOT_POOL_SEED := Some (free_frames q + boot_held_bytes (inventory p) div PAGE_SIZE)\<rparr>)"
proof -
  note g = gather_parts [OF assms(1)]
  note pp = plan_pages [OF assms(4) g(1,2)]
  have page: "page_size (kernel_requirements (in_metadata_len inp)) = PAGE_SIZE"
    by (simp add: kernel_requirements_def)
  have uf: "paged PAGE_SIZE (user_free (inventory p))" "ordered (user_free (inventory p))"
    using plan_sizes [OF assms(4), unfolded page] plan_system_bytes(4) [OF assms(4)] by (simp_all add: paged_Cons)
  have sub: "cover (user_free (inventory p)) \<subseteq> cover (in_managed inp)"
    using plan_classes [OF assms(4)] unfolding partitions_def by auto
  obtain p0 where p0: "FramePool_new (replicate (in_tree_len inp) 0) (replicate MAX_ARENAS EMPTY_ARENA) = Some p0" "pool_inv p0"
    "pool_managed p0 = {}" "free_set p0 = {}" "metadata_used p0 = 0" "length (metadata p0) = in_tree_len inp" "arena_count p0 = 0"
    "length (arenas p0) = 2048"
    using new_pool [OF g(7)] .
  obtain p1 where p1: "add_regions (in_managed inp) p0 = Some p1" "pool_inv p1" "pool_managed p1 = frames_of (cover (in_managed inp))"
    "free_set p1 = {}"
    using add_regions_exact [OF p0(2) g(1,2,4)] p0 g(3,5,6) assms(2) unfolding MAX_MEMORY_REGIONS_def by auto
  have "frames_of (cover (user_free (inventory p))) \<subseteq> pool_managed p1 - free_set p1"
    using sub unfolding p1(3,4) frames_of_def by auto
  then obtain q where q: "release_ranges (user_free (inventory p)) p1 = Some q" "pool_inv q" "pool_managed q = pool_managed p1"
    "free_set q = frames_of (cover (user_free (inventory p)))"
    using release_ranges_exact [OF p1(2) uf] p1(4) by auto
  have free: "free_frames q = page_count (user_free (inventory p))"
    using q(2,4) page_count_card [OF uf] unfolding pool_inv_def by simp
  have "free_frames q + boot_held_bytes (inventory p) div PAGE_SIZE < usize_bound"
    using pp(5) free g(5-7) by simp
  then have "publish inp p st = Some (st\<lparr>POOL := Some q, SYSTEM_SUPPLY := Some (system p),
       ROOT_POOL_SEED := Some (free_frames q + boot_held_bytes (inventory p) div PAGE_SIZE)\<rparr>)"
    using p0(1) p1(1) q(1) free pp g(5) assms(3) unfolding publish_def by (simp add: Let_def usize_add_def)
  then show ?thesis
    using that q p1(3) by simp
qed

section \<open>Numbers of reservations\<close>

lemma push_reservation_Some:
  "push_reservation cap rs s e = Some out \<longleftrightarrow> s < e \<and> PAGE_SIZE dvd s \<and> PAGE_SIZE dvd e \<and> length rs < cap \<and> out = rs @ [(s, e)]"
  by (auto simp: push_reservation_def)

lemma merge_reservations_length: "merge_reservations out rs = Some ys \<Longrightarrow> length ys \<le> length out + length rs"
  by (induction out rs rule: merge_reservations.induct) (fastforce split: if_splits list.splits)+

lemma normalize_reservations_length: "normalize_reservations rs = Some ys \<Longrightarrow> length ys \<le> length rs"
  using merge_reservations_length [of "[]" "sort_key fst rs" ys] by (simp add: normalize_reservations_def)

lemma push_regions_length: "push_regions cap out rs = Some ys \<Longrightarrow> length out \<le> cap \<Longrightarrow> length ys \<le> cap"
  by (induction rs arbitrary: out) (auto simp: bind_eq_Some_conv push_reservation_Some)

lemma permanents_length: "build_permanent_reservations board im = Some ys \<Longrightarrow> length ys \<le> MAX_PERMANENT_RESERVATIONS"
  unfolding build_permanent_reservations_def
  by (fastforce simp: bind_eq_Some_conv push_reservation_Some split: if_splits
      dest!: push_regions_length [of _ "[]"] normalize_reservations_length)

lemma boot_holds_length: "boot_holds board im ps = Some ys \<Longrightarrow> length ys \<le> MAX_BOOT_HOLDS"
  unfolding boot_holds_def Let_def
  by (fastforce simp: bind_eq_Some_conv push_reservation_Some split: if_splits option.splits dest!: normalize_reservations_length)

lemma supply_ranges_length: "supply_ranges rs = Some ys \<Longrightarrow> length ys = length rs"
  by (induction rs arbitrary: ys rule: supply_ranges.induct) (auto simp: bind_eq_Some_conv)

lemma gather_counts:
  assumes "gather board im = Some inp"
  shows "counted (length (memories board)) MAX_PERMANENT_RESERVATIONS MAX_BOOT_HOLDS (in_managed inp) (in_permanent inp) (in_boot inp)"
proof -
  obtain permanents boots where "build_permanent_reservations board im = Some permanents" "boot_holds board im permanents = Some boots"
    "supply_ranges permanents = Some (in_permanent inp)" "supply_ranges boots = Some (in_boot inp)"
    using assms unfolding gather_def Let_def by (auto simp: bind_eq_Some_conv)
  then show ?thesis
    using permanents_length boot_holds_length supply_ranges_length gather_parts(3) [OF assms] unfolding counted_def by fastforce
qed

section \<open>A concrete board\<close>

definition demo_board :: board_info where
  "demo_board = \<lparr>memories = [\<lparr>region_start = 2147483648, region_len = 67108864\<rparr>], platform_reservations = [],
     dtb_range = \<lparr>region_start = 2164260864, region_len = 8192\<rparr>, boot_package = None\<rparr>"

definition demo_image :: image where
  "demo_image = \<lparr>bootstrap_start = 2149580800, bootstrap_end = 2149646336, sbi_start = 2147483648, kernel_pa_end = 2155872256\<rparr>"

definition demo_frames :: frames_state where
  "demo_frames = \<lparr>POOL = None, SYSTEM_SUPPLY = None, ROOT_POOL_SEED = None\<rparr>"

lemmas gather_eval = gather_def region_end_def Range_new_def usize_add_def usize_mul_def Let_def validate_memories_def PAGE_SIZE_def
  range_len_def metadata_bytes_def ARENA_BYTES_def MAX_ARENAS_def build_permanent_reservations_def push_reservation_def
  MAX_PERMANENT_RESERVATIONS_def MAX_PLATFORM_RESERVATIONS_def normalize_reservations_def boot_holds_def assert_no_overlap_def
  overlaps_def MAX_BOOT_HOLDS_def demo_board_def demo_image_def

definition demo_inputs :: supply_inputs where
  "demo_inputs = \<lparr>in_managed = [\<lparr>start = 2147483648, range_end = 2214592512\<rparr>],
     in_permanent = [\<lparr>start = 2147483648, range_end = 2149580800\<rparr>, \<lparr>start = 2149646336, range_end = 2155872256\<rparr>],
     in_boot = [\<lparr>start = 2149580800, range_end = 2149646336\<rparr>, \<lparr>start = 2164260864, range_end = 2164269056\<rparr>],
     in_total = 16384, in_tree_len = 32768, in_metadata_len = 81920\<rparr>"

lemma demo_gather: "gather demo_board demo_image = Some demo_inputs"
  by (simp add: gather_eval demo_inputs_def)

lemma place_many_numeral:
  "place_many cap ms len al missing i (numeral k) u slots =
     and_then (place_one ms u len al) (\<lambda>found. and_then (ok_or found missing) (\<lambda>r. and_then (push cap u r) (\<lambda>u'.
       place_many cap ms len al missing (i + 1) (pred_numeral k) (normalize u') (slots[i := r]))))"
  by (simp add: numeral_eq_Suc)

lemma demo_plan_fits:
  "\<exists>p. plan_ranges kernel_planner (in_managed demo_inputs) (in_permanent demo_inputs) (in_boot demo_inputs)
     (kernel_requirements (in_metadata_len demo_inputs)) = Ok p \<and> boot_held_bytes (inventory p) = 73728"
  by (simp add: demo_inputs_def plan_eval kernel_planner_def kernel_requirements_def PAGE_SIZE_def HEAP_CHUNK_SIZE_def HEAP_CHUNK_LIMIT_def
      RECOVERY_TICKET_LIMIT_def MAX_CLASSIFIED_RANGES_def MAX_MEMORY_REGIONS_def MAX_PERMANENT_RESERVATIONS_def
      MAX_PLATFORM_RESERVATIONS_def MAX_BOOT_HOLDS_def place_many_numeral)

end
