(* ===== verification/Kernel_Frames_Release.thy ===== *)
theory Kernel_Frames_Release
  imports Kernel_Frames_Props
begin

text \<open>
  The release of the device tree after the boot. \<open>normalize_reservations\<close> and \<open>subtract\<close> of the kernel compute what the planner's
  \<open>normalize\<close> and \<open>subtract_into\<close> compute, on pairs instead of ranges, so that the lemmas on the planner apply to them.
\<close>

section \<open>Pairs and ranges\<close>

definition pair :: "range \<Rightarrow> nat \<times> nat" where
  "pair r = (start r, range_end r)"

lemma pair_simps [simp]: "fst (pair r) = start r" "snd (pair r) = range_end r" "pair \<lparr>start = s, range_end = e\<rparr> = (s, e)"
  by (simp_all add: pair_def)

lemma unpair: "\<exists>r. x = pair r"
  by (cases x) (metis pair_simps(3))

lemma unpair_all: "\<exists>rs. xs = map pair rs"
  by (induction xs) (metis list.simps(8), metis unpair list.simps(9))

lemma sort_pairs: "sort_key fst (map pair rs) = map pair (sort_key start rs)"
proof -
  have "insort_key fst (pair r) (map pair xs) = map pair (insort_key start r xs)" for r xs
    by (induction xs) simp_all
  then show ?thesis
    by (induction rs) simp_all
qed

lemma merge_pairs:
  "merge_reservations (map pair out) (map pair rs) = (if paged PAGE_SIZE rs then Some (map pair (merge_pass out rs)) else None)"
proof (induction out rs rule: merge_pass.induct)
  case (1 out)
  then show ?case
    by (simp add: rev_map)
next
  case (2 r rs)
  then show ?case
    by (auto simp: pair_def paged_Cons)
next
  case (3 l out r rs)
  then show ?case
    by (auto simp: pair_def paged_Cons)
qed

lemma normalize_pairs:
  assumes "normalize_reservations (map pair rs) = Some ys"
  obtains ns where "ys = map pair ns" "paged PAGE_SIZE ns" "ordered ns" "cover ns = cover rs" "paged PAGE_SIZE rs"
proof -
  have a: "paged PAGE_SIZE rs" "ys = map pair (normalize rs)"
    using assms merge_pairs [of "[]" "sort_ranges rs"] unfolding normalize_reservations_def normalize_def
    by (auto simp: sort_pairs sort_ranges_def paged_def split: if_splits)
  then show ?thesis
    using that normalize_cover [OF a(1)] by blast
qed

lemma supply_pairs: "supply_ranges (map pair rs) = Some ys \<Longrightarrow> ys = rs"
  by (induction rs arbitrary: ys) (auto simp: bind_eq_Some_conv Range_new_def pair_def split: if_splits)

lemma subtract_pairs: "range_end r = e \<Longrightarrow> subtract c e (map pair hs) = map pair (cuts r c hs)"
  by (induction hs arbitrary: c) (auto simp: Let_def pair_def max_def min_def)

lemma cuts_cover:
  assumes "ordered hs" "paged page hs" "paged page [r]"
  shows "paged page (cuts r (start r) hs)" "ordered (cuts r (start r) hs)" "cover (cuts r (start r) hs) = pts r - cover hs"
proof -
  let ?xs = "cuts r (start r) hs"
  have "subtract_one (length ?xs) r (start r) [] hs = Ok ?xs"
    by (simp add: subtract_one_cuts append_into_exact)
  from subtract_one_cover [OF this assms(1,2)] assms(3)
  show "paged page ?xs" "ordered ?xs" "cover ?xs = pts r - cover hs"
    by (auto simp: paged_Cons pieces_def pts_def)
qed

lemma free_pieces_pairs:
  "POOL y = Some p \<Longrightarrow> paged PAGE_SIZE rs \<Longrightarrow> free_pieces (map pair rs) y = map_option (\<lambda>q. y\<lparr>POOL := Some q\<rparr>) (release_ranges rs p)"
proof (induction rs arbitrary: y p)
  case Nil
  then show ?case
    by simp
next
  case (Cons r rs)
  have "free_range y (start r) (range_end r) = map_option (\<lambda>q. y\<lparr>POOL := Some q\<rparr>)
      (do { (res, q) \<leftarrow> release_range p (from_addr (start r)) (from_addr (range_end r)); (case res of Ok _ \<Rightarrow> Some q | Err _ \<Rightarrow> None) })"
    using Cons.prems by (auto simp: free_range_def paged_Cons bind_eq_Some_conv split: option.splits result.splits bind_splits prod.splits)
  then show ?case
    using Cons.IH [of "y\<lparr>POOL := Some _\<rparr>"] Cons.prems(2)
    by (auto simp: pair_def paged_Cons split: result.splits bind_splits prod.splits option.splits)
qed

section \<open>The reservations of the boot\<close>

lemma permanents_pairs:
  assumes "build_permanent_reservations board im = Some ys"
  obtains rs where "ys = map pair rs" "paged PAGE_SIZE rs" "ordered rs"
proof -
  obtain xs where "normalize_reservations xs = Some ys"
    using assms unfolding build_permanent_reservations_def by (auto simp: bind_eq_Some_conv split: if_splits)
  then show ?thesis
    using that unpair_all [of xs] normalize_pairs by metis
qed

text \<open>The device tree as a range.\<close>

definition dtb_supply :: "board_info \<Rightarrow> range" where
  "dtb_supply board = \<lparr>start = region_start (dtb_range board), range_end = region_start (dtb_range board) + region_len (dtb_range board)\<rparr>"

lemma boot_holds_dtb:
  assumes "boot_holds board im ps = Some ys"
  obtains rs where "ys = map pair rs" "pts (dtb_supply board) \<subseteq> cover rs" "paged PAGE_SIZE [dtb_supply board]"
    "region_end (dtb_range board) = Some (range_end (dtb_supply board))"
proof -
  obtain zs where z: "normalize_reservations (pair (dtb_supply board) # zs) = Some ys" "paged PAGE_SIZE [dtb_supply board]"
    "region_end (dtb_range board) = Some (range_end (dtb_supply board))"
    using assms unfolding boot_holds_def Let_def
    by (fastforce simp: bind_eq_Some_conv push_reservation_Some region_end_def dtb_supply_def paged_Cons pair_def split: if_splits option.splits)
  obtain rs where rs: "zs = map pair rs"
    using unpair_all by blast
  have "normalize_reservations (map pair (dtb_supply board # rs)) = Some ys"
    using z(1) rs by simp
  then obtain ns where "ys = map pair ns" "cover ns = cover (dtb_supply board # rs)"
    by (rule normalize_pairs)
  then show ?thesis
    using that z(2,3) by simp
qed

lemma gather_reservations:
  assumes "gather board im = Some inp"
  shows "build_permanent_reservations board im = Some (map pair (in_permanent inp))" "paged PAGE_SIZE (in_permanent inp)"
    "ordered (in_permanent inp)" "paged PAGE_SIZE [dtb_supply board]" "pts (dtb_supply board) \<subseteq> cover (in_boot inp)"
    "region_end (dtb_range board) = Some (range_end (dtb_supply board))"
proof -
  obtain permanents boots where g: "build_permanent_reservations board im = Some permanents" "boot_holds board im permanents = Some boots"
    "supply_ranges permanents = Some (in_permanent inp)" "supply_ranges boots = Some (in_boot inp)"
    using assms unfolding gather_def Let_def by (auto simp: bind_eq_Some_conv)
  obtain rs where rs: "permanents = map pair rs" "paged PAGE_SIZE rs" "ordered rs"
    using permanents_pairs [OF g(1)] .
  then have "rs = in_permanent inp"
    using supply_pairs g(3) by metis
  then show "build_permanent_reservations board im = Some (map pair (in_permanent inp))" "paged PAGE_SIZE (in_permanent inp)"
      "ordered (in_permanent inp)"
    using g(1) rs by simp_all
  obtain bs where bs: "boots = map pair bs" "pts (dtb_supply board) \<subseteq> cover bs" "paged PAGE_SIZE [dtb_supply board]"
    "region_end (dtb_range board) = Some (range_end (dtb_supply board))"
    using boot_holds_dtb [OF g(2)] .
  then have "bs = in_boot inp"
    using supply_pairs g(4) by metis
  then show "paged PAGE_SIZE [dtb_supply board]" "pts (dtb_supply board) \<subseteq> cover (in_boot inp)"
      "region_end (dtb_range board) = Some (range_end (dtb_supply board))"
    using bs by simp_all
qed

text \<open>What is released was boot-held, so it is managed and not yet free.\<close>

lemma release_device_tree_exact:
  assumes "gather board im = Some inp" "POOL y = Some p" "pool_inv p"
    "frames_of (pts (dtb_supply board) - cover (in_permanent inp)) \<subseteq> pool_managed p - free_set p"
  obtains q where "release_device_tree board im y = Some (y\<lparr>POOL := Some q\<rparr>)" "pool_inv q" "pool_managed q = pool_managed p"
    "free_set q = free_set p \<union> frames_of (pts (dtb_supply board) - cover (in_permanent inp))"
proof -
  note g = gather_reservations [OF assms(1)]
  let ?xs = "cuts (dtb_supply board) (start (dtb_supply board)) (in_permanent inp)"
  note c = cuts_cover [OF g(3,2,4)]
  obtain q where q: "release_ranges ?xs p = Some q" "pool_inv q" "pool_managed q = pool_managed p"
    "free_set q = free_set p \<union> frames_of (cover ?xs)"
    using release_ranges_exact [OF assms(3) c(1,2)] assms(4) unfolding c(3) by blast
  have "release_device_tree board im y = free_pieces (map pair ?xs) y"
    unfolding release_device_tree_def g(1,6) by (simp add: subtract_pairs [OF refl, symmetric]) (simp add: dtb_supply_def)
  then have "release_device_tree board im y = Some (y\<lparr>POOL := Some q\<rparr>)"
    using free_pieces_pairs [OF assms(2) c(1)] q(1) by simp
  then show ?thesis
    using that q c(3) by simp
qed

lemma free_within_seed:
  assumes "plan_ranges kernel_planner mems perm boot (kernel_requirements n) = Ok p" "paged PAGE_SIZE mems" "ordered mems"
    "pool_inv q" "pool_inv r" "free_set q = frames_of (cover (user_free (inventory p)))"
    "free_set r = free_set q \<union> frames_of D" "D \<subseteq> cover (boot_held (inventory p))"
  shows "free_frames r \<le> free_frames q + boot_held_bytes (inventory p) div PAGE_SIZE"
proof -
  have page: "page_size (kernel_requirements n) = PAGE_SIZE"
    by (simp add: kernel_requirements_def)
  have pg: "paged PAGE_SIZE (boot_held (inventory p))"
    using plan_sizes(6) [OF assms(1)] unfolding page by (simp add: paged_Cons)
  note card = page_count_card [OF pg plan_system_bytes(3) [OF assms(1)]]
  have "frames_of D \<subseteq> frames_of (cover (boot_held (inventory p)))"
    using assms(8) unfolding frames_of_def by blast
  then have "card (frames_of D) \<le> page_count (boot_held (inventory p))"
    using card card_mono by metis
  moreover have "page_count (boot_held (inventory p)) = boot_held_bytes (inventory p) div PAGE_SIZE"
    using plan_pages(2) [OF assms(1-3)] page_pos by simp
  moreover have "free_frames r = card (free_set r)" "free_frames q = card (free_set q)"
    using assms(4,5) unfolding pool_inv_def by simp_all
  ultimately show ?thesis
    using card_Un_le [of "free_set q" "frames_of D"] unfolding assms(7) by linarith
qed

end
