(* ===== verification/Funded_Frame.thy ===== *)
theory Funded_Frame
  imports Prelude
begin

text \<open>
  The funding transaction of \<open>os/funded_frame\<close>: reserve quota, claim extents, clear them, commit the quota. The crate is generic in
  the quota and in the inventory; its traits are records of functions, over the state of the quota \<open>'q\<close> and of the inventory \<open>'i\<close>,
  and dropping a reservation, a claim or a credit is a function of the record too. The option of these functions is the panic of
  the implementation. A fixed array of \<open>N\<close> slots is a list of length \<open>N\<close>.
\<close>

section \<open>The traits\<close>

text \<open>\<open>QuotaSource\<close>, \<open>QuotaReservation\<close> and \<open>QuotaCredit\<close>, with their destructors.\<close>

record ('q, 'r, 'c, 'e) quota_source =
  q_reserve :: "'q \<Rightarrow> nat \<Rightarrow> (('r, 'e) result \<times> 'q) option"
  q_rollback :: "'q \<Rightarrow> 'r \<Rightarrow> 'q option"
  q_commit :: "'q \<Rightarrow> 'r \<Rightarrow> ('c \<times> 'q) option"
  c_split :: "'c \<Rightarrow> nat \<Rightarrow> (('c, 'e) result \<times> 'c) option"
  c_merge :: "'c \<Rightarrow> 'c \<Rightarrow> ((unit, 'e \<times> 'c) result \<times> 'c) option"
  c_drop :: "'q \<Rightarrow> 'c \<Rightarrow> 'q option"

text \<open>\<open>PhysicalSource\<close> and \<open>PhysicalClaim\<close>.\<close>

record ('i, 'p, 'e) physical_source =
  p_claim :: "'i \<Rightarrow> nat \<Rightarrow> (('p, 'e) result \<times> 'i) option"
  p_pages :: "'p \<Rightarrow> nat option"
  p_split :: "'p \<Rightarrow> nat \<Rightarrow> ('p \<times> 'p) option"
  p_clear :: "'p \<Rightarrow> 'p option"
  p_drop :: "'i \<Rightarrow> 'p \<Rightarrow> 'i option"

section \<open>Data\<close>

record limits =
  max_pages :: nat
  max_extents :: nat

datatype ('q, 'p) fund_error =
    ZeroPages
  | PageLimit
  | ExtentLimit
  | InvalidClaim
  | QuotaFailed 'q
  | PhysicalFailed 'p

datatype 'e decompose_error = BadSplit | SplitCredit 'e

datatype 'e combine_error = PageOverflow | CombineLimit | MergeCredit 'e

record ('c, 'p) funded =
  f_claims :: "'p option list"
  f_count :: nat
  f_pages :: nat
  f_credit :: "'c option"

section \<open>Funding\<close>

definition validate_request :: "nat \<Rightarrow> nat \<Rightarrow> limits \<Rightarrow> (unit, ('q, 'p) fund_error) result" where
  "validate_request N pages lim =
     (if pages = 0 then Err ZeroPages
      else if max_pages lim = 0 \<or> pages > max_pages lim then Err PageLimit
      else if max_extents lim = 0 \<or> max_extents lim > N then Err ExtentLimit
      else Ok ())"

text \<open>An indexed write; out of range it panics.\<close>

definition put_at :: "'a list \<Rightarrow> nat \<Rightarrow> 'a \<Rightarrow> 'a list option" where
  "put_at xs n x = (if n < length xs then Some (xs[n := x]) else None)"

text \<open>The loop of \<open>fund\<close>. An error leaves the claims made so far in the array; the claim just refused is dropped at once.\<close>

function claim_loop ::
  "('i, 'p, 'e) physical_source \<Rightarrow> nat \<Rightarrow> nat \<Rightarrow> 'i \<Rightarrow> 'p option list \<Rightarrow> nat \<Rightarrow> nat \<Rightarrow>
     ((nat, ('q, 'e) fund_error) result \<times> 'p option list \<times> 'i) option" where
  "claim_loop src pages most i cs n claimed =
     (if claimed < pages then
        (if n = most then Some (Err ExtentLimit, cs, i)
         else do {
           (res, i1) \<leftarrow> p_claim src i (pages - claimed);
           (case res of
              Err e \<Rightarrow> Some (Err (PhysicalFailed e), cs, i1)
            | Ok claim \<Rightarrow>
                do {
                  k \<leftarrow> p_pages src claim;
                  if k = 0 \<or> k > pages - claimed
                  then do { i2 \<leftarrow> p_drop src i1 claim; Some (Err InvalidClaim, cs, i2) }
                  else do { cs' \<leftarrow> put_at cs n (Some claim); claim_loop src pages most i1 cs' (n + 1) (claimed + k) }
                })
         })
      else Some (Ok n, cs, i))"
  by pat_completeness auto
termination
  by (relation "measure (\<lambda>(src, pages, most, i, cs, n, claimed). pages - claimed)") auto

fun drop_claims :: "('i, 'p, 'e) physical_source \<Rightarrow> 'i \<Rightarrow> 'p option list \<Rightarrow> 'i option" where
  "drop_claims src i [] = Some i"
| "drop_claims src i (None # cs) = drop_claims src i cs"
| "drop_claims src i (Some c # cs) = do { i' \<leftarrow> p_drop src i c; drop_claims src i' cs }"

fun clear_claims :: "('i, 'p, 'e) physical_source \<Rightarrow> nat \<Rightarrow> 'p option list \<Rightarrow> 'p option list option" where
  "clear_claims src 0 cs = Some cs"
| "clear_claims src (Suc n) (Some c # cs) = do { c' \<leftarrow> p_clear src c; cs' \<leftarrow> clear_claims src n cs; Some (Some c' # cs') }"
| "clear_claims src (Suc n) _ = None"

definition fund ::
  "nat \<Rightarrow> ('q, 'r, 'c, 'qe) quota_source \<Rightarrow> ('i, 'p, 'pe) physical_source \<Rightarrow> 'q \<Rightarrow> 'i \<Rightarrow> nat \<Rightarrow> limits \<Rightarrow>
     ((('c, 'p) funded, ('qe, 'pe) fund_error) result \<times> 'q \<times> 'i) option" where
  "fund N quota src q i pages lim =
     (case validate_request N pages lim of
        Err e \<Rightarrow> Some (Err e, q, i)
      | Ok _ \<Rightarrow>
          do {
            (reserved, q1) \<leftarrow> q_reserve quota q pages;
            (case reserved of
               Err e \<Rightarrow> Some (Err (QuotaFailed e), q1, i)
             | Ok r \<Rightarrow>
                 do {
                   (claimed, cs, i1) \<leftarrow> claim_loop src pages (max_extents lim) i (replicate N None) 0 0;
                   (case claimed of
                      Err e \<Rightarrow>
                        do {
                          i2 \<leftarrow> drop_claims src i1 cs;
                          q2 \<leftarrow> q_rollback quota q1 r;
                          Some (Err e, q2, i2)
                        }
                    | Ok n \<Rightarrow>
                        do {
                          cs' \<leftarrow> clear_claims src n cs;
                          (c, q2) \<leftarrow> q_commit quota q1 r;
                          Some (Ok \<lparr>f_claims = cs', f_count = n, f_pages = pages, f_credit = Some c\<rparr>, q2, i1)
                        })
                 })
          })"

text \<open>The destructor of \<open>Funded\<close>: the extents go back before the credit.\<close>

definition drop_funded ::
  "('q, 'r, 'c, 'qe) quota_source \<Rightarrow> ('i, 'p, 'pe) physical_source \<Rightarrow> 'q \<Rightarrow> 'i \<Rightarrow> ('c, 'p) funded \<Rightarrow> ('q \<times> 'i) option" where
  "drop_funded quota src q i f =
     do {
       i' \<leftarrow> drop_claims src i (f_claims f);
       q' \<leftarrow> (case f_credit f of None \<Rightarrow> Some q | Some c \<Rightarrow> c_drop quota q c);
       Some (q', i')
     }"

section \<open>Taking apart and joining\<close>

text \<open>
  The loop of \<open>split_off\<close> over the first \<open>todo\<close> claims from \<open>index\<close> on: the array of the left part, that of the right part, their
  counts and the cursor.
\<close>

fun split_loop ::
  "('i, 'p, 'e) physical_source \<Rightarrow> nat \<Rightarrow> nat \<Rightarrow> nat \<Rightarrow> 'p option list \<Rightarrow> 'p option list \<Rightarrow> nat \<Rightarrow> nat \<Rightarrow> nat \<Rightarrow>
     ('p option list \<times> 'p option list \<times> nat \<times> nat \<times> nat) option" where
  "split_loop src left index 0 lc rc ln rn cursor = Some (lc, rc, ln, rn, cursor)"
| "split_loop src left index (Suc todo) lc rc ln rn cursor =
     do {
       slot \<leftarrow> at lc index;
       claim \<leftarrow> slot;
       k \<leftarrow> p_pages src claim;
       stop \<leftarrow> usize_add cursor k;
       let lc = lc[index := None];
       (if stop \<le> left then do {
          lc' \<leftarrow> put_at lc ln (Some claim);
          split_loop src left (index + 1) todo lc' rc (ln + 1) rn stop
        }
        else if cursor \<ge> left then do {
          rc' \<leftarrow> put_at rc rn (Some claim);
          split_loop src left (index + 1) todo lc rc' ln (rn + 1) stop
        }
        else do {
          (a, b) \<leftarrow> p_split src claim (left - cursor);
          lc' \<leftarrow> put_at lc ln (Some a);
          rc' \<leftarrow> put_at rc rn (Some b);
          split_loop src left (index + 1) todo lc' rc' (ln + 1) (rn + 1) stop
        })
     }"

text \<open>The \<open>?\<close> after the split of the credit leaves the owner as it is; \<open>c_split\<close> returns the credit it left behind.\<close>

definition split_off ::
  "('q, 'r, 'c, 'qe) quota_source \<Rightarrow> ('i, 'p, 'pe) physical_source \<Rightarrow> ('c, 'p) funded \<Rightarrow> nat \<Rightarrow>
     ((('c, 'p) funded, 'qe decompose_error) result \<times> ('c, 'p) funded) option" where
  "split_off quota src f left =
     (if left = 0 \<or> left \<ge> f_pages f then Some (Err BadSplit, f)
      else do {
        c \<leftarrow> f_credit f;
        (res, c1) \<leftarrow> c_split quota c (f_pages f - left);
        (case res of
           Err e \<Rightarrow> Some (Err (SplitCredit e), f\<lparr>f_credit := Some c1\<rparr>)
         | Ok right_credit \<Rightarrow>
             do {
               (lc, rc, ln, rn, cursor) \<leftarrow>
                 split_loop src left 0 (f_count f) (f_claims f) (replicate (length (f_claims f)) None) 0 0 0;
               if cursor = f_pages f
               then Some (Ok \<lparr>f_claims = rc, f_count = rn, f_pages = f_pages f - left, f_credit = Some right_credit\<rparr>,
                 \<lparr>f_claims = lc, f_count = ln, f_pages = left, f_credit = Some c1\<rparr>)
               else None
             })
      })"

definition split_single ::
  "('q, 'r, 'c, 'qe) quota_source \<Rightarrow> ('i, 'p, 'pe) physical_source \<Rightarrow> ('c, 'p) funded \<Rightarrow> nat \<Rightarrow>
     ((('c, 'p) funded \<times> ('c, 'p) funded, 'qe decompose_error) result) option" where
  "split_single quota src f left =
     (if left = 0 \<or> left \<ge> f_pages f then Some (Err BadSplit)
      else do {
        (res, f') \<leftarrow> split_off quota src f left;
        (case res of Err e \<Rightarrow> Some (Err e) | Ok right \<Rightarrow> Some (Ok (f', right)))
      })"

text \<open>The loop of \<open>split_first\<close> that closes the gap in front.\<close>

fun shift_loop :: "nat \<Rightarrow> nat \<Rightarrow> 'p option list \<Rightarrow> 'p option list option" where
  "shift_loop index 0 cs = Some cs"
| "shift_loop index (Suc todo) cs =
     do { x \<leftarrow> at cs index; cs' \<leftarrow> put_at (cs[index := None]) (index - 1) x; shift_loop (index + 1) todo cs' }"

definition split_first ::
  "('q, 'r, 'c, 'qe) quota_source \<Rightarrow> ('i, 'p, 'pe) physical_source \<Rightarrow> ('c, 'p) funded \<Rightarrow>
     ((('c, 'p) funded, 'qe decompose_error) result \<times> ('c, 'p) funded) option" where
  "split_first quota src f =
     (if f_count f = 0 then Some (Err BadSplit, f)
      else do {
        slot \<leftarrow> at (f_claims f) 0;
        claim \<leftarrow> slot;
        k \<leftarrow> p_pages src claim;
        c \<leftarrow> f_credit f;
        if f_count f = 1
        then Some (Ok \<lparr>f_claims = [Some claim], f_count = 1, f_pages = k, f_credit = Some c\<rparr>,
          \<lparr>f_claims = (f_claims f)[0 := None], f_count = 0, f_pages = 0, f_credit = None\<rparr>)
        else do {
          (res, c1) \<leftarrow> c_split quota c k;
          (case res of
             Err e \<Rightarrow> Some (Err (SplitCredit e), f\<lparr>f_credit := Some c1\<rparr>)
           | Ok front \<Rightarrow>
               do {
                 cs \<leftarrow> shift_loop 1 (f_count f - 1) ((f_claims f)[0 := None]);
                 rest \<leftarrow> usize_sub (f_pages f) k;
                 Some (Ok \<lparr>f_claims = [Some claim], f_count = 1, f_pages = k, f_credit = Some front\<rparr>,
                   \<lparr>f_claims = cs, f_count = f_count f - 1, f_pages = rest, f_credit = Some c1\<rparr>)
               })
        }
      })"

text \<open>The loop of \<open>merge_from\<close>: the donor's claims are taken out and appended.\<close>

fun move_loop :: "nat \<Rightarrow> nat \<Rightarrow> 'p option list \<Rightarrow> 'p option list \<Rightarrow> nat \<Rightarrow> ('p option list \<times> 'p option list \<times> nat) option" where
  "move_loop index 0 ds cs n = Some (ds, cs, n)"
| "move_loop index (Suc todo) ds cs n =
     do { x \<leftarrow> at ds index; cs' \<leftarrow> put_at cs n x; move_loop (index + 1) todo (ds[index := None]) cs' (n + 1) }"

definition merge_from ::
  "('q, 'r, 'c, 'qe) quota_source \<Rightarrow> ('c, 'p) funded \<Rightarrow> ('c, 'p) funded \<Rightarrow>
     ((unit, 'qe combine_error) result \<times> ('c, 'p) funded \<times> ('c, 'p) funded) option" where
  "merge_from quota f d =
     (case usize_add (f_pages f) (f_pages d) of
        None \<Rightarrow> Some (Err PageOverflow, f, d)
      | Some pages \<Rightarrow>
          if f_count f + f_count d > length (f_claims f) then Some (Err CombineLimit, f, d)
          else do {
            dc \<leftarrow> f_credit d;
            c \<leftarrow> f_credit f;
            (res, c1) \<leftarrow> c_merge quota c dc;
            (case res of
               Err (e, back) \<Rightarrow> Some (Err (MergeCredit e), f\<lparr>f_credit := Some c1\<rparr>, d\<lparr>f_credit := Some back\<rparr>)
             | Ok _ \<Rightarrow>
                 do {
                   (ds, cs, n) \<leftarrow> move_loop 0 (f_count d) (f_claims d) (f_claims f) (f_count f);
                   Some (Ok (), \<lparr>f_claims = cs, f_count = n, f_pages = pages, f_credit = Some c1\<rparr>,
                     \<lparr>f_claims = ds, f_count = 0, f_pages = 0, f_credit = None\<rparr>)
                 })
          })"

end
