(* ===== verification/Funded_Frame_Props.thy ===== *)
theory Funded_Frame_Props
  imports Funded_Frame
begin

text \<open>
  What funding does for every inventory and every quota that keep their contracts. The contracts are locales over the records of the
  traits; the claims of an owner are told by the list of the frames they stand for.
\<close>

section \<open>Arrays of claims\<close>

lemma exI2: "P a b \<Longrightarrow> \<exists>x y. P x y"
  by blast

definition slotted :: "nat \<Rightarrow> 'p list \<Rightarrow> 'p option list" where
  "slotted N xs = map Some xs @ replicate (N - length xs) None"

lemma slotted_length [simp]: "length xs \<le> N \<Longrightarrow> length (slotted N xs) = N"
  by (simp add: slotted_def)

lemma slotted_nil: "replicate N None = slotted N []"
  by (simp add: slotted_def)

lemma slotted_put:
  assumes "length xs < N"
  shows "put_at (slotted N xs) (length xs) (Some x) = Some (slotted N (xs @ [x]))"
proof -
  have "replicate (N - length xs) (None :: 'a option) = None # replicate (N - Suc (length xs)) None"
    using assms by (metis Suc_diff_Suc replicate_Suc)
  then show ?thesis
    using assms by (simp add: put_at_def slotted_def list_update_append)
qed

text \<open>While claims are moved inside an array: some in front, a gap up to \<open>n\<close>, then those still to visit.\<close>

definition gapped :: "nat \<Rightarrow> nat \<Rightarrow> 'p list \<Rightarrow> 'p list \<Rightarrow> 'p option list" where
  "gapped N n ls todo = map Some ls @ replicate (n - length ls) None @ map Some todo @ replicate (N - n - length todo) None"

lemma gapped_start: "gapped N 0 [] xs = slotted N xs"
  by (simp add: gapped_def slotted_def)

lemma gapped_end: "length ls \<le> n \<Longrightarrow> n \<le> N \<Longrightarrow> gapped N n ls [] = slotted N ls"
  by (simp add: gapped_def slotted_def flip: replicate_add)

lemma gapped_next:
  assumes "length ls \<le> n" "n + length (x # todo) \<le> N"
  shows "at (gapped N n ls (x # todo)) n = Some (Some x)" "(gapped N n ls (x # todo))[n := None] = gapped N (n + 1) ls todo"
proof -
  have e: "gapped N n ls (x # todo) = (map Some ls @ replicate (n - length ls) None) @ Some x # map Some todo @ replicate (N - n - length (x # todo)) None"
    by (simp add: gapped_def)
  have l: "length (map Some ls @ replicate (n - length ls) None) = n"
    using assms(1) by simp
  show "at (gapped N n ls (x # todo)) n = Some (Some x)"
    unfolding e at_def using nth_append_length [of "map Some ls @ replicate (n - length ls) None"] l by simp
  have "(gapped N n ls (x # todo))[n := None] =
      (map Some ls @ replicate (n - length ls) None) @ None # map Some todo @ replicate (N - n - length (x # todo)) None"
    unfolding e using list_update_length [of "map Some ls @ replicate (n - length ls) None"] l by metis
  then show "(gapped N n ls (x # todo))[n := None] = gapped N (n + 1) ls todo"
    using assms by (simp add: gapped_def Suc_diff_le replicate_app_Cons_same)
qed

lemma gapped_put:
  assumes "length ls \<le> n" "n + 1 \<le> N"
  shows "put_at (gapped N (n + 1) ls todo) (length ls) (Some x) = Some (gapped N (n + 1) (ls @ [x]) todo)"
proof -
  have "replicate (Suc n - length ls) (None :: 'a option) = None # replicate (n - length ls) None"
    using assms(1) by (simp add: Suc_diff_le)
  then show ?thesis
    by (simp add: put_at_def gapped_def list_update_append)
qed

lemma move_loop_exact:
  "length xs + length todo \<le> N \<Longrightarrow> n + length todo \<le> M \<Longrightarrow>
   move_loop n (length todo) (gapped M n [] todo) (slotted N xs) (length xs) = Some (slotted M [], slotted N (xs @ todo), length (xs @ todo))"
proof (induction todo arbitrary: n xs)
  case (Cons x todo)
  then show ?case
    using gapped_next [of "[]" n x todo M] slotted_put [of xs N x] Cons.IH [of "xs @ [x]" "n + 1"] by simp
qed (simp add: gapped_end)

lemma shift_loop_exact:
  "length ls = n \<Longrightarrow> n + 1 + length todo \<le> N \<Longrightarrow> shift_loop (n + 1) (length todo) (gapped N (n + 1) ls todo) = Some (slotted N (ls @ todo))"
proof (induction todo arbitrary: n ls)
  case (Cons x todo)
  then show ?case
    using gapped_next [of ls "n + 1" x todo N] gapped_put [of ls "n + 1" N todo x] Cons.IH [of "ls @ [x]" "n + 1"] by simp
qed (simp add: gapped_end)

section \<open>The contract of the inventory\<close>

locale extent_source =
  fixes src :: "('i, 'p, 'e) physical_source"
    and ok :: "'i \<Rightarrow> bool"
    and free_of :: "'i \<Rightarrow> nat set"
    and managed_of :: "'i \<Rightarrow> nat set"
    and frames :: "'p \<Rightarrow> nat list"
    and dirty :: "'p \<Rightarrow> bool"
    and whole :: "'p \<Rightarrow> bool"
  assumes claims: "ok i \<Longrightarrow> 0 < m \<Longrightarrow> m < usize_bound \<Longrightarrow>
      (\<exists>c i'. p_claim src i m = Some (Ok c, i') \<and> whole c \<and> dirty c \<and> length (frames c) \<le> m \<and> set (frames c) \<subseteq> free_of i \<and>
        ok i' \<and> free_of i' = free_of i - set (frames c) \<and> managed_of i' = managed_of i) \<or>
      (\<exists>e. p_claim src i m = Some (Err e, i) \<and> free_of i = {})"
    and drops: "ok i \<Longrightarrow> whole c \<Longrightarrow> set (frames c) \<subseteq> managed_of i - free_of i \<Longrightarrow>
      \<exists>i'. p_drop src i c = Some i' \<and> ok i' \<and> free_of i' = free_of i \<union> set (frames c) \<and> managed_of i' = managed_of i"
    and pages: "whole c \<Longrightarrow> p_pages src c = Some (length (frames c))"
    and splits: "whole c \<Longrightarrow> 0 < k \<Longrightarrow> k < length (frames c) \<Longrightarrow>
      \<exists>a b. p_split src c k = Some (a, b) \<and> whole a \<and> whole b \<and> dirty a = dirty c \<and> dirty b = dirty c \<and>
        frames a = take k (frames c) \<and> frames b = drop k (frames c)"
    and clears: "whole c \<Longrightarrow> dirty c \<Longrightarrow> \<exists>c'. p_clear src c = Some c' \<and> whole c' \<and> \<not> dirty c' \<and> frames c' = frames c"
    and nonempty: "whole c \<Longrightarrow> frames c \<noteq> [] \<and> distinct (frames c)"
    and free_managed: "ok i \<Longrightarrow> free_of i \<subseteq> managed_of i"
begin

definition frames_all :: "'p list \<Rightarrow> nat list" where
  "frames_all xs = concat (map frames xs)"

lemma frames_all_simps [simp]: "frames_all [] = []" "frames_all (x # xs) = frames x @ frames_all xs"
  "frames_all (xs @ ys) = frames_all xs @ frames_all ys"
  by (simp_all add: frames_all_def)

text \<open>Claims taken out of \<open>i\<close>, which is \<open>j\<close> now.\<close>

definition taken :: "'i \<Rightarrow> 'p list \<Rightarrow> 'i \<Rightarrow> bool" where
  "taken i ys j \<longleftrightarrow> ok j \<and> (\<forall>y \<in> set ys. whole y) \<and> distinct (frames_all ys) \<and> set (frames_all ys) \<subseteq> free_of i \<and>
     free_of j = free_of i - set (frames_all ys) \<and> managed_of j = managed_of i"

lemma taken_nil [simp]: "ok i \<Longrightarrow> taken i [] i"
  by (simp add: taken_def)

lemma taken_step:
  assumes "taken i1 ys j" "whole c" "set (frames c) \<subseteq> free_of i" "free_of i1 = free_of i - set (frames c)" "managed_of i1 = managed_of i"
  shows "taken i (c # ys) j"
  using assms nonempty [OF assms(2)] unfolding taken_def by auto

text \<open>How the loop ends.\<close>

definition loop_end :: "nat \<Rightarrow> nat \<Rightarrow> 'p list \<Rightarrow> 'i \<Rightarrow> (nat, ('q, 'e) fund_error) result \<Rightarrow> bool" where
  "loop_end pages most xs j res \<longleftrightarrow>
     (case res of
        Ok n \<Rightarrow> n = length xs \<and> n \<le> most \<and> length (frames_all xs) = pages
      | Err e \<Rightarrow> length (frames_all xs) < pages \<and>
          (e = ExtentLimit \<and> length xs = most \<or> (\<exists>x. e = PhysicalFailed x) \<and> free_of j = {}))"

lemma claim_loop_exact:
  assumes "ok i" "length xs \<le> most" "most \<le> N" "length (frames_all xs) \<le> pages" "pages < usize_bound"
  shows "\<exists>res ys j. claim_loop src pages most i (slotted N xs) (length xs) (length (frames_all xs)) =
      Some (res :: (nat, ('q, 'e) fund_error) result, slotted N (xs @ ys), j) \<and>
    taken i ys j \<and> (\<forall>y \<in> set ys. dirty y) \<and> loop_end pages most (xs @ ys) j res"
  using assms(1,2,4)
proof (induction "pages - length (frames_all xs)" arbitrary: i xs rule: less_induct)
  case less
  let ?d = "length (frames_all xs)"
  consider "?d = pages" | "?d < pages" "length xs = most" | "?d < pages" "length xs < most"
    using less.prems by linarith
  then show ?case
  proof cases
    case 1
    then show ?thesis
      using less.prems by (intro exI [of _ "Ok (length xs)"] exI [of _ "[]"] exI [of _ i])
        (simp add: claim_loop.simps [of src pages] loop_end_def)
  next
    case 2
    then show ?thesis
      using less.prems by (intro exI [of _ "Err ExtentLimit"] exI [of _ "[]"] exI [of _ i])
        (simp add: claim_loop.simps [of src pages] loop_end_def)
  next
    case 3
    then have m: "0 < pages - ?d" "pages - ?d < usize_bound"
      using assms(5) by simp_all
    from claims [OF less.prems(1) m] consider
      (full) c i1 where "p_claim src i (pages - ?d) = Some (Ok c, i1)" "whole c" "dirty c" "length (frames c) \<le> pages - ?d"
        "set (frames c) \<subseteq> free_of i" "ok i1" "free_of i1 = free_of i - set (frames c)" "managed_of i1 = managed_of i"
    | (empty) e where "p_claim src i (pages - ?d) = Some (Err e, i)" "free_of i = {}"
      by blast
    then show ?thesis
    proof cases
      case full
      have k: "frames c \<noteq> []" "p_pages src c = Some (length (frames c))"
        using nonempty [OF full(2)] pages [OF full(2)] by simp_all
      have "pages - length (frames_all (xs @ [c])) < pages - ?d" "length (xs @ [c]) \<le> most" "length (frames_all (xs @ [c])) \<le> pages"
        using full(4) 3 k(1) by (auto simp: length_greater_0_conv [symmetric] simp del: length_greater_0_conv)
      then obtain res ys j where r: "claim_loop src pages most i1 (slotted N (xs @ [c])) (length (xs @ [c])) (length (frames_all (xs @ [c]))) =
          Some (res :: (nat, ('q, 'e) fund_error) result, slotted N ((xs @ [c]) @ ys), j)"
        "taken i1 ys j" "\<forall>y \<in> set ys. dirty y" "loop_end pages most ((xs @ [c]) @ ys) j res"
        using less.hyps [OF _ full(6)] by blast
      have "claim_loop src pages most i (slotted N xs) (length xs) ?d = Some (res, slotted N (xs @ c # ys), j)"
        using r(1) full(1,4) 3 k assms(3) slotted_put [of xs N c] by (subst claim_loop.simps) simp
      then show ?thesis
        using r(3,4) full(3) taken_step [OF r(2) full(2,5,7,8)] by (intro exI [of _ res] exI [of _ "c # ys"] exI [of _ j]) simp
    next
      case empty
      then show ?thesis
        using 3 less.prems by (intro exI [of _ "Err (PhysicalFailed e)"] exI [of _ "[]"] exI [of _ i])
          (simp add: claim_loop.simps [of src pages] loop_end_def)
    qed
  qed
qed

lemma drop_claims_None: "drop_claims src i (replicate n None) = Some i"
  by (induction n) simp_all

lemma drop_claims_exact:
  assumes "ok j" "\<forall>y \<in> set ys. whole y" "distinct (frames_all ys)" "set (frames_all ys) \<subseteq> managed_of j - free_of j"
  shows "\<exists>k. drop_claims src j (slotted N ys) = Some k \<and> ok k \<and> free_of k = free_of j \<union> set (frames_all ys) \<and> managed_of k = managed_of j"
  using assms
proof (induction ys arbitrary: j N)
  case (Cons y ys)
  have "set (frames y) \<subseteq> managed_of j - free_of j"
    using Cons.prems(4) by auto
  then obtain j1 where j1: "p_drop src j y = Some j1" "ok j1" "free_of j1 = free_of j \<union> set (frames y)" "managed_of j1 = managed_of j"
    using drops [OF Cons.prems(1), of y] Cons.prems(2) by auto
  have "set (frames_all ys) \<subseteq> managed_of j1 - free_of j1"
    using Cons.prems(3,4) j1(3,4) by auto
  then obtain k where "drop_claims src j1 (slotted (N - 1) ys) = Some k" "ok k" "free_of k = free_of j1 \<union> set (frames_all ys)"
    "managed_of k = managed_of j1"
    using Cons.IH [of j1 "N - 1"] Cons.prems(2,3) j1(2) by auto
  then show ?case
    using j1 by (intro exI [of _ k]) (auto simp: slotted_def)
qed (simp add: slotted_def drop_claims_None)

text \<open>Dropping the claims just taken gives the frames back.\<close>

lemma drop_taken:
  assumes "ok i" "taken i ys j"
  shows "\<exists>k. drop_claims src j (slotted N ys) = Some k \<and> ok k \<and> free_of k = free_of i \<and> managed_of k = managed_of i"
proof -
  have "set (frames_all ys) \<subseteq> managed_of j - free_of j"
    using assms(2) free_managed [OF assms(1)] unfolding taken_def by auto
  then obtain k where "drop_claims src j (slotted N ys) = Some k" "ok k" "free_of k = free_of j \<union> set (frames_all ys)"
      "managed_of k = managed_of j"
    using drop_claims_exact [of j ys N] assms(2) unfolding taken_def by blast
  then show ?thesis
    using assms(2) unfolding taken_def by auto
qed

lemma clear_claims_exact:
  assumes "\<forall>y \<in> set ys. whole y \<and> dirty y"
  shows "\<exists>zs. clear_claims src (length ys) (slotted N ys) = Some (slotted N zs) \<and> length zs = length ys \<and> map frames zs = map frames ys \<and>
    (\<forall>z \<in> set zs. whole z \<and> \<not> dirty z)"
  using assms
proof (induction ys arbitrary: N)
  case (Cons y ys)
  obtain c where c: "p_clear src y = Some c" "whole c" "\<not> dirty c" "frames c = frames y"
    using clears [of y] Cons.prems by auto
  obtain zs where zs: "clear_claims src (length ys) (slotted (N - 1) ys) = Some (slotted (N - 1) zs)" "length zs = length ys"
    "map frames zs = map frames ys" "\<forall>z \<in> set zs. whole z \<and> \<not> dirty z"
    using Cons.IH [of "N - 1"] Cons.prems by auto
  then show ?case
    using c by (intro exI [of _ "c # zs"]) (simp add: slotted_def)
qed (simp add: slotted_def)

text \<open>The parts of a list of claims cut after \<open>left\<close> pages.\<close>

definition cut_into :: "nat \<Rightarrow> 'p list \<Rightarrow> 'p list \<Rightarrow> 'p list \<Rightarrow> bool" where
  "cut_into left xs ls rs \<longleftrightarrow> frames_all ls = take left (frames_all xs) \<and> frames_all rs = drop left (frames_all xs) \<and>
     (\<forall>y \<in> set (ls @ rs). whole y \<and> (dirty y \<longrightarrow> (\<exists>x \<in> set xs. dirty x))) \<and> length ls \<le> length xs \<and> length rs \<le> length xs \<and>
     length ls + length rs \<le> Suc (length xs)"

lemma cut_none: "cut_into 0 xs ls rs \<Longrightarrow> ls = []"
  using nonempty unfolding cut_into_def by (cases ls) auto

lemma split_loop_exact:
  assumes "\<forall>x \<in> set todo. whole x" "length ls \<le> n" "length rs \<le> n" "n + length todo \<le> N" "cursor + length (frames_all todo) < usize_bound"
  shows "\<exists>ls' rs'. split_loop src left n (length todo) (gapped N n ls todo) (slotted N rs) (length ls) (length rs) cursor =
      Some (slotted N (ls @ ls'), slotted N (rs @ rs'), length (ls @ ls'), length (rs @ rs'), cursor + length (frames_all todo)) \<and>
    cut_into (left - cursor) todo ls' rs'"
  using assms
proof (induction todo arbitrary: n ls rs cursor)
  case (Cons x todo)
  let ?k = "length (frames x)"
  have x: "whole x" "p_pages src x = Some ?k" "at (gapped N n ls (x # todo)) n = Some (Some x)"
    "(gapped N n ls (x # todo))[n := None] = gapped N (n + 1) ls todo" "usize_add cursor ?k = Some (cursor + ?k)"
    using Cons.prems pages [of x] gapped_next [of ls n x todo N] by (simp_all add: usize_add_def)
  have put: "put_at (gapped N (n + 1) ls todo) (length ls) (Some y) = Some (gapped N (n + 1) (ls @ [y]) todo)"
      "put_at (slotted N rs) (length rs) (Some y) = Some (slotted N (rs @ [y]))" for y
    using Cons.prems(2-4) gapped_put [of ls n N todo y] slotted_put [of rs N y] by simp_all
  have rest: "\<exists>ls' rs'. split_loop src left (n + 1) (length todo) (gapped N (n + 1) us todo) (slotted N vs) (length us) (length vs) (cursor + ?k) =
      Some (slotted N (us @ ls'), slotted N (vs @ rs'), length (us @ ls'), length (vs @ rs'), cursor + ?k + length (frames_all todo)) \<and>
      cut_into (left - (cursor + ?k)) todo ls' rs'" if "length us \<le> n + 1" "length vs \<le> n + 1" for us vs
    using Cons.IH [of us "n + 1" vs "cursor + ?k"] Cons.prems that by simp
  consider (lower) "cursor + ?k \<le> left" | (upper) "left \<le> cursor" "\<not> cursor + ?k \<le> left"
    | (mid) "\<not> cursor + ?k \<le> left" "\<not> left \<le> cursor"
    by linarith
  then show ?case
  proof cases
    case lower
    obtain ls' rs' where r: "split_loop src left (n + 1) (length todo) (gapped N (n + 1) (ls @ [x]) todo) (slotted N rs) (length (ls @ [x]))
        (length rs) (cursor + ?k) = Some (slotted N ((ls @ [x]) @ ls'), slotted N (rs @ rs'), length ((ls @ [x]) @ ls'), length (rs @ rs'),
        cursor + ?k + length (frames_all todo))" "cut_into (left - (cursor + ?k)) todo ls' rs'"
      using rest [of "ls @ [x]" rs] Cons.prems(2,3) by auto
    moreover have "cut_into (left - cursor) (x # todo) (x # ls') rs'"
      using r(2) lower x(1) unfolding cut_into_def by auto
    ultimately show ?thesis
      using x put lower by (intro exI2 [where a = "x # ls'" and b = rs']) (simp add: Let_def add.assoc usize_add_def)
  next
    case upper
    obtain ls' rs' where r: "split_loop src left (n + 1) (length todo) (gapped N (n + 1) ls todo) (slotted N (rs @ [x])) (length ls)
        (length (rs @ [x])) (cursor + ?k) = Some (slotted N (ls @ ls'), slotted N ((rs @ [x]) @ rs'), length (ls @ ls'),
        length ((rs @ [x]) @ rs'), cursor + ?k + length (frames_all todo))" "cut_into (left - (cursor + ?k)) todo ls' rs'"
      using rest [of ls "rs @ [x]"] Cons.prems(2,3) by auto
    moreover have "cut_into (left - cursor) (x # todo) ls' (x # rs')"
      using r(2) upper x(1) unfolding cut_into_def by auto
    ultimately show ?thesis
      using x put upper by (intro exI2 [where a = ls' and b = "x # rs'"]) (simp add: Let_def add.assoc usize_add_def)
  next
    case mid
    then have "0 < left - cursor" "left - cursor < ?k"
      by simp_all
    then obtain a b where ab: "p_split src x (left - cursor) = Some (a, b)" "whole a" "whole b" "dirty a = dirty x" "dirty b = dirty x"
      "frames a = take (left - cursor) (frames x)" "frames b = drop (left - cursor) (frames x)"
      using splits [OF x(1)] by blast
    obtain ls' rs' where r: "split_loop src left (n + 1) (length todo) (gapped N (n + 1) (ls @ [a]) todo) (slotted N (rs @ [b]))
        (length (ls @ [a])) (length (rs @ [b])) (cursor + ?k) = Some (slotted N ((ls @ [a]) @ ls'), slotted N ((rs @ [b]) @ rs'),
        length ((ls @ [a]) @ ls'), length ((rs @ [b]) @ rs'), cursor + ?k + length (frames_all todo))"
        "cut_into (left - (cursor + ?k)) todo ls' rs'"
      using rest [of "ls @ [a]" "rs @ [b]"] Cons.prems(2,3) by auto
    moreover have "cut_into (left - cursor) (x # todo) (a # ls') (b # rs')"
      using r(2) cut_none [of todo ls' rs'] mid ab unfolding cut_into_def by auto
    ultimately show ?thesis
      using x put mid ab(1) by (intro exI2 [where a = "a # ls'" and b = "b # rs'"]) (simp add: Let_def add.assoc usize_add_def)
  qed
qed (simp add: gapped_end cut_into_def)

end

section \<open>The contract of the quota\<close>

text \<open>
  \<open>room\<close> and \<open>used\<close>: the pages that may still be reserved and those committed. A reservation can be rolled back or committed, and
  dropping a committed credit gives the pages back; the parts of a credit together are the credit.
\<close>

definition drop_parts :: "('q, 'r, 'c, 'qe) quota_source \<Rightarrow> 'c \<Rightarrow> 'c \<Rightarrow> 'c \<Rightarrow> bool" where
  "drop_parts quota c a b \<longleftrightarrow> (\<forall>q q'. c_drop quota q c = Some q' \<longrightarrow>
     (\<exists>q1. c_drop quota q b = Some q1 \<and> c_drop quota q1 a = Some q') \<and>
     (\<exists>q1. c_drop quota q a = Some q1 \<and> c_drop quota q1 b = Some q'))"

locale quota_account =
  fixes quota :: "('q, 'r, 'c, 'qe) quota_source"
    and okq :: "'q \<Rightarrow> bool"
    and room :: "'q \<Rightarrow> nat"
    and used :: "'q \<Rightarrow> nat"
    and amount :: "'c \<Rightarrow> nat"
  assumes reserves: "okq q \<Longrightarrow> 0 < n \<Longrightarrow> n < usize_bound \<Longrightarrow>
      (\<exists>r q1 c q2. q_reserve quota q n = Some (Ok r, q1) \<and> q_rollback quota q1 r = Some q \<and> q_commit quota q1 r = Some (c, q2) \<and>
        okq q2 \<and> amount c = n \<and> room q2 + n = room q \<and> used q2 = used q + n \<and> c_drop quota q2 c = Some q) \<or>
      (\<exists>e. q_reserve quota q n = Some (Err e, q) \<and> room q < n)"
    and credits: "0 < k \<Longrightarrow> k < amount c \<Longrightarrow>
      \<exists>a b. c_split quota c k = Some (Ok a, b) \<and> amount a = k \<and> amount b = amount c - k \<and> c_merge quota b a = Some (Ok (), c) \<and>
        drop_parts quota c a b"

section \<open>Funding\<close>

locale funding = extent_source src ok free_of managed_of frames dirty whole + quota_account quota okq room used amount
  for src :: "('i, 'p, 'e) physical_source"
    and ok :: "'i \<Rightarrow> bool"
    and free_of :: "'i \<Rightarrow> nat set"
    and managed_of :: "'i \<Rightarrow> nat set"
    and frames :: "'p \<Rightarrow> nat list"
    and dirty :: "'p \<Rightarrow> bool"
    and whole :: "'p \<Rightarrow> bool"
    and quota :: "('q, 'r, 'c, 'qe) quota_source"
    and okq :: "'q \<Rightarrow> bool"
    and room :: "'q \<Rightarrow> nat"
    and used :: "'q \<Rightarrow> nat"
    and amount :: "'c \<Rightarrow> nat"
begin

text \<open>An owner over \<open>N\<close> slots with its claims and its credit.\<close>

definition owner_of :: "nat \<Rightarrow> ('c, 'p) funded \<Rightarrow> 'p list \<Rightarrow> 'c \<Rightarrow> bool" where
  "owner_of N f xs c \<longleftrightarrow> f = \<lparr>f_claims = slotted N xs, f_count = length xs, f_pages = length (frames_all xs), f_credit = Some c\<rparr> \<and>
     length xs \<le> N \<and> (\<forall>x \<in> set xs. whole x) \<and> amount c = length (frames_all xs) \<and> length (frames_all xs) < usize_bound"

text \<open>What a successful transaction did to the two accounts.\<close>

definition paid :: "'q \<Rightarrow> 'i \<Rightarrow> 'q \<Rightarrow> 'i \<Rightarrow> 'p list \<Rightarrow> 'c \<Rightarrow> bool" where
  "paid q i q' i' xs c \<longleftrightarrow> taken i xs i' \<and> (\<forall>x \<in> set xs. \<not> dirty x) \<and> okq q' \<and>
     room q' + length (frames_all xs) = room q \<and> used q' = used q + length (frames_all xs) \<and> c_drop quota q' c = Some q"

lemma frames_all_cong: "map frames xs = map frames ys \<Longrightarrow> frames_all xs = frames_all ys"
  by (simp add: frames_all_def)

lemma frames_all_length: "\<forall>y \<in> set ys. whole y \<Longrightarrow> length ys \<le> length (frames_all ys)"
proof (induction ys)
  case (Cons y ys)
  then show ?case
    using nonempty [of y] by (cases "frames y") auto
qed simp

text \<open>Why a request is refused.\<close>

definition reason :: "nat \<Rightarrow> limits \<Rightarrow> 'q \<Rightarrow> 'i \<Rightarrow> nat \<Rightarrow> ('qe, 'e) fund_error \<Rightarrow> bool" where
  "reason N lim q i n e \<longleftrightarrow>
     (case e of
        ZeroPages \<Rightarrow> n = 0
      | PageLimit \<Rightarrow> max_pages lim < n
      | ExtentLimit \<Rightarrow> max_extents lim = 0 \<or> N < max_extents lim \<or> max_extents lim < n
      | InvalidClaim \<Rightarrow> False
      | QuotaFailed _ \<Rightarrow> room q < n
      | PhysicalFailed _ \<Rightarrow> card (free_of i) < n)"

lemma validate_reason:
  assumes "validate_request N n lim = Err e"
  shows "reason N lim q i n e"
  using assms by (auto simp: validate_request_def reason_def split: if_splits)

lemma loop_reason:
  assumes "loop_end n (max_extents lim) ys j (Err e)" "taken i ys j"
  shows "reason N lim q i n e"
proof -
  have "length ys \<le> length (frames_all ys)" "length (frames_all ys) < n"
    using assms frames_all_length unfolding taken_def loop_end_def by auto
  moreover have "card (free_of i) < n" if "free_of j = {}"
    using assms(2) that calculation(2) distinct_card [of "frames_all ys"] unfolding taken_def by (metis Diff_eq_empty_iff subset_antisym)
  ultimately show ?thesis
    using assms(1) unfolding loop_end_def reason_def by auto
qed

lemma fund_exact:
  assumes "okq q" "ok i" "n < usize_bound"
  obtains (refused) e i' where "fund N quota src q i n lim = Some (Err e, q, i')" "ok i'" "free_of i' = free_of i"
      "managed_of i' = managed_of i" "reason N lim q i n e"
  | (funded) f xs c q' i' where "fund N quota src q i n lim = Some (Ok f, q', i')" "owner_of N f xs c" "paid q i q' i' xs c"
      "length (frames_all xs) = n" "length xs \<le> max_extents lim" "0 < n"
proof (cases "validate_request N n lim :: (unit, ('qe, 'e) fund_error) result")
  case (Err e)
  then show ?thesis
    using that(1) [of e i] assms(2) validate_reason [OF Err] by (simp add: fund_def)
next
  case v: (Ok u)
  then have n: "0 < n" "max_extents lim \<le> N"
    by (auto simp: validate_request_def split: if_splits)
  from reserves [OF assms(1) n(1) assms(3)] consider
    (got) r q1 c q2 where "q_reserve quota q n = Some (Ok r, q1)" "q_rollback quota q1 r = Some q" "q_commit quota q1 r = Some (c, q2)"
      "okq q2" "amount c = n" "room q2 + n = room q" "used q2 = used q + n" "c_drop quota q2 c = Some q"
  | (none) e where "q_reserve quota q n = Some (Err e, q)" "room q < n"
    by blast
  then show ?thesis
  proof cases
    case none
    then show ?thesis
      using that(1) [of "QuotaFailed e" i] v assms(2) by (simp add: fund_def reason_def)
  next
    case got
    obtain res ys j where l: "claim_loop src n (max_extents lim) i (slotted N []) 0 0 =
        Some (res :: (nat, ('qe, 'e) fund_error) result, slotted N ys, j)"
      "taken i ys j" "\<forall>y \<in> set ys. dirty y" "loop_end n (max_extents lim) ys j res"
      using claim_loop_exact [OF assms(2) _ n(2) _ assms(3), of "[]"] by auto
    obtain k where k: "drop_claims src j (slotted N ys) = Some k" "ok k" "free_of k = free_of i" "managed_of k = managed_of i"
      using drop_taken [OF assms(2) l(2)] by blast
    show ?thesis
    proof (cases res)
      case (Err e)
      have "fund N quota src q i n lim = Some (Err e, q, k)"
        using v got(1,2) l(1) k(1) unfolding fund_def slotted_nil Err by simp
      then show ?thesis
        using that(1) k(2-4) loop_reason [OF _ l(2)] l(4) Err by blast
    next
      case (Ok m)
      then have m: "m = length ys" "length (frames_all ys) = n" "length ys \<le> max_extents lim"
        using l(4) by (simp_all add: loop_end_def)
      have "\<forall>y \<in> set ys. whole y \<and> dirty y"
        using l(2,3) unfolding taken_def by blast
      then obtain zs where z: "clear_claims src (length ys) (slotted N ys) = Some (slotted N zs)" "length zs = length ys"
        "map frames zs = map frames ys" "\<forall>z \<in> set zs. whole z \<and> \<not> dirty z"
        using clear_claims_exact by metis
      let ?f = "\<lparr>f_claims = slotted N zs, f_count = length zs, f_pages = n, f_credit = Some c\<rparr>"
      note fz = frames_all_cong [OF z(3)]
      have "fund N quota src q i n lim = Some (Ok ?f, q2, j)"
        using v got(1,3) l(1) z(1,2) m(1) unfolding fund_def slotted_nil Ok by simp
      moreover have "owner_of N ?f zs c" "paid q i q2 j zs c"
        using m z(2,4) n(2) assms(3) got(4-8) l(2) unfolding owner_of_def paid_def taken_def fz by simp_all
      ultimately show ?thesis
        using that(2) m z(2) fz n(1) by metis
    qed
  qed
qed

text \<open>Enough quota, enough free frames and an extent limit no smaller than the request: it is granted.\<close>

lemma fund_succeeds:
  assumes "okq q" "ok i" "0 < n" "n < usize_bound" "n \<le> max_pages lim" "n \<le> max_extents lim" "max_extents lim \<le> N"
    "n \<le> room q" "n \<le> card (free_of i)"
  shows "\<exists>f q' i'. fund N quota src q i n lim = Some (Ok f, q', i')"
proof (rule fund_exact [OF assms(1,2,4), where N = N and lim = lim])
  fix e i'
  assume "reason N lim q i n e"
  then show ?thesis
    using assms(3-) unfolding reason_def by (cases e) auto
qed blast

lemma drop_funded_exact:
  assumes "ok i" "owner_of N f xs c" "paid q i q' i' xs c"
  shows "\<exists>k. drop_funded quota src q' i' f = Some (q, k) \<and> ok k \<and> free_of k = free_of i \<and> managed_of k = managed_of i"
proof -
  obtain k where "drop_claims src i' (slotted N xs) = Some k" "ok k" "free_of k = free_of i" "managed_of k = managed_of i"
    using drop_taken [OF assms(1)] assms(3) unfolding paid_def by blast
  then show ?thesis
    using assms(2,3) unfolding owner_of_def paid_def drop_funded_def by simp
qed

lemma split_off_exact:
  assumes "owner_of N f xs c" "0 < left" "left < f_pages f"
  shows "\<exists>g f' ls rs a b. split_off quota src f left = Some (Ok g, f') \<and> owner_of N f' ls b \<and> owner_of N g rs a \<and>
    cut_into left xs ls rs \<and> c_merge quota b a = Some (Ok (), c) \<and> drop_parts quota c a b"
proof -
  have f: "f = \<lparr>f_claims = slotted N xs, f_count = length xs, f_pages = length (frames_all xs), f_credit = Some c\<rparr>" "length xs \<le> N"
    "\<forall>x \<in> set xs. whole x" "amount c = length (frames_all xs)" "length (frames_all xs) < usize_bound"
    using assms(1) unfolding owner_of_def by blast+
  let ?n = "length (frames_all xs)"
  have "0 < ?n - left" "?n - left < amount c"
    using assms(2,3) f(1,4) by simp_all
  then obtain a b where ab: "c_split quota c (?n - left) = Some (Ok a, b)" "amount a = ?n - left" "amount b = amount c - (?n - left)"
    "c_merge quota b a = Some (Ok (), c)"
    "drop_parts quota c a b"
    using credits by blast
  obtain ls rs where l: "split_loop src left 0 (length xs) (slotted N xs) (slotted N []) 0 0 0 =
      Some (slotted N ls, slotted N rs, length ls, length rs, ?n)" "cut_into left xs ls rs"
    using split_loop_exact [OF f(3), of "[]" 0 "[]" N 0 left] f(2,5) by (auto simp: gapped_start)
  define g where "g = \<lparr>f_claims = slotted N rs, f_count = length rs, f_pages = ?n - left, f_credit = Some a\<rparr>"
  define f' where "f' = \<lparr>f_claims = slotted N ls, f_count = length ls, f_pages = left, f_credit = Some b\<rparr>"
  have "split_off quota src f left = Some (Ok g, f')"
    using assms(2,3) f(1,2) ab(1) l(1) unfolding split_off_def g_def f'_def by (simp add: slotted_nil)
  moreover have "owner_of N f' ls b" "owner_of N g rs a"
    using l(2) f ab(2,3) assms(2,3) unfolding owner_of_def cut_into_def f'_def g_def by auto
  ultimately show ?thesis
    using l(2) ab(4,5) by blast
qed

lemma merge_from_exact:
  assumes "owner_of N f xs b" "owner_of N d ys a" "length xs + length ys \<le> N" "length (frames_all (xs @ ys)) < usize_bound"
    "c_merge quota b a = Some (Ok (), c)" "amount c = length (frames_all (xs @ ys))"
  shows "\<exists>f' d'. merge_from quota f d = Some (Ok (), f', d') \<and> owner_of N f' (xs @ ys) c \<and> f_count d' = 0 \<and> f_credit d' = None"
proof -
  have "move_loop 0 (length ys) (slotted N ys) (slotted N xs) (length xs) = Some (slotted N [], slotted N (xs @ ys), length (xs @ ys))"
    using move_loop_exact [of xs ys N 0 N] assms(3) by (simp add: gapped_start)
  then show ?thesis
    using assms unfolding owner_of_def merge_from_def by (auto simp: usize_add_def)
qed

lemma split_first_exact:
  assumes "owner_of N f (x # xs) c"
  obtains (last) f' where "xs = []" "split_first quota src f = Some (Ok \<lparr>f_claims = [Some x], f_count = 1, f_pages = length (frames x), f_credit = Some c\<rparr>, f')"
      "f_count f' = 0" "owner_of 1 \<lparr>f_claims = [Some x], f_count = 1, f_pages = length (frames x), f_credit = Some c\<rparr> [x] c"
  | (more) f' a b where "xs \<noteq> []"
      "split_first quota src f = Some (Ok \<lparr>f_claims = [Some x], f_count = 1, f_pages = length (frames x), f_credit = Some a\<rparr>, f')"
      "owner_of N f' xs b" "owner_of 1 \<lparr>f_claims = [Some x], f_count = 1, f_pages = length (frames x), f_credit = Some a\<rparr> [x] a"
      "drop_parts quota c a b"
proof (cases "xs = []")
  case True
  then show ?thesis
    using that(1) assms pages [of x] unfolding owner_of_def split_first_def by (auto simp: slotted_def at_def)
next
  case False
  have f: "f = \<lparr>f_claims = slotted N (x # xs), f_count = length (x # xs), f_pages = length (frames_all (x # xs)), f_credit = Some c\<rparr>"
    "length (x # xs) \<le> N" "\<forall>y \<in> set (x # xs). whole y" "amount c = length (frames_all (x # xs))" "length (frames_all (x # xs)) < usize_bound"
    using assms unfolding owner_of_def by blast+
  have "length xs \<le> length (frames_all xs)"
    using frames_all_length f(3) by simp
  then have "0 < length (frames x)" "length (frames x) < amount c"
    using nonempty [of x] f(3,4) False by (auto simp: length_greater_0_conv [symmetric] simp del: length_greater_0_conv)
  then obtain a b where ab: "c_split quota c (length (frames x)) = Some (Ok a, b)" "amount a = length (frames x)"
    "amount b = amount c - length (frames x)"
    "drop_parts quota c a b"
    using credits by blast
  have g: "at (slotted N (x # xs)) 0 = Some (Some x)" "(slotted N (x # xs))[0 := None] = gapped N 1 [] xs"
    using gapped_next [of "[]" 0 x xs N] f(2) by (simp_all add: gapped_start)
  have s: "shift_loop 1 (length xs) (gapped N 1 [] xs) = Some (slotted N xs)"
    using shift_loop_exact [of "[]" 0 xs N] f(2) by simp
  define f' where "f' = \<lparr>f_claims = slotted N xs, f_count = length xs, f_pages = length (frames_all xs), f_credit = Some b\<rparr>"
  define e where "e = \<lparr>f_claims = [Some x], f_count = 1, f_pages = length (frames x), f_credit = Some a\<rparr>"
  have "split_first quota src f = Some (Ok e, f')"
    using f g s ab(1) False pages [of x] unfolding split_first_def f'_def e_def by (simp add: usize_sub_def)
  moreover have "owner_of N f' xs b" "owner_of 1 e [x] a"
    using f ab(2,3) unfolding owner_of_def f'_def e_def by (auto simp: slotted_def)
  ultimately show ?thesis
    using that(2) [OF False] ab(4) unfolding e_def by blast
qed

text \<open>Both parts of a split owner can be dropped, and together they give back what the whole took.\<close>

lemma split_drop:
  assumes "ok i" "owner_of N f xs c" "paid q i q' i' xs c" "0 < left" "left < f_pages f"
  shows "\<exists>g f' ls rs a b q1 i1 k. split_off quota src f left = Some (Ok g, f') \<and> owner_of N f' ls b \<and> owner_of N g rs a \<and> cut_into left xs ls rs \<and>
    drop_funded quota src q' i' f' = Some (q1, i1) \<and> drop_funded quota src q1 i1 g = Some (q, k) \<and>
    ok k \<and> free_of k = free_of i \<and> managed_of k = managed_of i"
proof -
  obtain g f' ls rs a b where s: "split_off quota src f left = Some (Ok g, f')" "owner_of N f' ls b" "owner_of N g rs a" "cut_into left xs ls rs"
    "drop_parts quota c a b"
    using split_off_exact [OF assms(2,4,5)] by blast
  obtain q1 where q1: "c_drop quota q' b = Some q1" "c_drop quota q1 a = Some q"
    using s(5) assms(3) unfolding paid_def drop_parts_def by blast
  have t: "ok i'" "distinct (frames_all xs)" "set (frames_all xs) \<subseteq> free_of i" "free_of i' = free_of i - set (frames_all xs)"
    "managed_of i' = managed_of i"
    using assms(3) unfolding paid_def taken_def by blast+
  have cut: "frames_all ls @ frames_all rs = frames_all xs" "\<forall>y \<in> set ls. whole y" "\<forall>y \<in> set rs. whole y"
    using s(4) unfolding cut_into_def by auto
  then have d: "distinct (frames_all ls)" "distinct (frames_all rs)" "set (frames_all ls) \<inter> set (frames_all rs) = {}"
      "set (frames_all xs) = set (frames_all ls) \<union> set (frames_all rs)"
    using t(2) distinct_append [of "frames_all ls" "frames_all rs"] set_append [of "frames_all ls" "frames_all rs"] by auto
  have "set (frames_all ls) \<subseteq> managed_of i' - free_of i'"
    using t(3-5) d(4) free_managed [OF assms(1)] by blast
  then obtain i1 where i1: "drop_claims src i' (slotted N ls) = Some i1" "ok i1" "free_of i1 = free_of i' \<union> set (frames_all ls)"
      "managed_of i1 = managed_of i'"
    using drop_claims_exact [OF t(1) cut(2) d(1)] by blast
  have "set (frames_all rs) \<subseteq> managed_of i1"
    using t(3) d(4) free_managed [OF assms(1)] unfolding i1(4) t(5) by blast
  moreover have "set (frames_all rs) \<inter> free_of i1 = {}"
    using d(3) unfolding i1(3) t(4) d(4) by blast
  ultimately have "set (frames_all rs) \<subseteq> managed_of i1 - free_of i1"
    by blast
  then obtain k where k: "drop_claims src i1 (slotted N rs) = Some k" "ok k" "free_of k = free_of i1 \<union> set (frames_all rs)"
      "managed_of k = managed_of i1"
    using drop_claims_exact [OF i1(2) cut(3) d(2)] by blast
  have "drop_funded quota src q' i' f' = Some (q1, i1)" "drop_funded quota src q1 i1 g = Some (q, k)"
    using s(2,3) q1 i1(1) k(1) unfolding owner_of_def drop_funded_def by simp_all
  moreover have "free_of k = free_of i"
    using t(3) unfolding k(3) i1(3) t(4) d(4) by blast
  moreover have "managed_of k = managed_of i"
    using t(5) i1(4) k(4) by simp
  ultimately show ?thesis
    using s(1-4) k(2) by blast
qed

end

end
