(* ===== verification/Kernel_Funding.thy ===== *)
theory Kernel_Funding
  imports Funded_Frame_Props Memory_Pool Kernel_Frames_Props
begin

text \<open>
  How the kernel funds memory: \<open>os/kernel/src/frame.rs\<close> gives \<open>funded_frame\<close> the frame pool as its inventory and a memory pool of
  \<open>task/memory_pool.rs\<close> as its quota. The memory pool is an active one, so \<open>active_state_mut\<close> is its state; a lock is held for one
  operation, so each operation maps the state it finds to the state it leaves. The clearing of the frames is the flag that
  records it.
\<close>

section \<open>Extents of the user inventory\<close>

datatype user_claim_error = OutOfMemory

record claimed_user_extent =
  cu_geometry :: "extent_geometry option"
  cu_cleared :: bool

definition ClaimedUserExtent_new :: "extent_geometry \<Rightarrow> claimed_user_extent" where
  "ClaimedUserExtent_new g = \<lparr>cu_geometry = Some g, cu_cleared = False\<rparr>"

definition claim_pages :: "claimed_user_extent \<Rightarrow> nat option" where
  "claim_pages c = map_option ext_count (cu_geometry c)"

definition claim_split_at :: "claimed_user_extent \<Rightarrow> nat \<Rightarrow> (claimed_user_extent \<times> claimed_user_extent) option" where
  "claim_split_at c left =
     do {
       g \<leftarrow> cu_geometry c;
       parts \<leftarrow> ext_split_at g left;
       (l, r) \<leftarrow> parts;
       Some (\<lparr>cu_geometry = Some l, cu_cleared = cu_cleared c\<rparr>, \<lparr>cu_geometry = Some r, cu_cleared = cu_cleared c\<rparr>)
     }"

text \<open>\<open>clear\<close>, with the byte length of \<open>clear_claimed\<close>.\<close>

definition claim_clear :: "claimed_user_extent \<Rightarrow> claimed_user_extent option" where
  "claim_clear c =
     (if cu_cleared c then None
      else do {
        g \<leftarrow> cu_geometry c;
        usize_mul (ext_count g) PAGE_SIZE;
        Some (c\<lparr>cu_cleared := True\<rparr>)
      })"

definition claim_drop :: "frame_pool \<Rightarrow> claimed_user_extent \<Rightarrow> frame_pool option" where
  "claim_drop p c =
     (case cu_geometry c of None \<Rightarrow> Some p | Some g \<Rightarrow> dealloc p (ext_base g) (ext_count g))"

definition claim_largest :: "frame_pool \<Rightarrow> nat \<Rightarrow> ((claimed_user_extent, user_claim_error) result \<times> frame_pool) option" where
  "claim_largest p m =
     do {
       (found, p') \<leftarrow> alloc_largest p m;
       (case found of
          None \<Rightarrow> Some (Err OutOfMemory, p')
        | Some (b, n) \<Rightarrow> do { g \<leftarrow> ExtentGeometry_new b n; Some (Ok (ClaimedUserExtent_new g), p') })
     }"

definition UserInventory :: "(frame_pool, claimed_user_extent, user_claim_error) physical_source" where
  "UserInventory = \<lparr>p_claim = claim_largest, p_pages = claim_pages, p_split = claim_split_at, p_clear = claim_clear, p_drop = claim_drop\<rparr>"

section \<open>Charges of a memory pool\<close>

text \<open>
  A \<open>PreparedMemoryCharge\<close> and a \<open>MemoryCharge\<close> hold their token in an option that is emptied when they are consumed. A \<open>usize\<close> is
  64 bits wide, so \<open>u64::try_from\<close> does not fail.
\<close>

type_synonym prepared_memory_charge = "charge_reservation option"

type_synonym memory_charge = "allocated_credit option"

definition MemoryPool_reserve_charge ::
  "pool_state \<Rightarrow> nat \<Rightarrow> ((prepared_memory_charge, pool_error) result \<times> pool_state) option" where
  "MemoryPool_reserve_charge p n =
     (case reserve_charge p (word_of_nat n) of
        (Ok r, p') \<Rightarrow> Some (Ok (Some r), p')
      | (Err e, p') \<Rightarrow> Some (Err e, p'))"

definition prepared_commit :: "pool_state \<Rightarrow> prepared_memory_charge \<Rightarrow> (memory_charge \<times> pool_state) option" where
  "prepared_commit p r =
     do {
       t \<leftarrow> r;
       (case commit_charge p t of (Ok c, p') \<Rightarrow> Some (Some c, p') | (Err _, _) \<Rightarrow> None)
     }"

definition prepared_drop :: "pool_state \<Rightarrow> prepared_memory_charge \<Rightarrow> pool_state option" where
  "prepared_drop p r =
     (case r of
        None \<Rightarrow> Some p
      | Some t \<Rightarrow> (case rollback_charge p t of (Ok _, p') \<Rightarrow> Some p' | (Err _, _) \<Rightarrow> None))"

definition charge_pages :: "memory_charge \<Rightarrow> nat option" where
  "charge_pages c = map_option (\<lambda>a. unat (ac_pages a)) c"

definition charge_split :: "memory_charge \<Rightarrow> nat \<Rightarrow> ((memory_charge, pool_error) result \<times> memory_charge) option" where
  "charge_split c n =
     do {
       a \<leftarrow> c;
       (case split_credit a (word_of_nat n) of
          (Ok b, a') \<Rightarrow> Some (Ok (Some b), Some a')
        | (Err e, a') \<Rightarrow> Some (Err e, Some a'))
     }"

definition charge_merge ::
  "memory_charge \<Rightarrow> memory_charge \<Rightarrow> ((unit, pool_error \<times> memory_charge) result \<times> memory_charge) option" where
  "charge_merge c d =
     do {
       b \<leftarrow> d;
       a \<leftarrow> c;
       (case merge_credit a b of
          (Ok _, a') \<Rightarrow> Some (Ok (), Some a')
        | (Err te, a') \<Rightarrow> Some (Err (te_error te, Some (te_token te)), Some a'))
     }"

definition charge_drop :: "pool_state \<Rightarrow> memory_charge \<Rightarrow> pool_state option" where
  "charge_drop p c =
     (case c of
        None \<Rightarrow> Some p
      | Some a \<Rightarrow> (case return_charge p a of (Ok _, p') \<Rightarrow> Some p' | (Err _, _) \<Rightarrow> None))"

definition PoolQuota :: "(pool_state, prepared_memory_charge, memory_charge, pool_error) quota_source" where
  "PoolQuota = \<lparr>q_reserve = MemoryPool_reserve_charge, q_rollback = prepared_drop, q_commit = prepared_commit,
     c_split = charge_split, c_merge = charge_merge, c_drop = charge_drop\<rparr>"

section \<open>Funded memory\<close>

definition MAX_FUNDED_EXTENTS :: nat where "MAX_FUNDED_EXTENTS = 64"

type_synonym user_funded = "(memory_charge, claimed_user_extent) funded"

type_synonym user_fund_error = "(pool_error, user_claim_error) fund_error"

definition fund_user_frames ::
  "pool_state \<Rightarrow> frame_pool \<Rightarrow> nat \<Rightarrow> limits \<Rightarrow> ((user_funded, user_fund_error) result \<times> pool_state \<times> frame_pool) option" where
  "fund_user_frames q i pages lim =
     do {
       (res, q', i') \<leftarrow> fund MAX_FUNDED_EXTENTS PoolQuota UserInventory q i pages lim;
       (case res of
          Err e \<Rightarrow> Some (Err e, q', i')
        | Ok f \<Rightarrow>
            do {
              c \<leftarrow> f_credit f;
              n \<leftarrow> charge_pages c;
              if n = f_pages f then Some (Ok f, q', i') else None
            })
     }"

definition fund_user_table_frame ::
  "pool_state \<Rightarrow> frame_pool \<Rightarrow> ((user_funded, user_fund_error) result \<times> pool_state \<times> frame_pool) option" where
  "fund_user_table_frame q i = fund 1 PoolQuota UserInventory q i 1 \<lparr>max_pages = 1, max_extents = 1\<rparr>"

text \<open>\<open>FundedTableFrame::frame\<close>: the one page of the one claim.\<close>

definition table_frame :: "user_funded \<Rightarrow> nat option" where
  "table_frame f =
     do {
       claims \<leftarrow> those (take (f_count f) (f_claims f));
       claim \<leftarrow> at claims 0;
       if at claims 1 \<noteq> None then None
       else do {
         g \<leftarrow> cu_geometry claim;
         if ext_count g = 1 then Some (ext_base g) else None
       }
     }"

text \<open>\<open>FundedFrames::extents\<close>.\<close>

definition funded_extents :: "user_funded \<Rightarrow> (nat \<times> nat) list option" where
  "funded_extents f =
     do {
       claims \<leftarrow> those (take (f_count f) (f_claims f));
       geometries \<leftarrow> those (map cu_geometry claims);
       Some (map (\<lambda>g. (ext_base g, ext_count g)) geometries)
     }"

text \<open>\<open>FundedExtent::base\<close>, the base of the first claim.\<close>

definition extent_base :: "user_funded \<Rightarrow> nat option" where
  "extent_base f =
     do {
       slot \<leftarrow> at (take (f_count f) (f_claims f)) 0;
       claim \<leftarrow> slot;
       g \<leftarrow> cu_geometry claim;
       Some (ext_base g)
     }"

text \<open>\<open>FundedExtent::split_at\<close>.\<close>

definition extent_split_at :: "user_funded \<Rightarrow> nat \<Rightarrow> (user_funded \<times> user_funded) option" where
  "extent_split_at f left =
     do {
       res \<leftarrow> split_single PoolQuota UserInventory f left;
       (case res of Ok parts \<Rightarrow> Some parts | Err _ \<Rightarrow> None)
     }"

text \<open>The loop of \<open>into_extents\<close>.\<close>

lemma split_first_counts:
  "split_first quota src f = Some (Ok g, f') \<Longrightarrow> f_count f' < f_count f"
  apply (auto simp: split_first_def bind_eq_Some_conv split: if_split_asm)
  subgoal for x k c a b
    by (cases a) (auto simp: bind_eq_Some_conv)
  done

function extract_loop :: "user_funded \<Rightarrow> user_funded list \<Rightarrow> user_funded list option" where
  "extract_loop f out =
     (if f_count f \<noteq> 0
      then (case split_first PoolQuota UserInventory f of
              Some (Ok g, f') \<Rightarrow> extract_loop f' (out @ [g])
            | _ \<Rightarrow> None)
      else Some out)"
  by pat_completeness auto
termination
  by (relation "measure (\<lambda>(f, out). f_count f)") (auto dest: split_first_counts)

declare extract_loop.simps [simp del]

text \<open>\<open>into_extents\<close>; \<open>mem\<close> says whether the vector could be reserved. On failure the frames are dropped.\<close>

definition into_extents ::
  "bool \<Rightarrow> pool_state \<Rightarrow> frame_pool \<Rightarrow> user_funded \<Rightarrow> ((user_funded list, unit) result \<times> pool_state \<times> frame_pool) option" where
  "into_extents mem q i f =
     (if \<not> mem then map_option (\<lambda>(q', i'). (Err (), q', i')) (drop_funded PoolQuota UserInventory q i f)
      else map_option (\<lambda>es. (Ok es, q, i)) (extract_loop f []))"

record object_backing =
  ob_extents :: "user_funded list"
  ob_pages :: nat

definition fund_object_backing ::
  "bool \<Rightarrow> pool_state \<Rightarrow> frame_pool \<Rightarrow> nat \<Rightarrow> limits \<Rightarrow>
     ((object_backing, user_fund_error) result \<times> pool_state \<times> frame_pool) option" where
  "fund_object_backing mem q i pages lim =
     do {
       (res, q1, i1) \<leftarrow> fund_user_frames q i pages lim;
       (case res of
          Err e \<Rightarrow> Some (Err e, q1, i1)
        | Ok f \<Rightarrow>
            do {
              (out, q2, i2) \<leftarrow> into_extents mem q1 i1 f;
              (case out of
                 Err _ \<Rightarrow> Some (Err (PhysicalFailed OutOfMemory), q2, i2)
               | Ok es \<Rightarrow> Some (Ok \<lparr>ob_extents = es, ob_pages = f_pages f\<rparr>, q2, i2))
            })
     }"

text \<open>The loop of \<open>ObjectBacking::project\<close>.\<close>

fun project_loop :: "nat \<Rightarrow> nat \<Rightarrow> nat \<Rightarrow> user_funded list \<Rightarrow> (nat \<times> nat) list \<Rightarrow> (nat \<times> nat) list option" where
  "project_loop offset stop cursor [] spans = Some spans"
| "project_loop offset stop cursor (e # es) spans =
     do {
       after \<leftarrow> usize_add cursor (f_pages e);
       if cursor \<ge> stop \<or> after \<le> offset then project_loop offset stop after es spans
       else do {
         let skip = offset - cursor;
         let amount = min after stop - (cursor + skip);
         b \<leftarrow> extent_base e;
         s \<leftarrow> usize_add b skip;
         project_loop offset stop after es (spans @ [(s, amount)])
       }
     }"

definition project :: "object_backing \<Rightarrow> nat \<Rightarrow> nat \<Rightarrow> (nat \<times> nat) list \<Rightarrow> (nat \<times> nat) list option" where
  "project ob offset len spans =
     do {
       stop \<leftarrow> usize_add offset len;
       if stop > ob_pages ob then None
       else if len = 0 then Some spans
       else project_loop offset stop 0 (ob_extents ob) spans
     }"

definition projection_capacity :: "object_backing \<Rightarrow> nat" where
  "projection_capacity ob = length (ob_extents ob)"

text \<open>An object backing goes with its vector: its extents are dropped in order.\<close>

fun drop_extents :: "pool_state \<Rightarrow> frame_pool \<Rightarrow> user_funded list \<Rightarrow> (pool_state \<times> frame_pool) option" where
  "drop_extents q i [] = Some (q, i)"
| "drop_extents q i (e # es) =
     do {
       (q', i') \<leftarrow> drop_funded PoolQuota UserInventory q i e;
       drop_extents q' i' es
     }"

section \<open>Boot-held extents\<close>

text \<open>\<open>BootHeldExtent\<close>: extents adopted from the boot-held ranges, whose contents stay.\<close>

type_synonym boot_held_extent = "extent_geometry option"

definition boot_adopt :: "nat \<Rightarrow> nat \<Rightarrow> boot_held_extent option" where
  "boot_adopt b n = map_option Some (ExtentGeometry_new b n)"

definition boot_split_at :: "boot_held_extent \<Rightarrow> nat \<Rightarrow> (boot_held_extent \<times> boot_held_extent) option" where
  "boot_split_at x n =
     do { g \<leftarrow> x; parts \<leftarrow> ext_split_at g n; (l, r) \<leftarrow> parts; Some (Some l, Some r) }"

definition boot_drop :: "frame_pool \<Rightarrow> boot_held_extent \<Rightarrow> frame_pool option" where
  "boot_drop p x = (case x of None \<Rightarrow> Some p | Some g \<Rightarrow> dealloc p (ext_base g) (ext_count g))"

record boot_funded_extent =
  bf_physical :: boot_held_extent
  bf_charge :: memory_charge

text \<open>\<open>fund_boot_held\<close>. On a refused reservation the extent is dropped, so its frames become free.\<close>

definition fund_boot_held ::
  "pool_state \<Rightarrow> frame_pool \<Rightarrow> boot_held_extent \<Rightarrow> ((boot_funded_extent, pool_error) result \<times> pool_state \<times> frame_pool) option" where
  "fund_boot_held q i x =
     do {
       g \<leftarrow> x;
       (res, q1) \<leftarrow> MemoryPool_reserve_charge q (ext_count g);
       (case res of
          Err e \<Rightarrow> map_option (\<lambda>i'. (Err e, q1, i')) (boot_drop i x)
        | Ok r \<Rightarrow>
            do {
              (c, q2) \<leftarrow> prepared_commit q1 r;
              Some (Ok \<lparr>bf_physical = x, bf_charge = c\<rparr>, q2, i)
            })
     }"

definition boot_funded_split_at ::
  "boot_funded_extent \<Rightarrow> nat \<Rightarrow> (boot_funded_extent \<times> boot_funded_extent) option" where
  "boot_funded_split_at b n =
     do {
       g \<leftarrow> bf_physical b;
       if n > 0 \<and> n < ext_count g
       then do {
         (res, left_charge) \<leftarrow> charge_split (bf_charge b) (ext_count g - n);
         (case res of
            Err _ \<Rightarrow> None
          | Ok right_charge \<Rightarrow>
              do {
                (l, r) \<leftarrow> boot_split_at (bf_physical b) n;
                Some (\<lparr>bf_physical = l, bf_charge = left_charge\<rparr>, \<lparr>bf_physical = r, bf_charge = right_charge\<rparr>)
              })
       }
       else None
     }"

definition boot_funded_drop :: "pool_state \<Rightarrow> frame_pool \<Rightarrow> boot_funded_extent \<Rightarrow> (pool_state \<times> frame_pool) option" where
  "boot_funded_drop q i b =
     do {
       i' \<leftarrow> boot_drop i (bf_physical b);
       q' \<leftarrow> charge_drop q (bf_charge b);
       Some (q', i')
     }"

end
