(* ===== verification/Kernel_Funding_Props.thy ===== *)
theory Kernel_Funding_Props
  imports Kernel_Funding
begin

text \<open>
  The frame pool keeps the contract of an inventory and a memory pool that of a quota, so that what holds of funding in general
  holds of the kernel's.
\<close>

section \<open>The frame pool as the inventory\<close>

text \<open>Frames whose addresses fit: a range of them has fewer than \<open>2 ^ 64\<close> bytes.\<close>

definition frame_limit :: nat where
  "frame_limit = 2 ^ 52 - 1"

definition addressed :: "frame_pool \<Rightarrow> bool" where
  "addressed p \<longleftrightarrow> pool_inv p \<and> pool_managed p \<subseteq> {..<frame_limit}"

definition claim_frames :: "claimed_user_extent \<Rightarrow> nat list" where
  "claim_frames c = (case cu_geometry c of None \<Rightarrow> [] | Some g \<Rightarrow> [ext_base g..<ext_base g + ext_count g])"

definition claim_whole :: "claimed_user_extent \<Rightarrow> bool" where
  "claim_whole c \<longleftrightarrow> (\<exists>g. cu_geometry c = Some g \<and> 0 < ext_count g \<and> ext_base g + ext_count g \<le> frame_limit)"

lemma range_limit:
  assumes "addressed p" "0 < n" "{b..<b + n} \<subseteq> pool_managed p"
  shows "b + n \<le> frame_limit"
proof -
  have "b + n - 1 \<in> pool_managed p"
    using assms(2,3) by force
  then show ?thesis
    using assms(1,2) unfolding addressed_def by force
qed

lemma claim_largest_cases:
  assumes "addressed p" "0 < m"
  shows "(\<exists>c q. claim_largest p m = Some (Ok c, q) \<and> claim_whole c \<and> \<not> cu_cleared c \<and> length (claim_frames c) \<le> m \<and>
      set (claim_frames c) \<subseteq> free_set p \<and> addressed q \<and> free_set q = free_set p - set (claim_frames c) \<and> pool_managed q = pool_managed p) \<or>
    (\<exists>e. claim_largest p m = Some (Err e, p) \<and> free_set p = {})"
proof (cases "free_set p = {}")
  case True
  then show ?thesis
    using alloc_largest_none [of p m] assms(1) unfolding addressed_def claim_largest_def by simp
next
  case False
  then obtain b n q where a: "alloc_largest p m = Some (Some (b, 2 ^ n), q)" "2 ^ n \<le> m" "block b n \<subseteq> free_set p" "pool_inv q"
    "admitted q = admitted p" "free_set q = free_set p - block b n"
    using alloc_largest_found [of p m] assms unfolding addressed_def by metis
  have "{b..<b + 2 ^ n} \<subseteq> pool_managed p"
    using a(3) free_set_managed [of p] by auto
  then have lim: "b + 2 ^ n \<le> frame_limit"
    by (intro range_limit [OF assms(1)]) simp_all
  then have "usize_add b (2 ^ n) \<noteq> None"
    by (simp add: usize_add_def frame_limit_def)
  then have c: "claim_largest p m = Some (Ok (ClaimedUserExtent_new \<lparr>ext_base = b, ext_count = 2 ^ n\<rparr>), q)"
    using a(1) by (simp add: claim_largest_def ExtentGeometry_new_def)
  define c where "c = ClaimedUserExtent_new \<lparr>ext_base = b, ext_count = 2 ^ n\<rparr>"
  have "claim_whole c" "\<not> cu_cleared c" "length (claim_frames c) \<le> m" "set (claim_frames c) = block b n"
    using a(2) lim by (auto simp: c_def ClaimedUserExtent_new_def claim_whole_def claim_frames_def)
  then show ?thesis
    using a(3-) assms(1) c unfolding addressed_def c_def by metis
qed

interpretation user: extent_source UserInventory addressed free_set pool_managed claim_frames "\<lambda>c. \<not> cu_cleared c" claim_whole
proof
  show "(\<exists>c q. p_claim UserInventory p m = Some (Ok c, q) \<and> claim_whole c \<and> \<not> cu_cleared c \<and> length (claim_frames c) \<le> m \<and>
      set (claim_frames c) \<subseteq> free_set p \<and> addressed q \<and> free_set q = free_set p - set (claim_frames c) \<and> pool_managed q = pool_managed p) \<or>
    (\<exists>e. p_claim UserInventory p m = Some (Err e, p) \<and> free_set p = {})" if "addressed p" "0 < m" for p m
    using claim_largest_cases [OF that] by (simp add: UserInventory_def)
  show "\<exists>q. p_drop UserInventory p c = Some q \<and> addressed q \<and> free_set q = free_set p \<union> set (claim_frames c) \<and> pool_managed q = pool_managed p"
    if a: "addressed p" "claim_whole c" "set (claim_frames c) \<subseteq> pool_managed p - free_set p" for p c
  proof -
    obtain g where g: "cu_geometry c = Some g" "0 < ext_count g"
      using a(2) unfolding claim_whole_def by blast
    then have f: "set (claim_frames c) = {ext_base g..<ext_base g + ext_count g}"
      by (simp add: claim_frames_def)
    obtain q where "dealloc p (ext_base g) (ext_count g) = Some q" "pool_inv q"
      "free_set q = free_set p \<union> {ext_base g..<ext_base g + ext_count g}" "admitted q = admitted p"
      using dealloc_taken [of p "ext_count g" "ext_base g"] a(1,3) g(2) unfolding addressed_def f by metis
    then show ?thesis
      using a(1) g(1) unfolding f by (simp add: UserInventory_def claim_drop_def addressed_def)
  qed
  show "p_pages UserInventory c = Some (length (claim_frames c))" if "claim_whole c" for c
    using that by (auto simp: UserInventory_def claim_pages_def claim_whole_def claim_frames_def)
  show "\<exists>a b. p_split UserInventory c k = Some (a, b) \<and> claim_whole a \<and> claim_whole b \<and> (\<not> cu_cleared a) = (\<not> cu_cleared c) \<and>
      (\<not> cu_cleared b) = (\<not> cu_cleared c) \<and> claim_frames a = take k (claim_frames c) \<and> claim_frames b = drop k (claim_frames c)"
    if "claim_whole c" "0 < k" "k < length (claim_frames c)" for c k
    using that
    by (auto simp: UserInventory_def claim_split_at_def ext_split_at_def claim_whole_def claim_frames_def usize_add_def frame_limit_def)
  show "\<exists>d. p_clear UserInventory c = Some d \<and> claim_whole d \<and> \<not> \<not> cu_cleared d \<and> claim_frames d = claim_frames c"
    if "claim_whole c" "\<not> cu_cleared c" for c
    using that
    by (auto simp: UserInventory_def claim_clear_def claim_whole_def claim_frames_def usize_mul_def PAGE_SIZE_def frame_limit_def)
  show "claim_frames c \<noteq> [] \<and> distinct (claim_frames c)" if "claim_whole c" for c
    using that by (auto simp: claim_whole_def claim_frames_def)
  show "free_set p \<subseteq> pool_managed p" for p
    by (rule free_set_managed)
qed

section \<open>A memory pool as the quota\<close>

definition charge_amount :: "memory_charge \<Rightarrow> nat" where
  "charge_amount c = (case c of None \<Rightarrow> 0 | Some a \<Rightarrow> unat (ac_pages a))"

lemma usize_word: "n < usize_bound \<Longrightarrow> unat (word_of_nat n :: u64) = n"
  by (simp add: unsigned_of_nat take_bit_nat_eq_self)

lemma unat_fits: "unat (w :: u64) < 2 ^ 64"
  using unsigned_less [of w] by simp

lemma reserve_cases:
  assumes "closed p" "0 < n" "n < usize_bound"
  shows "(n \<le> unat (available p) \<and> reserve p (word_of_nat n) =
        (Ok (), p\<lparr>available := available p - word_of_nat n, reserved := reserved p + word_of_nat n\<rparr>) \<and>
        unat (reserved p) + n < 2 ^ 64) \<or>
    (\<exists>e. reserve p (word_of_nat n) = (Err e, p)) \<and> unat (available p) < n"
proof -
  have u: "unat (word_of_nat n :: u64) = n" "(word_of_nat n :: u64) \<noteq> 0"
    using assms(2,3) usize_word by (simp_all add: word_unat_eq_iff)
  have "unat (reserved p) + n < 2 ^ 64" if "n \<le> unat (available p)"
    using that assms(1) unat_fits [of "total p"] unfolding closed_def columns_def by simp
  then show ?thesis
    using u by (auto simp: reserve_def checked_add_def word_less_nat_alt)
qed

lemma pool_quota_reserves:
  assumes "closed p" "0 < n" "n < usize_bound"
  shows "(\<exists>r p1 c p2. MemoryPool_reserve_charge p n = Some (Ok r, p1) \<and> prepared_drop p1 r = Some p \<and> prepared_commit p1 r = Some (c, p2) \<and>
      closed p2 \<and> charge_amount c = n \<and> unat (available p2) + n = unat (available p) \<and> unat (allocated p2) = unat (allocated p) + n \<and>
      charge_drop p2 c = Some p) \<or>
    (\<exists>e. MemoryPool_reserve_charge p n = Some (Err e, p) \<and> unat (available p) < n)"
proof (cases "unat (available p) < n")
  case True
  then show ?thesis
    using reserve_cases [OF assms] by (auto simp: MemoryPool_reserve_charge_def reserve_charge_def)
next
  case False
  let ?w = "word_of_nat n :: u64"
  have w: "unat ?w = n" "?w \<noteq> 0"
    using assms(2,3) usize_word by (simp_all add: word_unat_eq_iff)
  let ?p1 = "p\<lparr>available := available p - ?w, reserved := reserved p + ?w\<rparr>"
  let ?r = "\<lparr>cr_owner_key = owner_key p, cr_owner = identity p, cr_pages = ?w\<rparr>"
  let ?c = "\<lparr>ac_owner_key = owner_key p, ac_owner = identity p, ac_pages = ?w\<rparr>"
  let ?p2 = "p\<lparr>available := available p - ?w, allocated := allocated p + ?w\<rparr>"
  have res: "reserve p ?w = (Ok (), ?p1)" "unat (reserved p) + n < 2 ^ 64"
    using reserve_cases [OF assms] False by auto
  have fits: "unat (available p) + unat (reserved p) + unat (allocated p) \<le> unat (total p)" "unat (total p) < 2 ^ 64"
    using assms(1) unat_fits [of "total p"] unfolding closed_def columns_def by simp_all
  have sub: "unat (available p - ?w) = unat (available p) - n" "unat (reserved p + ?w) = unat (reserved p) + n"
      "unat (allocated p + ?w) = unat (allocated p) + n"
    using False w res(2) fits by (simp_all add: unat_minus_le word_le_nat_alt unat_word_ariths)
  have a: "MemoryPool_reserve_charge p n = Some (Ok (Some ?r), ?p1)"
    using res(1) by (simp add: MemoryPool_reserve_charge_def reserve_charge_def)
  have b: "prepared_drop ?p1 (Some ?r) = Some p"
    using w sub False fits
    by (simp add: prepared_drop_def rollback_charge_def rollback_def validate_credit_def checked_add_def word_less_nat_alt unat_word_ariths)
  have c: "prepared_commit ?p1 (Some ?r) = Some (Some ?c, ?p2)"
    using w sub False fits
    by (simp add: prepared_commit_def commit_charge_def commit_reserved_def validate_credit_def checked_add_def word_less_nat_alt)
  have d: "charge_drop ?p2 (Some ?c) = Some p"
    using w sub False fits
    by (simp add: charge_drop_def return_charge_def return_credit_def validate_credit_def checked_add_def word_less_nat_alt unat_word_ariths)
  have "closed ?p2"
    using assms(1) sub False unfolding closed_def columns_def by simp
  then show ?thesis
    using a b c d w sub False by (intro disjI1 exI [of _ "Some ?r"] exI [of _ ?p1] exI [of _ "Some ?c"] exI [of _ ?p2]) (simp add: charge_amount_def)
qed

lemma charge_drop_iff:
  "charge_drop p (Some a) = Some p' \<longleftrightarrow>
     ac_owner_key a = owner_key p \<and> ac_owner a = identity p \<and> ac_pages a \<noteq> 0 \<and> ac_pages a \<le> allocated p \<and>
     unat (available p) + unat (ac_pages a) \<le> unat (total p) \<and>
     p' = p\<lparr>allocated := allocated p - ac_pages a, available := available p + ac_pages a\<rparr>"
proof -
  have "unat (available p + ac_pages a) = unat (available p) + unat (ac_pages a)" if "unat (available p) + unat (ac_pages a) < 2 ^ 64"
    using that by (simp add: unat_word_ariths)
  moreover have "unat (available p) + unat (ac_pages a) < 2 ^ 64" if "unat (available p) + unat (ac_pages a) \<le> unat (total p)"
    using that unat_fits [of "total p"] by linarith
  ultimately show ?thesis
    by (auto simp: charge_drop_def return_charge_def return_credit_def validate_credit_def checked_add_def not_less word_less_nat_alt
        word_le_nat_alt split: if_splits)
qed

text \<open>A credit dropped in two parts, in either order.\<close>

lemma charge_drop_two:
  assumes "charge_drop p (Some \<lparr>ac_owner_key = k, ac_owner = w, ac_pages = u\<rparr>) = Some p'" "unat u = unat v + unat v'" "v \<noteq> 0" "v' \<noteq> 0"
  shows "\<exists>p1. charge_drop p (Some \<lparr>ac_owner_key = k, ac_owner = w, ac_pages = v\<rparr>) = Some p1 \<and>
    charge_drop p1 (Some \<lparr>ac_owner_key = k, ac_owner = w, ac_pages = v'\<rparr>) = Some p'"
proof -
  let ?p1 = "p\<lparr>allocated := allocated p - v, available := available p + v\<rparr>"
  note ok = assms(1) [unfolded charge_drop_iff]
  have u: "u = v + v'"
    using assms(2) unat_fits [of u] by (simp add: word_unat_eq_iff unat_word_ariths)
  have le: "v \<le> allocated p"
    using ok assms(2) unfolding word_le_nat_alt by simp
  have "unat (available p) + unat v < 2 ^ 64"
    using ok assms(2) unat_fits [of "total p"] by simp
  then have "unat (available p + v) = unat (available p) + unat v" "unat (allocated p - v) = unat (allocated p) - unat v"
    using unat_minus_le [OF le] by (simp_all add: unat_word_ariths)
  then have "charge_drop p (Some \<lparr>ac_owner_key = k, ac_owner = w, ac_pages = v\<rparr>) = Some ?p1"
      "charge_drop ?p1 (Some \<lparr>ac_owner_key = k, ac_owner = w, ac_pages = v'\<rparr>) = Some p'"
    using ok le assms(2-4) unfolding charge_drop_iff u by (auto simp: word_le_nat_alt algebra_simps)
  then show ?thesis
    by blast
qed

lemma pool_quota_credits:
  assumes "0 < n" "n < charge_amount c"
  shows "\<exists>a b. charge_split c n = Some (Ok a, b) \<and> charge_amount a = n \<and> charge_amount b = charge_amount c - n \<and>
    charge_merge b a = Some (Ok (), c) \<and> drop_parts PoolQuota c a b"
proof -
  obtain a where a: "c = Some a" "n < unat (ac_pages a)"
    using assms(2) by (auto simp: charge_amount_def split: option.splits)
  let ?w = "word_of_nat n :: u64"
  have w: "unat ?w = n" "?w \<noteq> 0" "unat (ac_pages a - ?w) = unat (ac_pages a) - n"
    using a(2) assms(1) unat_fits [of "ac_pages a"] usize_word [of n] by (auto simp: word_unat_eq_iff unat_minus_le word_le_nat_alt)
  have "charge_split c n = Some (Ok (Some \<lparr>ac_owner_key = ac_owner_key a, ac_owner = ac_owner a, ac_pages = ?w\<rparr>),
      Some (a\<lparr>ac_pages := ac_pages a - ?w\<rparr>))"
    using a w by (simp add: charge_split_def split_credit_def word_le_nat_alt)
  moreover have "charge_merge (Some (a\<lparr>ac_pages := ac_pages a - ?w\<rparr>))
      (Some \<lparr>ac_owner_key = ac_owner_key a, ac_owner = ac_owner a, ac_pages = ?w\<rparr>) = Some (Ok (), c)"
    using a w unat_fits [of "ac_pages a"] by (simp add: charge_merge_def merge_credit_def checked_add_def)
  moreover have "drop_parts PoolQuota c (Some \<lparr>ac_owner_key = ac_owner_key a, ac_owner = ac_owner a, ac_pages = ?w\<rparr>)
      (Some (a\<lparr>ac_pages := ac_pages a - ?w\<rparr>))"
    using a charge_drop_two w unfolding drop_parts_def by (cases a) (auto simp: PoolQuota_def word_unat_eq_iff)
  ultimately show ?thesis
    using a w by (simp add: charge_amount_def)
qed

interpretation pool_quota: quota_account PoolQuota closed "\<lambda>p. unat (available p)" "\<lambda>p. unat (allocated p)" charge_amount
  by unfold_locales (use pool_quota_reserves pool_quota_credits in \<open>simp_all add: PoolQuota_def\<close>)

interpretation kf: funding UserInventory addressed free_set pool_managed claim_frames "\<lambda>c. \<not> cu_cleared c" claim_whole
  PoolQuota closed "\<lambda>p. unat (available p)" "\<lambda>p. unat (allocated p)" charge_amount
  by unfold_locales

section \<open>What an owner holds\<close>

definition claims_of :: "user_funded \<Rightarrow> claimed_user_extent list" where
  "claims_of f = map the (take (f_count f) (f_claims f))"

definition funded_frames :: "user_funded \<Rightarrow> nat list" where
  "funded_frames f = concat (map claim_frames (claims_of f))"

lemma owner_claims:
  assumes "kf.owner_of N f xs c"
  shows "claims_of f = xs" "funded_frames f = user.frames_all xs" "f_count f = length xs" "f_pages f = length (user.frames_all xs)"
    "f_credit f = Some c"
  using assms unfolding kf.owner_of_def claims_of_def funded_frames_def user.frames_all_def slotted_def by (simp_all add: o_def)

lemma fund_user_frames_cases:
  assumes "closed q" "addressed i" "n < usize_bound"
  obtains (refused) e i' where "fund_user_frames q i n lim = Some (Err e, q, i')" "addressed i'" "free_set i' = free_set i"
      "pool_managed i' = pool_managed i" "kf.reason MAX_FUNDED_EXTENTS lim q i n e"
  | (funded) f xs c q' i' where "fund_user_frames q i n lim = Some (Ok f, q', i')" "kf.owner_of MAX_FUNDED_EXTENTS f xs c"
      "kf.paid q i q' i' xs c" "length (user.frames_all xs) = n" "length xs \<le> max_extents lim" "0 < n"
proof (rule kf.fund_exact [OF assms, where N = MAX_FUNDED_EXTENTS and lim = lim])
  fix e i'
  assume "fund MAX_FUNDED_EXTENTS PoolQuota UserInventory q i n lim = Some (Err e, q, i')" "addressed i'" "free_set i' = free_set i"
    "pool_managed i' = pool_managed i" "kf.reason MAX_FUNDED_EXTENTS lim q i n e"
  then show thesis
    using refused by (simp add: fund_user_frames_def)
next
  fix f xs c q' i'
  assume a: "fund MAX_FUNDED_EXTENTS PoolQuota UserInventory q i n lim = Some (Ok f, q', i')" "kf.owner_of MAX_FUNDED_EXTENTS f xs c"
    "kf.paid q i q' i' xs c" "length (user.frames_all xs) = n" "length xs \<le> max_extents lim" "0 < n"
  have "c \<noteq> None" "charge_amount c = f_pages f"
    using a(2,4,6) unfolding kf.owner_of_def by (auto simp: charge_amount_def split: option.splits)
  then have "charge_pages c = Some (f_pages f)"
    by (auto simp: charge_pages_def charge_amount_def)
  then have "fund_user_frames q i n lim = Some (Ok f, q', i')"
    using a(1) owner_claims(5) [OF a(2)] by (simp add: fund_user_frames_def)
  then show thesis
    using funded a(2-6) by blast
qed

text \<open>
  Claim C35. Funding memory is all or nothing and never fails an assertion. When it is refused, the memory pool is as before and so
  are the free frames, and the error tells why: a bad request, too little left in the pool, or too few free frames. When it succeeds, the pool has moved exactly the requested pages from available to allocated, and the owner
  holds exactly that many distinct frames, all of them free before, all cleared and none free now, in no more extents than allowed.
\<close>

theorem funding_all_or_nothing:
  assumes "closed q" "addressed i" "n < usize_bound"
  shows "\<exists>res q' i'. fund_user_frames q i n lim = Some (res, q', i') \<and> closed q' \<and> addressed i' \<and> pool_managed i' = pool_managed i \<and>
    (case res of
       Err e \<Rightarrow> q' = q \<and> free_set i' = free_set i \<and>
         (case e of
            ZeroPages \<Rightarrow> n = 0
          | PageLimit \<Rightarrow> max_pages lim < n
          | ExtentLimit \<Rightarrow> max_extents lim = 0 \<or> MAX_FUNDED_EXTENTS < max_extents lim \<or> max_extents lim < n
          | InvalidClaim \<Rightarrow> False
          | QuotaFailed _ \<Rightarrow> unat (available q) < n
          | PhysicalFailed _ \<Rightarrow> card (free_set i) < n)
     | Ok f \<Rightarrow> unat (available q') + n = unat (available q) \<and> unat (allocated q') = unat (allocated q) + n \<and>
         length (funded_frames f) = n \<and> distinct (funded_frames f) \<and> set (funded_frames f) \<subseteq> free_set i \<and>
         free_set i' = free_set i - set (funded_frames f) \<and> list_all cu_cleared (claims_of f) \<and> f_count f \<le> max_extents lim)"
proof (rule fund_user_frames_cases [OF assms, where lim = lim])
  fix e i'
  assume "fund_user_frames q i n lim = Some (Err e, q, i')" "addressed i'" "free_set i' = free_set i" "pool_managed i' = pool_managed i"
    "kf.reason MAX_FUNDED_EXTENTS lim q i n e"
  then show ?thesis
    using assms(1) unfolding kf.reason_def by simp
next
  fix f xs c q' i'
  assume a: "fund_user_frames q i n lim = Some (Ok f, q', i')" "kf.owner_of MAX_FUNDED_EXTENTS f xs c"
    "kf.paid q i q' i' xs c" "length (user.frames_all xs) = n" "length xs \<le> max_extents lim"
  note p = a(3) [unfolded kf.paid_def user.taken_def]
  show ?thesis
    using a(1,4,5) p owner_claims [OF a(2)] by (simp add: list_all_iff)
qed

text \<open>Ten pages of quota, all available, and the frames 4 to 7.\<close>

definition demo_quota :: pool_state where
  "demo_quota = \<lparr>owner_key = 1, identity = PoolId 1, parent_identity = None, depth = 0, total = 10, available = 10, reserved = 0,
     allocated = 0, delegated = 0, parent_credit = None\<rparr>"

definition demo_limits :: limits where
  "demo_limits = \<lparr>max_pages = 8, max_extents = 8\<rparr>"

lemma demo_funding: "closed demo_quota" "addressed demo_pool"
  using demo_pool_facts by (auto simp: demo_quota_def closed_def columns_def addressed_def frame_limit_def)

lemma demo_funded: "\<exists>f q i. fund_user_frames demo_quota demo_pool 3 demo_limits = Some (Ok f, q, i)"
proof (rule fund_user_frames_cases [OF demo_funding, where n = 3 and lim = demo_limits])
  fix e i'
  assume "kf.reason MAX_FUNDED_EXTENTS demo_limits demo_quota demo_pool 3 e"
  then show ?thesis
    unfolding kf.reason_def demo_pool_facts(2) by (cases e) (simp_all add: demo_limits_def MAX_FUNDED_EXTENTS_def demo_quota_def)
qed (simp, blast)

theorem funding_all_or_nothing_witness:
  "\<exists>f q i. fund_user_frames demo_quota demo_pool 3 demo_limits = Some (Ok f, q, i) \<and> unat (available q) = 7 \<and>
     length (funded_frames f) = 3 \<and> free_set i = {4..<8} - set (funded_frames f) \<and>
   (\<exists>e j. fund_user_frames demo_quota demo_pool 5 demo_limits = Some (Err (PhysicalFailed e), demo_quota, j) \<and> free_set j = {4..<8})"
proof -
  have "unat (available demo_quota) = 10"
    by (simp add: demo_quota_def)
  moreover obtain f q i where "fund_user_frames demo_quota demo_pool 3 demo_limits = Some (Ok f, q, i)"
    using demo_funded by blast
  moreover from this have "unat (available q) = 7 \<and> length (funded_frames f) = 3 \<and> free_set i = {4..<8} - set (funded_frames f)"
    using funding_all_or_nothing [OF demo_funding, of 3 demo_limits] calculation(1) unfolding demo_pool_facts(2) by simp
  moreover have "\<exists>e j. fund_user_frames demo_quota demo_pool 5 demo_limits = Some (Err (PhysicalFailed e), demo_quota, j) \<and> free_set j = {4..<8}"
  proof -
    obtain res q' j where r: "fund_user_frames demo_quota demo_pool 5 demo_limits = Some (res, q', j)"
      "case res of Err e \<Rightarrow> q' = demo_quota \<and> free_set j = {4..<8} \<and> (\<exists>x. e = PhysicalFailed x)
        | Ok f \<Rightarrow> distinct (funded_frames f) \<and> set (funded_frames f) \<subseteq> {4..<8} \<and> length (funded_frames f) = 5"
      using funding_all_or_nothing [OF demo_funding, of 5 demo_limits] calculation(1) unfolding demo_pool_facts(2)
      by (fastforce simp: demo_limits_def MAX_FUNDED_EXTENTS_def split: result.splits fund_error.splits)
    have "length xs \<le> 4" if "distinct xs" "set xs \<subseteq> {4..<8}" for xs :: "nat list"
      using that card_mono [of "{4..<8}" "set xs"] distinct_card [of xs] by simp
    then show ?thesis
      using r by (cases res) fastforce+
  qed
  ultimately show ?thesis
    by blast
qed

end
