(* ===== verification/Kernel_Funding_Objects.thy ===== *)
theory Kernel_Funding_Objects
  imports Kernel_Funding_Props
begin

text \<open>
  The life of funded memory: parts of it, the extents of a memory object, the projection of an object's pages onto frames, and that
  dropping gives back what was taken.
\<close>

section \<open>Parts\<close>

lemma fund_user_frames_owner:
  assumes "closed q" "addressed i" "n < usize_bound" "fund_user_frames q i n lim = Some (Ok f, q', i')"
  obtains xs c where "kf.owner_of MAX_FUNDED_EXTENTS f xs c" "kf.paid q i q' i' xs c" "length (user.frames_all xs) = n"
    "length xs \<le> max_extents lim" "0 < n"
proof (rule fund_user_frames_cases [OF assms(1-3), where lim = lim])
  fix g ys d q1 i1
  assume "fund_user_frames q i n lim = Some (Ok g, q1, i1)" "kf.owner_of MAX_FUNDED_EXTENTS g ys d" "kf.paid q i q1 i1 ys d"
    "length (user.frames_all ys) = n" "length ys \<le> max_extents lim" "0 < n"
  then show thesis
    using assms(4) that by simp
qed (use assms(4) in simp)

text \<open>
  Claim C36. Memory just funded can be split anywhere inside: the two owners hold its first and its remaining frames in order, and
  dropping both, one after the other, restores the memory pool and the free frames as they were before the funding.
\<close>

theorem funded_parts_return:
  assumes "closed q" "addressed i" "n < usize_bound" "fund_user_frames q i n lim = Some (Ok f, q', i')" "0 < left" "left < n"
  shows "\<exists>f' g q1 i1 k. split_off PoolQuota UserInventory f left = Some (Ok g, f') \<and>
    funded_frames f' = take left (funded_frames f) \<and> funded_frames g = drop left (funded_frames f) \<and>
    drop_funded PoolQuota UserInventory q' i' f' = Some (q1, i1) \<and> drop_funded PoolQuota UserInventory q1 i1 g = Some (q, k) \<and>
    free_set k = free_set i \<and> pool_managed k = pool_managed i \<and> addressed k"
proof -
  obtain xs c where x: "kf.owner_of MAX_FUNDED_EXTENTS f xs c" "kf.paid q i q' i' xs c" "length (user.frames_all xs) = n"
    using fund_user_frames_owner [OF assms(1-4)] by blast
  have "left < f_pages f"
    using owner_claims(4) [OF x(1)] x(3) assms(6) by simp
  then obtain g f' ls rs a b q1 i1 k where "split_off PoolQuota UserInventory f left = Some (Ok g, f')"
    "kf.owner_of MAX_FUNDED_EXTENTS f' ls b" "kf.owner_of MAX_FUNDED_EXTENTS g rs a" "user.cut_into left xs ls rs"
    "drop_funded PoolQuota UserInventory q' i' f' = Some (q1, i1)" "drop_funded PoolQuota UserInventory q1 i1 g = Some (q, k)"
    "addressed k" "free_set k = free_set i" "pool_managed k = pool_managed i"
    using kf.split_drop [OF assms(2) x(1,2) assms(5)] by blast
  then show ?thesis
    using owner_claims(2) [OF x(1)] owner_claims(2) [of _ f' ls b] owner_claims(2) [of _ g rs a] unfolding user.cut_into_def by auto
qed

theorem funded_parts_return_witness:
  "\<exists>f q i g f' q1 i1 k. fund_user_frames demo_quota demo_pool 3 demo_limits = Some (Ok f, q, i) \<and>
     split_off PoolQuota UserInventory f 1 = Some (Ok g, f') \<and> funded_frames f = funded_frames f' @ funded_frames g \<and>
     drop_funded PoolQuota UserInventory q i f' = Some (q1, i1) \<and> drop_funded PoolQuota UserInventory q1 i1 g = Some (demo_quota, k) \<and>
     free_set k = {4..<8}"
proof -
  obtain f q i where f: "fund_user_frames demo_quota demo_pool 3 demo_limits = Some (Ok f, q, i)"
    using demo_funded by blast
  obtain f' g q1 i1 k where "split_off PoolQuota UserInventory f 1 = Some (Ok g, f')" "funded_frames f' = take 1 (funded_frames f)"
    "funded_frames g = drop 1 (funded_frames f)" "drop_funded PoolQuota UserInventory q i f' = Some (q1, i1)"
    "drop_funded PoolQuota UserInventory q1 i1 g = Some (demo_quota, k)" "free_set k = {4..<8}"
    using funded_parts_return [OF demo_funding _ f, of 1] unfolding demo_pool_facts(2) by auto
  then show ?thesis
    using f by (metis append_take_drop_id)
qed

section \<open>Extents of an object\<close>

text \<open>What the extents taken out of an owner with claims \<open>xs\<close> and charge \<open>c\<close> are.\<close>

definition extents_of :: "user_funded list \<Rightarrow> claimed_user_extent list \<Rightarrow> memory_charge \<Rightarrow> bool" where
  "extents_of es xs c \<longleftrightarrow> list_all2 (\<lambda>e x. \<exists>a. kf.owner_of 1 e [x] a) es xs \<and>
     (\<forall>q q' i. charge_drop q c = Some q' \<longrightarrow> addressed i \<longrightarrow> distinct (user.frames_all xs) \<longrightarrow>
        set (user.frames_all xs) \<subseteq> pool_managed i - free_set i \<longrightarrow>
        (\<exists>k. drop_extents q i es = Some (q', k) \<and> addressed k \<and> free_set k = free_set i \<union> set (user.frames_all xs) \<and>
           pool_managed k = pool_managed i))"

lemma c_drop_pool [simp]: "c_drop PoolQuota = charge_drop"
  by (simp add: PoolQuota_def)

lemma drop_one_extent:
  assumes "kf.owner_of 1 e [x] a" "charge_drop q a = Some q'" "addressed i" "set (claim_frames x) \<subseteq> pool_managed i - free_set i"
  shows "\<exists>k. drop_funded PoolQuota UserInventory q i e = Some (q', k) \<and> addressed k \<and> free_set k = free_set i \<union> set (claim_frames x) \<and>
    pool_managed k = pool_managed i"
proof -
  have "claim_whole x" "e = \<lparr>f_claims = slotted 1 [x], f_count = 1, f_pages = length (claim_frames x), f_credit = Some a\<rparr>"
    using assms(1) unfolding kf.owner_of_def by simp_all
  then show ?thesis
    using assms user.drop_claims_exact [of i "[x]" 1] user.nonempty [of x] by (auto simp: drop_funded_def)
qed

lemma extents_of_one:
  assumes "kf.owner_of 1 e [x] c"
  shows "extents_of [e] [x] c"
  using assms drop_one_extent [OF assms] unfolding extents_of_def by fastforce

lemma extents_of_cons:
  assumes "kf.owner_of 1 e [x] a" "extents_of es xs b" "drop_parts PoolQuota c a b"
  shows "extents_of (e # es) (x # xs) c"
proof -
  have "\<exists>k. drop_extents q i (e # es) = Some (q', k) \<and> addressed k \<and> free_set k = free_set i \<union> set (user.frames_all (x # xs)) \<and>
      pool_managed k = pool_managed i"
    if h: "charge_drop q c = Some q'" "addressed i" "distinct (user.frames_all (x # xs))"
      "set (user.frames_all (x # xs)) \<subseteq> pool_managed i - free_set i" for q q' i
  proof -
    obtain q1 where q1: "charge_drop q a = Some q1" "charge_drop q1 b = Some q'"
      using assms(3) h(1) unfolding drop_parts_def by auto
    obtain j where j: "drop_funded PoolQuota UserInventory q i e = Some (q1, j)" "addressed j"
        "free_set j = free_set i \<union> set (claim_frames x)" "pool_managed j = pool_managed i"
      using drop_one_extent [OF assms(1) q1(1) h(2)] h(4) by auto
    have "distinct (user.frames_all xs)" "set (user.frames_all xs) \<subseteq> pool_managed j - free_set j"
      using h(3,4) unfolding j(3,4) by auto
    then obtain k where "drop_extents q1 j es = Some (q', k)" "addressed k" "free_set k = free_set j \<union> set (user.frames_all xs)"
        "pool_managed k = pool_managed j"
      using assms(2) q1(2) j(2) unfolding extents_of_def by blast
    then show ?thesis
      using j by auto
  qed
  then show ?thesis
    using assms(1,2) unfolding extents_of_def by auto
qed

lemma extract_loop_exact:
  assumes "kf.owner_of N f xs c" "xs \<noteq> []"
  shows "\<exists>es. extract_loop f out = Some (out @ es) \<and> extents_of es xs c"
  using assms
proof (induction xs arbitrary: f c out)
  case (Cons x xs)
  have count: "f_count f \<noteq> 0"
    using owner_claims(3) [OF Cons.prems(1)] by simp
  show ?case
    using Cons.prems(1)
  proof (rule kf.split_first_exact)
    fix f' :: user_funded
    let ?e = "\<lparr>f_claims = [Some x], f_count = 1, f_pages = length (claim_frames x), f_credit = Some c\<rparr>"
    assume a: "xs = []" "split_first PoolQuota UserInventory f = Some (Ok ?e, f')" "f_count f' = 0" "kf.owner_of 1 ?e [x] c"
    then have "extract_loop f out = Some (out @ [?e])"
      using count by (simp add: extract_loop.simps [of f] extract_loop.simps [of f'])
    then show ?thesis
      using extents_of_one [OF a(4)] a(1) by blast
  next
    fix f' :: user_funded and a b :: memory_charge
    let ?e = "\<lparr>f_claims = [Some x], f_count = 1, f_pages = length (claim_frames x), f_credit = Some a\<rparr>"
    assume a: "xs \<noteq> []" "split_first PoolQuota UserInventory f = Some (Ok ?e, f')" "kf.owner_of N f' xs b" "kf.owner_of 1 ?e [x] a"
      "drop_parts PoolQuota c a b"
    obtain es where "extract_loop f' (out @ [?e]) = Some ((out @ [?e]) @ es)" "extents_of es xs b"
      using Cons.IH [OF a(3,1)] by blast
    then show ?thesis
      using count a(2) extents_of_cons [OF a(4) _ a(5)] by (auto simp: extract_loop.simps [of f])
  qed
qed simp

definition backing_frames :: "object_backing \<Rightarrow> nat list" where
  "backing_frames ob = concat (map funded_frames (ob_extents ob))"

lemma extents_frames:
  assumes "extents_of es xs c"
  shows "concat (map funded_frames es) = user.frames_all xs" "length es = length xs"
proof -
  have l: "list_all2 (\<lambda>e x. \<exists>a. kf.owner_of 1 e [x] a) es xs"
    using assms unfolding extents_of_def by simp
  then show "concat (map funded_frames es) = user.frames_all xs" "length es = length xs"
    by (induction rule: list_all2_induct) (auto simp: owner_claims)
qed

section \<open>Projection\<close>

definition span_frames :: "(nat \<times> nat) list \<Rightarrow> nat list" where
  "span_frames spans = concat (map (\<lambda>(s, k). [s..<s + k]) spans)"

lemma extent_range:
  assumes "kf.owner_of 1 e [x] a"
  obtains b where "extent_base e = Some b" "funded_frames e = [b..<b + f_pages e]" "b + f_pages e \<le> frame_limit" "0 < f_pages e"
proof -
  have "claim_whole x" "e = \<lparr>f_claims = slotted 1 [x], f_count = 1, f_pages = length (claim_frames x), f_credit = Some a\<rparr>"
    using assms unfolding kf.owner_of_def by simp_all
  then show thesis
    using that by (auto simp: extent_base_def slotted_def at_def claim_whole_def claim_frames_def funded_frames_def claims_of_def)
qed

lemma project_loop_exact:
  assumes "list_all2 (\<lambda>e x. \<exists>a. kf.owner_of 1 e [x] a) es xs" "cursor + length (concat (map funded_frames es)) < usize_bound"
    "offset < stop"
  shows "\<exists>out. project_loop offset stop cursor es spans = Some (spans @ out) \<and> length out \<le> length es \<and> (\<forall>(s, k) \<in> set out. 0 < k) \<and>
    span_frames out = take (stop - max offset cursor) (drop (offset - cursor) (concat (map funded_frames es)))"
  using assms(1,2)
proof (induction es xs arbitrary: cursor spans rule: list_all2_induct)
  case Nil
  then show ?case
    by (simp add: span_frames_def)
next
  case (Cons e es x xs)
  obtain a where "kf.owner_of 1 e [x] a"
    using Cons.hyps(1) by blast
  then obtain b where b: "extent_base e = Some b" "funded_frames e = [b..<b + f_pages e]" "b + f_pages e \<le> frame_limit" "0 < f_pages e"
    using extent_range by blast
  let ?after = "cursor + f_pages e"
  let ?rest = "concat (map funded_frames es)"
  have after_fits: "?after < usize_bound"
    using Cons.prems b(2) by simp
  have len: "length (funded_frames e) = f_pages e"
    using b(2) by simp
  have IH: "\<exists>out. project_loop offset stop ?after es spans' = Some (spans' @ out) \<and> length out \<le> length es \<and> (\<forall>(s, k) \<in> set out. 0 < k) \<and>
      span_frames out = take (stop - max offset ?after) (drop (offset - ?after) ?rest)" for spans'
    using Cons.IH [of ?after spans'] Cons.prems len by simp
  consider (before) "?after \<le> offset" | (past) "stop \<le> cursor" | (hit) "cursor < stop" "offset < ?after"
    by linarith
  then show ?case
  proof cases
    case before
    moreover have "offset - cursor - f_pages e = offset - ?after" "max offset cursor = offset" "max offset ?after = offset"
      using before by auto
    ultimately show ?thesis
      using IH [of spans] after_fits len by (auto simp: usize_add_def)
  next
    case past
    then show ?thesis
      using IH [of spans] after_fits assms(3) by (auto simp: usize_add_def)
  next
    case hit
    let ?skip = "offset - cursor"
    let ?amount = "min ?after stop - (cursor + ?skip)"
    have skip: "b + ?skip < usize_bound"
      using b(3) hit by (simp add: frame_limit_def)
    obtain out where out: "project_loop offset stop ?after es (spans @ [(b + ?skip, ?amount)]) = Some ((spans @ [(b + ?skip, ?amount)]) @ out)"
      "length out \<le> length es" "\<forall>(s, k) \<in> set out. 0 < k" "span_frames out = take (stop - max offset ?after) (drop (offset - ?after) ?rest)"
      using IH by blast
    have eqs: "stop - max offset ?after = stop - max offset cursor - (f_pages e - ?skip)" "?skip \<le> f_pages e" "offset - ?after = 0" "0 < ?amount"
      using hit assms(3) b(4) by auto
    have "[b + ?skip..<b + ?skip + ?amount] = take (stop - max offset cursor) (drop ?skip (funded_frames e))"
      using hit unfolding b(2) by (simp add: take_upt min_def max_def)
    then have "span_frames ((b + ?skip, ?amount) # out) = take (stop - max offset cursor) (drop ?skip (concat (map funded_frames (e # es))))"
      using out(4) eqs(1,2) len hit(2) by (simp add: span_frames_def)
    moreover have "project_loop offset stop cursor (e # es) spans = Some (spans @ (b + ?skip, ?amount) # out)"
      using after_fits skip hit b(1) out(1) by (simp add: usize_add_def Let_def)
    ultimately show ?thesis
      using out(2,3) eqs(4) by (intro exI [of _ "(b + ?skip, ?amount) # out"]) simp
  qed
qed

lemma fund_object_backing_exact:
  assumes "closed q" "addressed i" "n < usize_bound" "fund_object_backing mem q i n lim = Some (Ok ob, q', i')"
  obtains xs c where "extents_of (ob_extents ob) xs c" "kf.paid q i q' i' xs c" "ob_pages ob = n" "length (backing_frames ob) = n"
    "backing_frames ob = user.frames_all xs" "length (ob_extents ob) \<le> max_extents lim"
proof -
  obtain res q1 i1 where r: "fund_user_frames q i n lim = Some (res, q1, i1)"
    using assms(4) by (auto simp: fund_object_backing_def bind_eq_Some_conv)
  then obtain f where "res = Ok f"
    using assms(4) by (cases res) (simp_all add: fund_object_backing_def)
  then have f: "fund_user_frames q i n lim = Some (Ok f, q', i')" "extract_loop f [] = Some (ob_extents ob)" "ob_pages ob = f_pages f"
    using r assms(4) by (auto simp: fund_object_backing_def into_extents_def bind_eq_Some_conv split: if_split_asm)
  obtain xs c where x: "kf.owner_of MAX_FUNDED_EXTENTS f xs c" "kf.paid q i q' i' xs c" "length (user.frames_all xs) = n"
    "length xs \<le> max_extents lim" "0 < n"
    using fund_user_frames_owner [OF assms(1-3) f(1)] by blast
  have "xs \<noteq> []"
    using x(3,5) by auto
  then have e: "extents_of (ob_extents ob) xs c"
    using extract_loop_exact [OF x(1), of "[]"] f(2) by auto
  show thesis
    using that [OF e x(2)] f(3) owner_claims(4) [OF x(1)] x(3,4) extents_frames [OF e] unfolding backing_frames_def by simp
qed

lemma demo_size: "(3 :: nat) < usize_bound"
  by simp

lemma demo_object: "\<exists>ob q i. fund_object_backing True demo_quota demo_pool 3 demo_limits = Some (Ok ob, q, i)"
proof -
  obtain f q i where f: "fund_user_frames demo_quota demo_pool 3 demo_limits = Some (Ok f, q, i)"
    using demo_funded by blast
  obtain xs c where x: "kf.owner_of MAX_FUNDED_EXTENTS f xs c" "length (user.frames_all xs) = 3"
    using fund_user_frames_owner [OF demo_funding demo_size f] by blast
  obtain es where "extract_loop f [] = Some es"
    using extract_loop_exact [OF x(1), of "[]"] x(2) by (cases xs) auto
  then show ?thesis
    using f by (simp add: fund_object_backing_def into_extents_def)
qed

text \<open>
  Claim C37. The pages of a memory object are exactly the frames funded for it, and the projection of a page range yields the frames of
  exactly these pages in order, as non-empty spans that fit the announced capacity. A range that overflows or ends beyond the object
  is an assertion failure.
\<close>

theorem object_projection_exact:
  assumes "closed q" "addressed i" "n < usize_bound" "fund_object_backing mem q i n lim = Some (Ok ob, q', i')"
  shows "length (backing_frames ob) = n \<and> distinct (backing_frames ob) \<and> set (backing_frames ob) = free_set i - free_set i' \<and>
    (if offset + len \<le> n
     then \<exists>out. project ob offset len spans = Some (spans @ out) \<and> span_frames out = take len (drop offset (backing_frames ob)) \<and>
       list_all (\<lambda>(s, k). 0 < k) out \<and> length out \<le> projection_capacity ob
     else project ob offset len spans = None)"
proof -
  obtain xs c where x: "extents_of (ob_extents ob) xs c" "kf.paid q i q' i' xs c" "ob_pages ob = n" "length (backing_frames ob) = n"
    "backing_frames ob = user.frames_all xs"
    using fund_object_backing_exact [OF assms] by blast
  have "distinct (backing_frames ob)" "set (backing_frames ob) = free_set i - free_set i'"
    using x(2) unfolding x(5) kf.paid_def user.taken_def by auto
  moreover have "\<exists>out. project ob offset len spans = Some (spans @ out) \<and> span_frames out = take len (drop offset (backing_frames ob)) \<and>
       list_all (\<lambda>(s, k). 0 < k) out \<and> length out \<le> projection_capacity ob" if "offset + len \<le> n"
  proof (cases "len = 0")
    case True
    then show ?thesis
      using that x(3) assms(3) by (simp add: project_def usize_add_def span_frames_def)
  next
    case False
    have l: "list_all2 (\<lambda>e x. \<exists>a. kf.owner_of 1 e [x] a) (ob_extents ob) xs"
      using x(1) unfolding extents_of_def by simp
    show ?thesis
      using project_loop_exact [OF l, of 0 offset "offset + len" spans] False that x(3,4) assms(3)
      unfolding backing_frames_def projection_capacity_def by (auto simp: project_def usize_add_def list_all_iff)
  qed
  ultimately show ?thesis
    using x(3,4) by (auto simp: project_def usize_add_def bind_eq_None_conv)
qed

theorem object_projection_exact_witness:
  "\<exists>ob q i out. fund_object_backing True demo_quota demo_pool 3 demo_limits = Some (Ok ob, q, i) \<and> length (backing_frames ob) = 3 \<and>
     project ob 1 2 [] = Some out \<and> span_frames out = drop 1 (backing_frames ob) \<and> project ob 2 2 [] = None"
proof -
  obtain ob q i where ob: "fund_object_backing True demo_quota demo_pool 3 demo_limits = Some (Ok ob, q, i)"
    using demo_object by blast
  note p = object_projection_exact [OF demo_funding _ ob, of _ _ "[]"]
  show ?thesis
    using ob p [of 1 2] p [of 2 2] by auto
qed

text \<open>
  Claim C38. A memory object that goes away gives back everything: when the extents of its backing are dropped one by one, the memory
  pool is as it was before the object was funded and the free frames are the same.
\<close>

theorem object_drop_restores:
  assumes "closed q" "addressed i" "n < usize_bound" "fund_object_backing mem q i n lim = Some (Ok ob, q', i')"
  shows "\<exists>k. drop_extents q' i' (ob_extents ob) = Some (q, k) \<and> addressed k \<and> free_set k = free_set i \<and> pool_managed k = pool_managed i"
proof -
  obtain xs c where x: "extents_of (ob_extents ob) xs c" "kf.paid q i q' i' xs c"
    using fund_object_backing_exact [OF assms] by blast
  have t: "addressed i'" "distinct (user.frames_all xs)" "set (user.frames_all xs) \<subseteq> free_set i"
    "free_set i' = free_set i - set (user.frames_all xs)" "pool_managed i' = pool_managed i" "charge_drop q' c = Some q"
    using x(2) unfolding kf.paid_def user.taken_def by simp_all
  have "set (user.frames_all xs) \<subseteq> pool_managed i' - free_set i'"
    using t(3) free_set_managed [of i] unfolding t(4,5) by blast
  then obtain k where "drop_extents q' i' (ob_extents ob) = Some (q, k)" "addressed k" "free_set k = free_set i' \<union> set (user.frames_all xs)"
      "pool_managed k = pool_managed i'"
    using x(1) t(1,2,6) unfolding extents_of_def by blast
  then show ?thesis
    using t(3-5) by auto
qed

theorem object_drop_restores_witness:
  "\<exists>ob q i k. fund_object_backing True demo_quota demo_pool 3 demo_limits = Some (Ok ob, q, i) \<and>
     drop_extents q i (ob_extents ob) = Some (demo_quota, k) \<and> free_set k = {4..<8}"
proof -
  obtain ob q i where ob: "fund_object_backing True demo_quota demo_pool 3 demo_limits = Some (Ok ob, q, i)"
    using demo_object by blast
  show ?thesis
    using ob object_drop_restores [OF demo_funding _ ob] unfolding demo_pool_facts(2) by fastforce
qed

end
