(* ===== verification/Spec2Isabelle.thy ===== *)
theory Spec2Isabelle
  imports Prelude Monotonic_Id Memory_Pool_Tree Handle_Table_Batch Ordered_Table Timer_Queue_Contract Work_Debt_System Wait_Core_Threads Frame_Inventory Kernel_Frames_Release Kernel_Funding_Objects
begin

text \<open>
  A verification of the resource core of the eRhino microkernel (the Halcyon repository, Rust, RV64). The kernel is a composition of
  small crates under \<open>src/os\<close> and \<open>src/shared\<close> that hold all its bookkeeping: who owns which frame, which quota pays for it, which
  handle names which object, who completes a wait, which timer is due. These crates and the kernel modules that compose them at boot
  and for funded memory are modelled here, function by function.

  \<^bold>\<open>How the parts work together.\<close> At boot the kernel (\<open>os/kernel/src/frame.rs\<close>) collects the reserved ranges of the board, lets the planner
  \<open>memory_supply\<close> classify all memory and publishes what is left in the \<open>frame_pool\<close>; the page count becomes the root \<open>memory_pool\<close>.
  Afterwards a process pays for memory from a \<open>memory_pool\<close>: \<open>funded_frame\<close> reserves quota, claims extents from the frame pool and
  commits. Objects are named by the handles of a \<open>handle_table\<close>. Threads wait by \<open>wait_context\<close>, deadlines are in a \<open>timer_queue\<close>, work
  left for later in \<open>work_debt\<close>, and user-space tables are \<open>ordered_table\<close>s. Identities come from \<open>monotonic_id\<close>.

  \<^bold>\<open>Conventions.\<close> A struct is a \<open>record\<close> and an enum a \<open>datatype\<close>. \<open>u8\<close>, \<open>u32\<close> and \<open>u64\<close> are words; a \<open>usize\<close> is a natural number below
  \<open>usize_bound\<close>, with checked arithmetic where the source computes on sizes it does not bound. A method on \<open>&mut self\<close> maps the state to the result and the new state.
  \<open>Result\<close> is \<open>('t, 'e) result\<close>; a panic (an assertion, an \<open>expect\<close>, an index out of bounds) is the \<open>None\<close> of an outer option, so that
  ``never panics'' is a theorem about the value. A failing allocator is a Boolean argument. A trait is a record of functions, its
  promise a locale, and every locale is interpreted on the model of the crate that keeps the promise.

  \<^bold>\<open>The theories.\<close>
  \<^item> \<open>Prelude\<close>: integer types, \<open>result\<close>, checked arithmetic, reachability of transition systems (\<open>inv_system\<close>, \<open>lifetimes\<close>).
  \<^item> \<open>Monotonic_Id\<close> (\<open>shared/monotonic_id\<close>): no identity is issued twice.
  \<^item> \<open>Memory_Pool\<close>, \<open>Memory_Pool_Tree\<close> (\<open>os/memory_pool\<close>): one pool, and whole trees of pools with the tokens callers hold, as a
    transition system; pages are conserved over every run, tokens are always accepted, failing operations give their token back.
  \<^item> \<open>Object_Abi\<close>, \<open>Handle_Table\<close>, \<open>Handle_Table_Props\<close>, \<open>Handle_Table_Batch\<close> (\<open>shared/erhino_shared/src/object.rs\<close>,
    \<open>os/handle_table\<close>): the table is a map from handles to entries; a stale handle stays stale; batched operations are all or nothing.
  \<^item> \<open>Ordered_Table\<close> (\<open>shared/ordered_table\<close>): the AVL tree is a bounded finite map.
  \<^item> \<open>Timer_Queue\<close> and \<open>Timer_Queue_Heap\<close>, \<open>_Props\<close>, \<open>_Ops\<close>, \<open>_Contract\<close> (\<open>shared/timer_queue\<close>): the indexed heap is a map from tokens to
    deadlines; draining delivers every due timer once, in order.
  \<^item> \<open>Work_Debt\<close>, \<open>Work_Debt_Props\<close>, \<open>Queue_Contract\<close>, \<open>Work_Debt_System\<close> (\<open>os/work_debt\<close>): chains of slots are FIFO queues; a wake
    is never lost; every token is accepted.
  \<^item> \<open>Wait_Core\<close>, \<open>Wait_Core_Threads\<close> (\<open>os/wait_context\<close>): atomic steps of any number of threads, arbitrarily interleaved; a round has
    one completer and no completion is lost; the whole operations are runs of these steps.
  \<^item> \<open>Frame_Pool\<close>, \<open>Frame_Tree\<close>, \<open>Frame_Pool_Blocks\<close>, \<open>_Ranges\<close>, \<open>_Props\<close>, \<open>_System\<close>, \<open>Frame_Inventory\<close> (\<open>os/frame_pool\<close>): the
    metadata bytes are order trees, these are sets of free frames, every operation takes or returns exactly the frames it says, and
    no frame has two owners.
  \<^item> \<open>Memory_Supply\<close>, \<open>Memory_Supply_Ranges\<close>, \<open>_Props\<close>, \<open>_Capacity\<close> (\<open>os/memory_supply\<close>): a plan classifies every managed byte once,
    meets the requirements, and the buffers the kernel gives it suffice.
  \<^item> \<open>Kernel_Frames\<close>, \<open>_Props\<close>, \<open>_Release\<close> (\<open>os/kernel/src/frame.rs\<close>, \<open>board.rs\<close>, \<open>external.rs\<close>): the boot and the release of the device
    tree; their properties are in this theory.
  \<^item> \<open>Funded_Frame\<close>, \<open>Funded_Frame_Props\<close> (\<open>os/funded_frame\<close>) and \<open>Kernel_Funding\<close>, \<open>_Props\<close>, \<open>_Objects\<close> (\<open>os/kernel/src/frame.rs\<close>,
    \<open>task/memory_pool.rs\<close>): funding is proved for every inventory and quota that keep their contracts; the frame pool and the memory
    pool keep them, so the kernel's funding is all or nothing and dropping restores both accounts.

  \<^bold>\<open>Bounds.\<close> No definition uses fuel: loops are structural recursions or have a proved measure. The atomic exchange loops of
  \<open>wait_context\<close> are single attempts that the threads repeat.

  \<^bold>\<open>Not modelled.\<close> Boot assembly, trap entry, device registers, the console and inter-hart interrupts have no meaning in this logic beyond
  their calls. The kernel's task modules (processes, threads, jobs, tunnels, mailboxes, wait sets, system calls) are built on reference
  counts, locks and raw memory; of these only the memory charges are modelled. The user-space services and libraries are programs over
  the system call interface. The weak memory orderings of \<open>wait_context\<close> are taken as sequentially consistent.
\<close>

section \<open>The kernel's boot: board, planner and frame pool\<close>

text \<open>
  Claim C33. Booting on a board whose ranges pass the checks and fit the planner succeeds: no assertion of \<open>init\<close> fails. The pool
  then manages exactly the frames of the board's memories, its free frames are exactly those of the planner's user-free ranges, none
  of them belongs to a permanent or boot-held range, to the metadata or to a heap chunk, and the seed for the root memory pool counts
  the free and the boot-held frames.
\<close>

theorem frames_init_closes:
  assumes "gather board im = Some inp" "length (memories board) \<le> MAX_MEMORY_REGIONS" "ROOT_POOL_SEED sys = None"
    "plan_ranges kernel_planner (in_managed inp) (in_permanent inp) (in_boot inp) (kernel_requirements (in_metadata_len inp)) = Ok p"
  shows "\<exists>q. frames_init board im sys = Some (sys\<lparr>POOL := Some q, SYSTEM_SUPPLY := Some (system p),
      ROOT_POOL_SEED := Some (free_frames q + boot_held_bytes (inventory p) div PAGE_SIZE)\<rparr>) \<and>
    pool_inv q \<and> pool_managed q = frames_of (cover (in_managed inp)) \<and> free_set q = frames_of (cover (user_free (inventory p))) \<and>
    free_set q \<inter> frames_of (cover (in_permanent inp) \<union> cover (in_boot inp) \<union> pts (supply_metadata (system p)) \<union>
      cover (heap_snapshot (system p))) = {}"
proof -
  obtain q where q: "pool_inv q" "pool_managed q = frames_of (cover (in_managed inp))"
    "free_set q = frames_of (cover (user_free (inventory p)))"
    "publish inp p sys = Some (sys\<lparr>POOL := Some q, SYSTEM_SUPPLY := Some (system p),
       ROOT_POOL_SEED := Some (free_frames q + boot_held_bytes (inventory p) div PAGE_SIZE)\<rparr>)"
    by (rule publish_exact [OF assms])
  have "cover (user_free (inventory p)) \<inter> (cover (in_permanent inp) \<union> cover (in_boot inp) \<union> pts (supply_metadata (system p)) \<union>
      cover (heap_snapshot (system p))) = {}"
    by (rule plan_free_apart [OF assms(4)])
  then have "frames_of (cover (user_free (inventory p))) \<inter> frames_of (cover (in_permanent inp) \<union> cover (in_boot inp) \<union>
      pts (supply_metadata (system p)) \<union> cover (heap_snapshot (system p))) = {}"
    by (metis frames_of_simps(1,3))
  then show ?thesis
    using q assms(1,4) unfolding frames_init_def by (intro exI [of _ q]) simp
qed

theorem frames_init_closes_witness:
  "\<exists>q sys. frames_init demo_board demo_image demo_frames = Some sys \<and> POOL sys = Some q \<and> ROOT_POOL_SEED sys = Some (free_frames q + 18)"
proof -
  obtain p where p: "plan_ranges kernel_planner (in_managed demo_inputs) (in_permanent demo_inputs) (in_boot demo_inputs)
      (kernel_requirements (in_metadata_len demo_inputs)) = Ok p" "boot_held_bytes (inventory p) = 73728"
    using demo_plan_fits by blast
  have d: "length (memories demo_board) \<le> MAX_MEMORY_REGIONS" "ROOT_POOL_SEED demo_frames = None"
    by (simp_all add: demo_board_def MAX_MEMORY_REGIONS_def demo_frames_def)
  obtain q where "frames_init demo_board demo_image demo_frames = Some (demo_frames\<lparr>POOL := Some q,
      SYSTEM_SUPPLY := Some (system p), ROOT_POOL_SEED := Some (free_frames q + boot_held_bytes (inventory p) div PAGE_SIZE)\<rparr>)"
    using frames_init_closes [OF demo_gather d p(1)] by (elim exE conjE) (rule that)
  then show ?thesis
    by (simp add: p(2) PAGE_SIZE_def)
qed

text \<open>
  Claim C39. The capacity of the planner is enough for every board: with the reservations that \<open>init\<close> accepts, at most 32 platform
  ranges, two parts of the image and three boot-held ranges over at most 16 memories, the plan never runs out of ranges.
\<close>

theorem boot_ranges_suffice:
  assumes "gather board im = Some inp" "length (memories board) \<le> MAX_MEMORY_REGIONS"
  shows "plan_ranges kernel_planner (in_managed inp) (in_permanent inp) (in_boot inp) (kernel_requirements (in_metadata_len inp)) \<noteq>
    Err CapacityExhausted"
proof (rule plan_capacity)
  show "counted MAX_MEMORY_REGIONS MAX_PERMANENT_RESERVATIONS MAX_BOOT_HOLDS (in_managed inp) (in_permanent inp) (in_boot inp)"
    using gather_counts [OF assms(1)] assms(2) unfolding counted_def by simp
qed (simp add: kernel_planner_def kernel_requirements_def Planner_new_def MAX_CLASSIFIED_RANGES_def)

theorem boot_ranges_suffice_witness:
  "plan_ranges kernel_planner (in_managed demo_inputs) (in_permanent demo_inputs) (in_boot demo_inputs)
     (kernel_requirements (in_metadata_len demo_inputs)) \<noteq> Err CapacityExhausted"
  by (rule boot_ranges_suffice [OF demo_gather]) (simp add: demo_board_def MAX_MEMORY_REGIONS_def)



end
